(* ===== verification/Prelude.thy ===== *)
theory Prelude
  imports Main "HOL-Library.Monad_Syntax"
begin

text \<open>
  What every component shares: the development's theorem collections, the type names, and
  generic lemmas on lists and options.

  Two conventions are used throughout.
  \<^item> Code whose only failure is undefined behaviour (an access outside an object, a signed
    overflow) is a function into \<open>'a option\<close>: \<open>None\<close> is undefined behaviour, and
    \<open>do\<close> blocks are the option monad. A theorem \<open>\<exists>r. f x = Some r\<close> is a memory-safety
    statement.
  \<^item> A blocking system call takes its result from a list of the kernel's answers. When
    the list is used up the call has not returned yet, and the run is \<open>Blocked\<close>. Every
    theorem quantifies over all answer lists, so it speaks of every finite prefix of
    every execution.
\<close>

named_theorems c_simps \<open>evaluation of the C library functions on well-formed buffers\<close>
named_theorems cache_inv_intros \<open>operations that keep the invariant of the store\<close>
named_theorems run_simps \<open>evaluation of system-call programs\<close>

type_synonym buf = "char list"
type_synonym bytes = "char list"

text \<open>The result of a call that may still be waiting for the kernel.\<close>

datatype 'a run = Returned 'a | Blocked

text \<open>The values of \<open>errno\<close> the programs test for, and all others.\<close>

datatype errno = EINTR | EINVAL | ESRCH | EACCES | ENOENT | ESTALE | EIO | Other_errno nat

subsection \<open>Options\<close>

lemma bind_SomeI [intro]: "m = Some x \<Longrightarrow> f x = Some y \<Longrightarrow> Option.bind m f = Some y"
  by simp

lemma bind_SomeE:
  assumes "Option.bind m f = Some y"
  obtains x where "m = Some x" and "f x = Some y"
  using assms by (auto simp: bind_eq_Some_conv)

lemma if_else_None_eq_Some [simp]:
  "(if b then Some x else None) = Some y \<longleftrightarrow> b \<and> x = y"
  by simp

subsection \<open>Lists\<close>

lemma takeWhile_neq_append:
  "c \<notin> set xs \<Longrightarrow> takeWhile (\<lambda>x. x \<noteq> c) (xs @ c # ys) = xs"
  by (induction xs) auto

lemma split_first:
  assumes "c \<in> set xs"
  shows "xs = takeWhile (\<lambda>x. x \<noteq> c) xs @ c # drop (Suc (length (takeWhile (\<lambda>x. x \<noteq> c) xs))) xs"
  using assms by (induction xs) auto

lemma length_takeWhile_neq_less: "c \<in> set xs \<Longrightarrow> length (takeWhile (\<lambda>x. x \<noteq> c) xs) < length xs"
  by (induction xs) auto

lemma takeWhile_neq_all: "c \<notin> set xs \<Longrightarrow> takeWhile (\<lambda>x. x \<noteq> c) xs = xs"
  by (induction xs) auto

lemma not_in_takeWhile_neq [simp]: "c \<notin> set (takeWhile (\<lambda>x. x \<noteq> c) xs)"
  by (induction xs) auto

text \<open>The first element of a list with a property, by index: the shape of a search loop.\<close>

fun find_index :: "('a \<Rightarrow> bool) \<Rightarrow> 'a list \<Rightarrow> nat option" where
  "find_index P [] = None"
| "find_index P (x # xs) = (if P x then Some 0 else map_option Suc (find_index P xs))"

lemma find_index_None: "find_index P xs = None \<longleftrightarrow> (\<forall>x\<in>set xs. \<not> P x)"
  by (induction xs) auto

lemma find_index_SomeD:
  "find_index P xs = Some i \<Longrightarrow> i < length xs \<and> P (xs ! i) \<and> (\<forall>j<i. \<not> P (xs ! j))"
proof (induction xs arbitrary: i)
  case (Cons x xs)
  show ?case
  proof (cases "P x")
    case False
    with Cons.prems obtain k where k: "find_index P xs = Some k" "i = Suc k"
      by auto
    with Cons.IH have "k < length xs \<and> P (xs ! k) \<and> (\<forall>j<k. \<not> P (xs ! j))"
      by blast
    with False k(2) show ?thesis
      by (auto simp: less_Suc_eq_0_disj)
  qed (use Cons.prems in auto)
qed simp

lemma find_index_Some_nth: "find_index P xs = Some i \<Longrightarrow> P (xs ! i)"
  by (drule find_index_SomeD) blast

lemma find_index_Some_less: "find_index P xs = Some i \<Longrightarrow> i < length xs"
  by (drule find_index_SomeD) blast

lemma find_index_unique:
  assumes "\<And>i j. i < length xs \<Longrightarrow> j < length xs \<Longrightarrow> P (xs ! i) \<Longrightarrow> P (xs ! j) \<Longrightarrow> i = j"
  shows "find_index P xs = Some i \<longleftrightarrow> i < length xs \<and> P (xs ! i)"
proof
  assume "find_index P xs = Some i"
  then show "i < length xs \<and> P (xs ! i)" by (auto dest: find_index_SomeD)
next
  assume i: "i < length xs \<and> P (xs ! i)"
  then obtain k where k: "find_index P xs = Some k"
    using find_index_None [of P xs] by (metis nth_mem option.exhaust)
  then have "k = i" using find_index_SomeD [OF k] i assms by blast
  with k show "find_index P xs = Some i" by simp
qed

end
