(* ===== verification/C_Lib.thy ===== *)
theory C_Lib
  imports Prelude
begin

text \<open>
  The part of the C library the two C programs use, on buffers.

  A buffer is the list of its initialised bytes. An array of static storage has all its
  bytes in the list; a local array starts as \<open>[]\<close> and grows as it is written, and its
  declared size is an argument of every write. A read outside the initialised bytes and
  a write outside the declared size are undefined behaviour, \<open>None\<close>. The locale is
  the \<open>C\<close> locale: neither program calls \<open>setlocale\<close>.
\<close>

abbreviation NUL :: char where
  "NUL \<equiv> CHR 0x00"

abbreviation LF :: char where
  "LF \<equiv> CHR 0x0A"

abbreviation CR :: char where
  "CR \<equiv> CHR 0x0D"

subsection \<open>Buffers\<close>

definition read_at :: "'a list \<Rightarrow> nat \<Rightarrow> 'a option" where
  "read_at b i = (if i < length b then Some (b ! i) else None)"

text \<open>
  \<open>memcpy cap dst off src n\<close> is \<^verbatim>\<open>memcpy(dst + off, src, n)\<close> into an array declared
  with \<open>cap\<close> elements.
\<close>

definition memcpy :: "nat \<Rightarrow> 'a list \<Rightarrow> nat \<Rightarrow> 'a list \<Rightarrow> nat \<Rightarrow> 'a list option" where
  "memcpy cap dst off src n =
     (if n \<le> length src \<and> off \<le> length dst \<and> off + n \<le> cap
      then Some (take off dst @ take n src @ drop (off + n) dst) else None)"

definition write_at :: "nat \<Rightarrow> 'a list \<Rightarrow> nat \<Rightarrow> 'a \<Rightarrow> 'a list option" where
  "write_at cap dst off c = memcpy cap dst off [c] 1"

text \<open>\<^verbatim>\<open>memchr(b + off, c, n)\<close>, the position counted from the start of \<open>b\<close>.\<close>

definition memchr :: "buf \<Rightarrow> nat \<Rightarrow> char \<Rightarrow> nat \<Rightarrow> nat option option" where
  "memchr b off c n =
     (if off + n \<le> length b
      then Some (map_option (\<lambda>k. off + k) (find_index (\<lambda>x. x = c) (take n (drop off b))))
      else None)"

subsection \<open>Strings\<close>

text \<open>The string a buffer holds: its bytes before the first NUL.\<close>

definition cstr :: "buf \<Rightarrow> string" where
  "cstr b = takeWhile (\<lambda>c. c \<noteq> NUL) b"

definition terminated :: "buf \<Rightarrow> bool" where
  "terminated b \<longleftrightarrow> NUL \<in> set b"

fun strlen :: "buf \<Rightarrow> nat option" where
  "strlen [] = None"
| "strlen (c # cs) = (if c = NUL then Some 0 else map_option Suc (strlen cs))"

text \<open>The sign of \<open>strcmp\<close> is that of the first difference, bytes read as \<open>unsigned char\<close>.\<close>

fun strcmp :: "buf \<Rightarrow> buf \<Rightarrow> int option" where
  "strcmp (a # as) (b # bs) =
     (if a \<noteq> b then Some (of_char a - of_char b)
      else if a = NUL then Some 0 else strcmp as bs)"
| "strcmp _ _ = None"

fun strncmp :: "buf \<Rightarrow> buf \<Rightarrow> nat \<Rightarrow> int option" where
  "strncmp _ _ 0 = Some 0"
| "strncmp (a # as) (b # bs) (Suc n) =
     (if a \<noteq> b then Some (of_char a - of_char b)
      else if a = NUL then Some 0 else strncmp as bs n)"
| "strncmp _ _ (Suc n) = None"

fun strchr :: "buf \<Rightarrow> char \<Rightarrow> nat option option" where
  "strchr [] x = None"
| "strchr (c # cs) x =
     (if c = x then Some (Some 0)
      else if c = NUL then Some None
      else map_option (map_option Suc) (strchr cs x))"

subsection \<open>Characters and numbers\<close>

definition isspace :: "char \<Rightarrow> bool" where
  "isspace c \<longleftrightarrow> c \<in> set [CHR '' '', CHR 0x09, CHR 0x0A, CHR 0x0B, CHR 0x0C, CHR 0x0D]"

definition isdigit :: "char \<Rightarrow> bool" where
  "isdigit c \<longleftrightarrow> 48 \<le> (of_char c :: int) \<and> (of_char c :: int) \<le> 57"

definition digit_val :: "char \<Rightarrow> int" where
  "digit_val c = of_char c - 48"

definition digits_val :: "string \<Rightarrow> int" where
  "digits_val ds = foldl (\<lambda>v c. 10 * v + digit_val c) 0 ds"

definition LONG_MAX :: int where
  "LONG_MAX = 2 ^ 63 - 1"

definition LONG_MIN :: int where
  "LONG_MIN = - (2 ^ 63)"

text \<open>
  \<^verbatim>\<open>strtol(b, &end, 10)\<close>: optional white space, an optional sign, digits; the value is
  clamped to the range of \<open>long\<close>, and with no digits the result is \<open>0\<close> with \<open>end\<close> at
  the start of the string. The second component is the offset of \<open>end\<close>.
\<close>

definition strtol10 :: "buf \<Rightarrow> (int \<times> nat) option" where
  "strtol10 b =
     (if terminated b then
        (let s = cstr b;
             ws = length (takeWhile isspace s);
             r = drop ws s;
             sgn = (case r of [] \<Rightarrow> 0 | c # _ \<Rightarrow> if c = CHR ''-'' \<or> c = CHR ''+'' then 1 else 0);
             neg = (sgn = 1 \<and> hd r = CHR ''-'');
             ds = takeWhile isdigit (drop sgn r);
             v = (if neg then - digits_val ds else digits_val ds)
         in if ds = [] then Some (0, 0)
            else Some (max LONG_MIN (min LONG_MAX v), ws + sgn + length ds))
      else None)"

text \<open>The \<^verbatim>\<open>%lu\<close> and \<^verbatim>\<open>%ld\<close> conversions, and \<^verbatim>\<open>snprintf\<close>'s truncation.\<close>

fun show_dec :: "nat \<Rightarrow> string" where
  "show_dec n = (if n < 10 then [char_of (48 + n)] else show_dec (n div 10) @ [char_of (48 + n mod 10)])"

declare show_dec.simps [simp del]

definition show_int :: "int \<Rightarrow> string" where
  "show_int i = (if i < 0 then CHR ''-'' # show_dec (nat (- i)) else show_dec (nat i))"

definition snprintf :: "nat \<Rightarrow> string \<Rightarrow> buf" where
  "snprintf cap s = (if cap = 0 then [] else take (cap - 1) s @ [NUL])"

section \<open>Facts\<close>

subsection \<open>Strings in buffers\<close>

lemma cstr_append [c_simps]: "NUL \<notin> set s \<Longrightarrow> cstr (s @ NUL # t) = s"
  by (simp add: cstr_def takeWhile_neq_append)

lemma cstr_append_NUL [c_simps]: "NUL \<notin> set s \<Longrightarrow> cstr (s @ [NUL]) = s"
  by (simp add: cstr_append)

lemma terminated_append [simp]: "terminated (s @ NUL # t)"
  by (simp add: terminated_def)

lemma NUL_not_in_cstr [simp]: "NUL \<notin> set (cstr b)"
  by (simp add: cstr_def)

lemma terminated_split:
  assumes "terminated b"
  obtains t where "b = cstr b @ NUL # t"
  using split_first [of NUL b] assms by (auto simp: terminated_def cstr_def)

lemma length_cstr_less: "terminated b \<Longrightarrow> length (cstr b) < length b"
  by (simp add: terminated_def cstr_def length_takeWhile_neq_less)

lemma cstr_eq_take: "cstr b = take (length (cstr b)) b"
  unfolding cstr_def by (rule takeWhile_eq_take)

lemma nth_length_cstr: "terminated b \<Longrightarrow> b ! length (cstr b) = NUL"
  by (metis nth_append_length terminated_split)

lemma take_cstr_NUL:
  assumes "terminated b"
  shows "take (Suc (length (cstr b))) b = cstr b @ [NUL]"
proof -
  obtain t where "b = cstr b @ NUL # t"
    using assms by (rule terminated_split)
  then have "take (Suc (length (cstr b))) b = take (Suc (length (cstr b))) (cstr b @ NUL # t)"
    by simp
  then show ?thesis by simp
qed

lemma cstr_drop:
  assumes "n \<le> length (cstr b)"
  shows "cstr (drop n b) = drop n (cstr b)"
  using assms
proof (induction n arbitrary: b)
  case (Suc n)
  then show ?case by (cases b) (auto simp: cstr_def split: if_splits)
qed simp

lemma terminated_drop:
  assumes "terminated b" and "n \<le> length (cstr b)"
  shows "terminated (drop n b)"
proof -
  obtain t where "b = cstr b @ NUL # t"
    using assms(1) by (rule terminated_split)
  then have "drop n b = drop n (cstr b) @ NUL # t"
    using assms(2) by (metis append_Nil2 diff_is_0_eq drop0 drop_append)
  then show ?thesis by simp
qed

lemma strlen_cstr [c_simps]: "terminated b \<Longrightarrow> strlen b = Some (length (cstr b))"
  by (induction b) (auto simp: terminated_def cstr_def)

lemma of_char_diff_eq_0 [simp]: "(of_char a - of_char b = (0 :: int)) \<longleftrightarrow> a = b"
  by simp

lemma strcmp_cstr:
  "terminated a \<Longrightarrow> terminated b \<Longrightarrow>
   \<exists>r. strcmp a b = Some r \<and> (r = 0 \<longleftrightarrow> cstr a = cstr b)"
  by (induction a b rule: strcmp.induct) (auto simp: terminated_def cstr_def)

lemma strncmp_cstr:
  "terminated b \<Longrightarrow> n \<le> length lit \<Longrightarrow> NUL \<notin> set lit \<Longrightarrow>
   \<exists>r. strncmp b lit n = Some r \<and> (r = 0 \<longleftrightarrow> take n (cstr b) = take n lit)"
proof (induction b lit n rule: strncmp.induct)
  case (2 a as b bs n)
  then show ?case
    by (cases "a = b") (auto simp: terminated_def cstr_def)
qed (auto simp: terminated_def)

lemma strchr_cstr [c_simps]:
  "terminated b \<Longrightarrow> x \<noteq> NUL \<Longrightarrow> strchr b x = Some (find_index (\<lambda>c. c = x) (cstr b))"
  by (induction b x rule: strchr.induct) (auto simp: terminated_def cstr_def)

lemma find_index_eq_split:
  "find_index (\<lambda>c. c = x) s = Some i \<longleftrightarrow> (i < length s \<and> s = take i s @ x # drop (Suc i) s \<and> x \<notin> set (take i s))"
proof (induction s arbitrary: i)
  case (Cons c s)
  show ?case
  proof (cases i)
    case (Suc k)
    then show ?thesis using Cons.IH by auto
  qed auto
qed simp

lemma find_index_append_first [c_simps]:
  "x \<notin> set s \<Longrightarrow> find_index (\<lambda>c. c = x) (s @ x # t) = Some (length s)"
  by (simp add: find_index_eq_split)

lemma find_index_eq_None: "find_index (\<lambda>c. c = x) s = None \<longleftrightarrow> x \<notin> set s"
  by (auto simp: find_index_None)

subsection \<open>Copies\<close>

lemma memcpy_Some_length:
  "memcpy cap dst off src n = Some b \<Longrightarrow> length b = max (length dst) (off + n)"
  by (auto simp: memcpy_def)

lemma memcpy_whole [c_simps]:
  "length dst = cap \<Longrightarrow> n \<le> length src \<Longrightarrow> n \<le> cap \<Longrightarrow>
   memcpy cap dst 0 src n = Some (take n src @ drop n dst)"
  by (simp add: memcpy_def)

lemma memcpy_fresh [c_simps]:
  "n \<le> length src \<Longrightarrow> n \<le> cap \<Longrightarrow> memcpy cap [] 0 src n = Some (take n src)"
  by (simp add: memcpy_def)

lemma memcpy_append [c_simps]:
  "off = length dst \<Longrightarrow> n \<le> length src \<Longrightarrow> off + n \<le> cap \<Longrightarrow>
   memcpy cap dst off src n = Some (dst @ take n src)"
  by (simp add: memcpy_def)

lemma write_at_append [c_simps]:
  "off = length dst \<Longrightarrow> off < cap \<Longrightarrow> write_at cap dst off c = Some (dst @ [c])"
  by (simp add: write_at_def memcpy_def)

lemma write_at_update [c_simps]:
  "off < length dst \<Longrightarrow> off < cap \<Longrightarrow> write_at cap dst off c = Some (dst[off := c])"
  by (simp add: write_at_def memcpy_def upd_conv_take_nth_drop)

lemma read_at_less [c_simps]: "i < length b \<Longrightarrow> read_at b i = Some (b ! i)"
  by (simp add: read_at_def)

lemma memchr_in [c_simps]:
  "off + n \<le> length b \<Longrightarrow>
   memchr b off c n = Some (map_option (\<lambda>k. off + k) (find_index (\<lambda>x. x = c) (take n (drop off b))))"
  by (simp add: memchr_def)

subsection \<open>Decimal numbers\<close>

lemma digits_val_snoc [simp]: "digits_val (ds @ [d]) = 10 * digits_val ds + digit_val d"
  by (simp add: digits_val_def)

lemma digits_val_Nil [simp]: "digits_val [] = 0"
  by (simp add: digits_val_def)

lemma digit_val_bounds: "isdigit c \<Longrightarrow> 0 \<le> digit_val c \<and> digit_val c \<le> 9"
  by (simp add: isdigit_def digit_val_def)

lemma digits_val_bounds:
  "\<forall>c\<in>set ds. isdigit c \<Longrightarrow> 0 \<le> digits_val ds \<and> digits_val ds < 10 ^ length ds"
proof (induction ds rule: rev_induct)
  case (snoc d ds)
  then have "0 \<le> digits_val ds" "digits_val ds < 10 ^ length ds" "0 \<le> digit_val d" "digit_val d \<le> 9"
    using digit_val_bounds by auto
  then show ?case by simp
qed simp

lemma isdigit_not_isspace: "isdigit c \<Longrightarrow> \<not> isspace c"
  by (auto simp: isdigit_def isspace_def)

lemma isdigit_not_sign: "isdigit c \<Longrightarrow> c \<noteq> CHR ''-'' \<and> c \<noteq> CHR ''+'' \<and> c \<noteq> NUL \<and> c \<noteq> CHR '' ''"
  by (auto simp: isdigit_def)

lemma strtol10_digits:
  assumes "ds \<noteq> []" and digits: "\<forall>c\<in>set ds. isdigit c" and "length ds \<le> 18"
  shows "strtol10 (ds @ [NUL]) = Some (digits_val ds, length ds)"
proof -
  have NUL: "NUL \<notin> set ds"
    using digits isdigit_not_sign by blast
  obtain d r where ds: "ds = d # r"
    using assms(1) by (cases ds) auto
  have d: "\<not> isspace d" "d \<noteq> CHR ''-''" "d \<noteq> CHR ''+''"
    using digits ds isdigit_not_isspace isdigit_not_sign by auto
  have "(10::int) ^ length ds \<le> 10 ^ 18"
    using assms(3) by (intro power_increasing) auto
  then have "digits_val ds \<le> LONG_MAX" "LONG_MIN \<le> digits_val ds"
    using digits_val_bounds [OF digits] by (auto simp: LONG_MAX_def LONG_MIN_def)
  moreover have all: "takeWhile isdigit r = r"
    using digits ds by simp
  ultimately show ?thesis
    using d digits cstr_append_NUL [OF NUL]
    by (simp add: strtol10_def Let_def ds all terminated_def)
qed

lemma of_char_char_of_nat: "k < 256 \<Longrightarrow> (of_char (char_of k) :: int) = int k"
  using of_nat_of_char [of "char_of k", where ?'a = int] by simp

lemma isdigit_char_of: "n < 10 \<Longrightarrow> isdigit (char_of (48 + n :: nat))"
  by (simp add: isdigit_def of_char_char_of_nat)

lemma digit_val_char_of: "n < 10 \<Longrightarrow> digit_val (char_of (48 + n :: nat)) = int n"
  by (simp add: digit_val_def of_char_char_of_nat)

lemma show_dec_digits: "show_dec n \<noteq> [] \<and> (\<forall>c\<in>set (show_dec n). isdigit c) \<and> digits_val (show_dec n) = int n"
proof (induction n rule: show_dec.induct)
  case (1 n)
  show ?case
  proof (cases "n < 10")
    case True
    then show ?thesis
      using digits_val_snoc [of "[]" "char_of (48 + n)"]
      by (simp add: show_dec.simps [of n] isdigit_char_of digit_val_char_of)
  next
    case False
    moreover have "10 * int (n div 10) + int (n mod 10) = int n"
      by presburger
    ultimately show ?thesis using 1
      by (auto simp: show_dec.simps [of n] isdigit_char_of digit_val_char_of)
  qed
qed

lemma length_show_dec: "n < 10 ^ k \<Longrightarrow> 0 < k \<Longrightarrow> length (show_dec n) \<le> k"
proof (induction n arbitrary: k rule: show_dec.induct)
  case (1 n)
  show ?case
  proof (cases "n < 10")
    case True
    then show ?thesis using 1(3) by (simp add: show_dec.simps [of n])
  next
    case False
    then obtain j where k: "k = Suc j" and j: "0 < j"
      using 1(2,3) by (cases k; cases "k - 1") auto
    then have "n div 10 < 10 ^ j"
      using 1(2) by (simp add: less_mult_imp_div_less mult.commute)
    with False j k 1(1) show ?thesis
      by (simp add: show_dec.simps [of n])
  qed
qed

lemma show_dec_no_NUL [simp]: "NUL \<notin> set (show_dec n)"
  using show_dec_digits [of n] isdigit_not_sign by blast

text \<open>Printing a number and parsing it back.\<close>

lemma strtol10_show_dec:
  "n < 10 ^ 18 \<Longrightarrow> strtol10 (show_dec n @ [NUL]) = Some (int n, length (show_dec n))"
  using strtol10_digits [of "show_dec n"] show_dec_digits [of n] length_show_dec [of n 18] by simp

end
