(* ===== verification/Cache_Net.thy ===== *)
theory Cache_Net
  imports C_Lib
begin

text \<open>
  Socket output of the cache (\<open>send_all\<close>, \<open>send_reply\<close>) and the kernel's side of one
  connection: the answers \<open>send\<close> and \<open>clock_gettime\<close> will give, and the bytes the kernel has
  accepted so far; the answers of \<open>recv\<close> are an argument of the reading loop. A \<open>send\<close> of \<open>r\<close> bytes answered by \<open>Sent n\<close>
  returns \<open>min n r\<close>: the kernel never accepts more than it was offered.
\<close>

datatype send_answer = Sent nat | Send_error errno
datatype recv_answer = Received bytes | Recv_error errno

record timespec =
  tv_sec :: int
  tv_nsec :: int

record io =
  tx :: "send_answer list"
  clk :: "timespec list"
  out :: bytes

text \<open>The \<open>while\<close> loop of \<open>send_all\<close>: answers left, bytes sent, the returned value.\<close>

fun send_loop :: "send_answer list \<Rightarrow> nat \<Rightarrow> nat \<Rightarrow> send_answer list \<times> nat \<times> int run" where
  "send_loop [] len sent = (if sent < len then ([], sent, Blocked) else ([], sent, Returned 0))"
| "send_loop (a # as) len sent =
     (if sent < len then
        (case a of
           Send_error e \<Rightarrow> if e = EINTR then send_loop as len sent else (as, sent, Returned (- 1))
         | Sent k \<Rightarrow>
             (let n = min k (len - sent)
              in if n = 0 then (as, sent, Returned (- 1)) else send_loop as len (sent + n)))
      else (a # as, sent, Returned 0))"

definition send_all :: "io \<Rightarrow> buf \<Rightarrow> nat \<Rightarrow> (io \<times> int run) option" where
  "send_all w b len =
     (if len \<le> length b then
        (let (as, sent, r) = send_loop (tx w) len 0
         in Some (w\<lparr>tx := as, out := out w @ take sent b\<rparr>, r))
      else None)"

text \<open>
  \<open>send_reply\<close> after \<open>vsnprintf\<close>: \<open>text\<close> is the formatted reply and \<open>cap\<close> the size of
  the local buffer, \<^verbatim>\<open>VALUE_MAX + 32\<close> in the code.
\<close>

definition send_text :: "nat \<Rightarrow> io \<Rightarrow> string \<Rightarrow> (io \<times> int run) option" where
  "send_text cap w text =
     (let b = snprintf cap text; n = length text
      in if n \<ge> cap then send_all w (''ERROR'' @ [LF]) 6 else send_all w b n)"

section \<open>Facts\<close>

lemma send_loop_sent:
  "send_loop as len sent = (as', sent', r) \<Longrightarrow> sent \<le> len \<Longrightarrow>
   sent \<le> sent' \<and> sent' \<le> len \<and> (r = Returned 0 \<longleftrightarrow> sent' = len) \<and> (r \<noteq> Blocked \<longrightarrow> r \<in> {Returned 0, Returned (- 1)})"
proof (induction as len sent arbitrary: as' sent' r rule: send_loop.induct)
  case (2 a as len sent)
  show ?case
  proof (cases "sent < len")
    case True
    show ?thesis
    proof (cases a)
      case (Sent k)
      then show ?thesis
        using "2.IH"(1) [OF True Sent refl] "2.prems" True by (fastforce simp: Let_def split: if_splits)
    next
      case (Send_error e)
      then show ?thesis
        using "2.IH"(2) [OF True Send_error] "2.prems" True by (auto split: if_splits)
    qed
  qed (use "2.prems" in auto)
qed (auto split: if_splits)

text \<open>What reaches the peer: the whole buffer exactly when the call returns \<open>0\<close>, else a proper prefix.\<close>

lemma send_all_spec:
  assumes "len \<le> length b"
  obtains as sent r where "send_all w b len = Some (w\<lparr>tx := as, out := out w @ take sent b\<rparr>, r)"
    and "sent \<le> len" and "r = Returned 0 \<longleftrightarrow> sent = len"
    and "r = Returned 0 \<or> r = Returned (- 1) \<or> r = Blocked"
proof -
  obtain as sent r where *: "send_loop (tx w) len 0 = (as, sent, r)"
    by (cases "send_loop (tx w) len 0")
  then show thesis
    using that [where as = as and sent = sent and r = r] send_loop_sent [OF *] assms by (auto simp: send_all_def)
qed

text \<open>Enough positive answers complete the transfer, whatever interruptions come between them.\<close>

definition progress :: "send_answer \<Rightarrow> bool" where
  "progress a \<longleftrightarrow> (\<exists>n. a = Sent (Suc n))"

lemma send_loop_completes:
  assumes "\<forall>a\<in>set as. progress a \<or> a = Send_error EINTR"
    and "len - sent \<le> length (filter progress as)" and "sent \<le> len"
  shows "\<exists>as'. send_loop as len sent = (as', len, Returned 0) \<and> set as' \<subseteq> set as \<and>
    length (filter progress as) \<le> length (filter progress as') + (len - sent)"
  using assms
proof (induction as arbitrary: sent)
  case (Cons a as)
  show ?case
  proof (cases "sent < len \<and> progress a")
    case True
    then obtain n where n: "a = Sent (Suc n)" by (auto simp: progress_def)
    let ?n = "min (Suc n) (len - sent)"
    have le: "len - (sent + ?n) \<le> length (filter progress as)" "sent + ?n \<le> len" "0 < ?n"
      using Cons.prems(2,3) True by auto
    then obtain as' where as': "send_loop as len (sent + ?n) = (as', len, Returned 0)" "set as' \<subseteq> set as"
      "length (filter progress as) \<le> length (filter progress as') + (len - (sent + ?n))"
      using Cons.IH [of "sent + ?n"] Cons.prems(1) by auto
    have "send_loop (a # as) len sent = (as', len, Returned 0)"
      using as'(1) True n le(3) by (simp add: Let_def)
    moreover have "length (filter progress (a # as)) \<le> length (filter progress as') + (len - sent)"
      using as'(3) True le(2,3) by simp
    ultimately show ?thesis using as'(2) by auto
  next
    case False
    then show ?thesis
      using Cons.prems Cons.IH [of sent] by (cases "sent < len") (auto simp: progress_def)
  qed
qed auto

text \<open>A socket that takes everything at once.\<close>

lemma send_loop_at_once:
  "0 < len \<Longrightarrow> len \<le> n \<Longrightarrow> send_loop (Sent n # as) len 0 = (as, len, Returned 0)"
  by (cases as) (auto simp: Let_def min_def)

end
