(* ===== verification/Cache_Interface.thy ===== *)
theory Cache_Interface
  imports Prelude
begin

text \<open>
  What a cache with expiring entries promises, independent of how it stores them.

  The abstract machine keeps a map from keys to a value and an optional expiry time, and
  never removes anything on its own: a key is live until its expiry. The locale
  \<open>ttl_cache\<close> states the laws an implementation's operations obey on its own states;
  inside it the implementation is shown to give, for every sequence of commands at
  non-decreasing times, the replies of the abstract machine. The interpretation for the
  C cache is in \<open>Cache_Store\<close>.
\<close>

section \<open>The abstract machine\<close>

datatype ('k, 'v) cmd = Get 'k | Delete 'k | Set 'k int 'v

datatype 'v reply = Value 'v | Not_Found | Stored | Deleted | Full

type_synonym ('k, 'v) amap = "'k \<rightharpoonup> 'v \<times> int option"

definition live :: "('k, 'v) amap \<Rightarrow> int \<Rightarrow> 'k \<Rightarrow> 'v option" where
  "live m t k =
     (case m k of
        None \<Rightarrow> None
      | Some (v, None) \<Rightarrow> Some v
      | Some (v, Some x) \<Rightarrow> if x \<le> t then None else Some v)"

definition expiry :: "int \<Rightarrow> int \<Rightarrow> int option" where
  "expiry t ttl = (if ttl = 0 then None else Some (t + ttl * 1000))"

fun spec_step :: "nat \<Rightarrow> int \<Rightarrow> ('k, 'v) cmd \<Rightarrow> ('k, 'v) amap \<Rightarrow> ('k, 'v) amap \<times> 'v reply" where
  "spec_step cap t (Get k) m =
     (m, case live m t k of None \<Rightarrow> Not_Found | Some v \<Rightarrow> Value v)"
| "spec_step cap t (Delete k) m =
     (m(k := None), if live m t k = None then Not_Found else Deleted)"
| "spec_step cap t (Set k ttl v) m =
     (if live m t k \<noteq> None \<or> card (dom (live m t)) < cap
      then (m(k \<mapsto> (v, expiry t ttl)), Stored) else (m, Full))"

fun spec_run :: "nat \<Rightarrow> (int \<times> ('k, 'v) cmd) list \<Rightarrow> ('k, 'v) amap \<Rightarrow> ('k, 'v) amap \<times> 'v reply list" where
  "spec_run cap [] m = (m, [])"
| "spec_run cap ((t, c) # cs) m =
     (let (m1, r) = spec_step cap t c m; (m2, rs) = spec_run cap cs m1 in (m2, r # rs))"

text \<open>The key a command may change.\<close>

fun writes :: "('k, 'v) cmd \<Rightarrow> 'k option" where
  "writes (Get k) = None"
| "writes (Delete k) = Some k"
| "writes (Set k ttl v) = Some k"

lemma spec_step_frame: "writes c \<noteq> Some k \<Longrightarrow> fst (spec_step cap t c m) k = m k"
  by (cases c) auto

lemma spec_run_frame:
  "\<forall>(t, c)\<in>set cs. writes c \<noteq> Some k \<Longrightarrow> fst (spec_run cap cs m) k = m k"
proof (induction cs arbitrary: m)
  case (Cons tc cs)
  obtain t c where tc: "tc = (t, c)" by (cases tc)
  have "fst (spec_run cap (tc # cs) m) = fst (spec_run cap cs (fst (spec_step cap t c m)))"
    by (simp add: tc split: prod.split)
  then show ?case using Cons tc by (simp add: spec_step_frame)
qed simp

lemma spec_run_append:
  "spec_run cap (cs @ ds) m =
     (let (m1, rs) = spec_run cap cs m; (m2, ss) = spec_run cap ds m1 in (m2, rs @ ss))"
  by (induction cs arbitrary: m) (auto split: prod.splits)

lemma live_antitone: "live m u k = Some v \<Longrightarrow> t \<le> u \<Longrightarrow> live m t k = Some v"
  by (auto simp: live_def split: option.splits if_splits)

lemma live_upd: "live (m(k \<mapsto> (v, expiry t ttl))) u =
  (live m u)(k := if ttl \<noteq> 0 \<and> t + ttl * 1000 \<le> u then None else Some v)"
  by (auto simp: live_def expiry_def)

lemma live_del: "live (m(k := None)) u = (live m u)(k := None)"
  by (auto simp: live_def)

section \<open>Implementations\<close>

text \<open>One command, and a sequence of commands, over the operations of an implementation.\<close>

fun exec_cmd ::
  "(int \<Rightarrow> 'k \<Rightarrow> 's \<Rightarrow> ('s \<times> 'v option) option) \<Rightarrow>
   (int \<Rightarrow> 'k \<Rightarrow> 's \<Rightarrow> ('s \<times> bool) option) \<Rightarrow>
   (int \<Rightarrow> 'k \<Rightarrow> int \<Rightarrow> 'v \<Rightarrow> 's \<Rightarrow> ('s \<times> bool) option) \<Rightarrow>
   int \<Rightarrow> ('k, 'v) cmd \<Rightarrow> 's \<Rightarrow> ('s \<times> 'v reply) option" where
  "exec_cmd get_op del_op set_op t (Get k) s = do {
     (s', r) \<leftarrow> get_op t k s;
     Some (s', case r of None \<Rightarrow> Not_Found | Some v \<Rightarrow> Value v) }"
| "exec_cmd get_op del_op set_op t (Delete k) s = do {
     (s', r) \<leftarrow> del_op t k s;
     Some (s', if r then Deleted else Not_Found) }"
| "exec_cmd get_op del_op set_op t (Set k ttl v) s = do {
     (s', r) \<leftarrow> set_op t k ttl v s;
     Some (s', if r then Stored else Full) }"

fun exec_run ::
  "(int \<Rightarrow> 'k \<Rightarrow> 's \<Rightarrow> ('s \<times> 'v option) option) \<Rightarrow>
   (int \<Rightarrow> 'k \<Rightarrow> 's \<Rightarrow> ('s \<times> bool) option) \<Rightarrow>
   (int \<Rightarrow> 'k \<Rightarrow> int \<Rightarrow> 'v \<Rightarrow> 's \<Rightarrow> ('s \<times> bool) option) \<Rightarrow>
   (int \<times> ('k, 'v) cmd) list \<Rightarrow> 's \<Rightarrow> ('s \<times> 'v reply list) option" where
  "exec_run get_op del_op set_op [] s = Some (s, [])"
| "exec_run get_op del_op set_op ((t, c) # cs) s = do {
     (s1, r) \<leftarrow> exec_cmd get_op del_op set_op t c s;
     (s2, rs) \<leftarrow> exec_run get_op del_op set_op cs s1;
     Some (s2, r # rs) }"

text \<open>Commands with valid arguments.\<close>

fun cmd_ok :: "('k \<Rightarrow> bool) \<Rightarrow> (int \<Rightarrow> bool) \<Rightarrow> ('v \<Rightarrow> bool) \<Rightarrow> ('k, 'v) cmd \<Rightarrow> bool" where
  "cmd_ok kok tok vok (Get k) = kok k"
| "cmd_ok kok tok vok (Delete k) = kok k"
| "cmd_ok kok tok vok (Set k ttl v) = (kok k \<and> tok ttl \<and> vok v)"

locale ttl_cache =
  fixes inv :: "'s \<Rightarrow> bool"
    and view :: "'s \<Rightarrow> int \<Rightarrow> 'k \<Rightarrow> 'v option"
    and get_op :: "int \<Rightarrow> 'k \<Rightarrow> 's \<Rightarrow> ('s \<times> 'v option) option"
    and del_op :: "int \<Rightarrow> 'k \<Rightarrow> 's \<Rightarrow> ('s \<times> bool) option"
    and set_op :: "int \<Rightarrow> 'k \<Rightarrow> int \<Rightarrow> 'v \<Rightarrow> 's \<Rightarrow> ('s \<times> bool) option"
    and kok :: "'k \<Rightarrow> bool"
    and tok :: "int \<Rightarrow> bool"
    and vok :: "'v \<Rightarrow> bool"
    and now_ok :: "int \<Rightarrow> bool"
    and cap :: nat
  assumes get_law: "inv s \<Longrightarrow> kok k \<Longrightarrow>
      \<exists>s'. get_op t k s = Some (s', view s t k) \<and> inv s' \<and> (\<forall>u\<ge>t. view s' u = view s u)"
    and del_law: "inv s \<Longrightarrow> kok k \<Longrightarrow>
      \<exists>s'. del_op t k s = Some (s', view s t k \<noteq> None) \<and> inv s' \<and>
        (\<forall>u\<ge>t. view s' u = (view s u)(k := None))"
    and set_law: "inv s \<Longrightarrow> kok k \<Longrightarrow> tok ttl \<Longrightarrow> vok v \<Longrightarrow> now_ok t \<Longrightarrow>
      \<exists>s' ok. set_op t k ttl v s = Some (s', ok) \<and> inv s' \<and>
        (ok \<longleftrightarrow> view s t k \<noteq> None \<or> card (dom (view s t)) < cap) \<and>
        (\<forall>u\<ge>t. view s' u =
          (if ok then (view s u)(k := if ttl \<noteq> 0 \<and> t + ttl * 1000 \<le> u then None else Some v)
           else view s u))"
begin

text \<open>The simulation relation at time \<open>t\<close>, and that it survives the passing of time.\<close>

definition refines :: "int \<Rightarrow> 's \<Rightarrow> ('k, 'v) amap \<Rightarrow> bool" where
  "refines t s m \<longleftrightarrow> inv s \<and> (\<forall>u\<ge>t. view s u = live m u)"

lemma refines_later: "refines t s m \<Longrightarrow> t \<le> u \<Longrightarrow> refines u s m"
  by (simp add: refines_def)

lemma step_refines:
  assumes R: "refines t s m" and ok: "cmd_ok kok tok vok c" and t: "now_ok t"
  shows "\<exists>s'. exec_cmd get_op del_op set_op t c s = Some (s', snd (spec_step cap t c m)) \<and>
    refines t s' (fst (spec_step cap t c m))"
proof -
  have inv: "inv s" and vw: "\<And>u. t \<le> u \<Longrightarrow> view s u = live m u"
    using R by (auto simp: refines_def)
  show ?thesis
  proof (cases c)
    case (Get k)
    then obtain s' where "get_op t k s = Some (s', view s t k)" "inv s'" "\<forall>u\<ge>t. view s' u = view s u"
      using get_law [OF inv, of k t] ok by auto
    then show ?thesis using Get vw by (simp add: refines_def)
  next
    case (Delete k)
    then obtain s' where "del_op t k s = Some (s', view s t k \<noteq> None)" "inv s'"
      "\<forall>u\<ge>t. view s' u = (view s u)(k := None)"
      using del_law [OF inv, of k t] ok by auto
    then show ?thesis using Delete vw by (simp add: refines_def live_del)
  next
    case (Set k ttl v)
    then obtain s' b where "set_op t k ttl v s = Some (s', b)" "inv s'"
      "b \<longleftrightarrow> view s t k \<noteq> None \<or> card (dom (view s t)) < cap"
      "\<forall>u\<ge>t. view s' u =
        (if b then (view s u)(k := if ttl \<noteq> 0 \<and> t + ttl * 1000 \<le> u then None else Some v) else view s u)"
      using set_law [OF inv, of k ttl v t] ok t by auto
    then show ?thesis using Set vw by (simp add: refines_def live_upd)
  qed
qed

lemma run_refines:
  assumes "refines t s m" and "sorted (t # map fst cs)"
    and "\<forall>(u, c)\<in>set cs. now_ok u \<and> cmd_ok kok tok vok c"
  shows "\<exists>s'. exec_run get_op del_op set_op cs s = Some (s', snd (spec_run cap cs m)) \<and>
    refines (last (t # map fst cs)) s' (fst (spec_run cap cs m))"
  using assms
proof (induction cs arbitrary: t s m)
  case (Cons tc cs)
  obtain u c where tc: "tc = (u, c)" by (cases tc)
  have "refines u s m" using Cons.prems(1,2) refines_later tc by simp
  then obtain s1 where s1: "exec_cmd get_op del_op set_op u c s = Some (s1, snd (spec_step cap u c m))"
    "refines u s1 (fst (spec_step cap u c m))"
    using step_refines Cons.prems(3) tc by fastforce
  moreover obtain s2 where
    "exec_run get_op del_op set_op cs s1 = Some (s2, snd (spec_run cap cs (fst (spec_step cap u c m))))"
    "refines (last (u # map fst cs)) s2 (fst (spec_run cap cs (fst (spec_step cap u c m))))"
    using Cons.IH [OF s1(2)] Cons.prems(2,3) tc by auto
  ultimately show ?case by (auto simp: tc split: prod.split)
qed simp

text \<open>
  The round trip: after a successful SET, whatever commands on other keys follow, a GET
  returns the value until the time-to-live has passed and nothing afterwards.
\<close>

lemma set_roundtrip:
  assumes R: "refines t s m" and set: "snd (spec_step cap t (Set k ttl v) m) = Stored"
    and sorted: "sorted (t # map fst cs @ [u])"
    and ok: "kok k" "tok ttl" "vok v" "now_ok t" "now_ok u"
      "\<forall>(x, c)\<in>set cs. now_ok x \<and> cmd_ok kok tok vok c"
    and frame: "\<forall>(x, c)\<in>set cs. writes c \<noteq> Some k"
  shows "\<exists>s' rs. exec_run get_op del_op set_op ((t, Set k ttl v) # cs @ [(u, Get k)]) s =
    Some (s', Stored # rs @ [if ttl \<noteq> 0 \<and> t + ttl * 1000 \<le> u then Not_Found else Value v])"
proof -
  let ?m = "m(k \<mapsto> (v, expiry t ttl))"
  have step: "spec_step cap t (Set k ttl v) m = (?m, Stored)"
    using set by (auto split: if_splits)
  obtain m2 rs where run: "spec_run cap cs ?m = (m2, rs)" by (cases "spec_run cap cs ?m")
  have "m2 k = Some (v, expiry t ttl)"
    using spec_run_frame [OF frame, of cap ?m] run by simp
  then have "live m2 u k = (if ttl \<noteq> 0 \<and> t + ttl * 1000 \<le> u then None else Some v)"
    by (auto simp: live_def expiry_def)
  then have "snd (spec_run cap ((t, Set k ttl v) # cs @ [(u, Get k)]) m) =
    Stored # rs @ [if ttl \<noteq> 0 \<and> t + ttl * 1000 \<le> u then Not_Found else Value v]"
    by (simp add: step spec_run_append run del: spec_step.simps(3))
  moreover have "\<exists>s'. exec_run get_op del_op set_op ((t, Set k ttl v) # cs @ [(u, Get k)]) s =
    Some (s', snd (spec_run cap ((t, Set k ttl v) # cs @ [(u, Get k)]) m))"
    using run_refines [OF R, of "(t, Set k ttl v) # cs @ [(u, Get k)]"] sorted ok by auto
  ultimately show ?thesis by auto
qed

end

end
