(* ===== verification/Cache_Store.thy ===== *)
theory Cache_Store
  imports Cache_Net Cache_Interface
begin

text \<open>
  The store of the in-memory cache (\<^verbatim>\<open>in-mem-cache/server.c\<close>): the fixed array of entries,
  \<open>lookup\<close> with its lazy expiry, \<open>free_slot\<close>, and the three critical sections that
  \<open>handle_line\<close> runs under \<open>store_mutex\<close>. The store is an explicit state: every
  operation takes the array and returns it.

  \<open>view st t\<close> is what a client can see of the store at time \<open>t\<close>: the map from keys
  to values that have not expired. The lemmas show that each critical section implements
  the corresponding operation on that map.
\<close>

definition KEY_MAX :: nat where "KEY_MAX = 256"
definition VALUE_MAX :: nat where "VALUE_MAX = 4096"
definition STORE_CAP :: nat where "STORE_CAP = 1024"
definition TTL_MAX :: int where "TTL_MAX = 86400"

record entry =
  used :: int
  e_key :: buf
  e_value :: buf
  vlen :: nat
  expires_at_ms :: int
  has_expiry :: int

type_synonym store = "entry list"

text \<open>Static storage is zeroed: no entry is used.\<close>

definition zero_entry :: entry where
  "zero_entry = \<lparr>used = 0, e_key = replicate (KEY_MAX + 1) NUL,
     e_value = replicate (VALUE_MAX + 1) NUL, vlen = 0, expires_at_ms = 0, has_expiry = 0\<rparr>"

definition initial_store :: store where
  "initial_store = replicate STORE_CAP zero_entry"

subsection \<open>The clock\<close>

text \<open>Signed arithmetic at 64 bits (\<open>long long\<close>): out of range is undefined behaviour.\<close>

definition in_ll :: "int \<Rightarrow> int option" where
  "in_ll x = (if LONG_MIN \<le> x \<and> x \<le> LONG_MAX then Some x else None)"

definition now_ms :: "timespec \<Rightarrow> int option" where
  "now_ms ts = do {
     s \<leftarrow> in_ll (tv_sec ts * 1000);
     in_ll (s + sgn (tv_nsec ts) * (\<bar>tv_nsec ts\<bar> div 1000000))
   }"

subsection \<open>Searching the array\<close>

text \<open>The two \<open>for\<close> loops, by their index.\<close>

function lookup_from :: "store \<Rightarrow> buf \<Rightarrow> int \<Rightarrow> nat \<Rightarrow> (store \<times> int) option" where
  "lookup_from st key now i =
     (if i < STORE_CAP then do {
        e \<leftarrow> read_at st i;
        matches \<leftarrow> (if used e \<noteq> 0 then map_option (\<lambda>r. r = 0) (strcmp (e_key e) key)
                    else Some False);
        if matches then
          (if has_expiry e \<noteq> 0 \<and> now \<ge> expires_at_ms e
           then Some (st[i := e\<lparr>used := 0\<rparr>], - 1)
           else Some (st, int i))
        else lookup_from st key now (Suc i)
      } else Some (st, - 1))"
  by pat_completeness auto
termination
  by (relation "measure (\<lambda>(st, key, now, i). STORE_CAP - i)") auto

definition lookup :: "store \<Rightarrow> buf \<Rightarrow> int \<Rightarrow> (store \<times> int) option" where
  "lookup st key now = lookup_from st key now 0"

function free_slot_from :: "store \<Rightarrow> int \<Rightarrow> nat \<Rightarrow> (store \<times> int) option" where
  "free_slot_from st now i =
     (if i < STORE_CAP then do {
        e \<leftarrow> read_at st i;
        if used e = 0 \<or> (has_expiry e \<noteq> 0 \<and> now \<ge> expires_at_ms e)
        then Some (st[i := e\<lparr>used := 0\<rparr>], int i)
        else free_slot_from st now (Suc i)
      } else Some (st, - 1))"
  by pat_completeness auto
termination
  by (relation "measure (\<lambda>(st, now, i). STORE_CAP - i)") auto

definition free_slot :: "store \<Rightarrow> int \<Rightarrow> (store \<times> int) option" where
  "free_slot st now = free_slot_from st now 0"

declare lookup_from.simps [simp del] free_slot_from.simps [simp del]

subsection \<open>The critical sections of \<open>handle_line\<close>\<close>

text \<open>GET: look the key up and copy the value out, NUL included. \<open>None\<close> is a miss.\<close>

definition get_section :: "int \<Rightarrow> buf \<Rightarrow> store \<Rightarrow> (store \<times> buf option) option" where
  "get_section now key st = do {
     (st', idx) \<leftarrow> lookup st key now;
     if idx < 0 then Some (st', None)
     else do {
       e \<leftarrow> read_at st' (nat idx);
       value \<leftarrow> memcpy (VALUE_MAX + 1) [] 0 (e_value e) (vlen e + 1);
       Some (st', Some value)
     }
   }"

text \<open>DELETE: the Boolean says whether the key was there.\<close>

definition delete_section :: "int \<Rightarrow> buf \<Rightarrow> store \<Rightarrow> (store \<times> bool) option" where
  "delete_section now key st = do {
     (st', idx) \<leftarrow> lookup st key now;
     if idx < 0 then Some (st', False)
     else do {
       e \<leftarrow> read_at st' (nat idx);
       Some (st'[nat idx := e\<lparr>used := 0\<rparr>], True)
     }
   }"

text \<open>The assignments to \<open>store[idx]\<close>.\<close>

definition fill_entry :: "int \<Rightarrow> buf \<Rightarrow> nat \<Rightarrow> int \<Rightarrow> buf \<Rightarrow> nat \<Rightarrow> entry \<Rightarrow> entry option" where
  "fill_entry now key klen ttl value vl e = do {
     k \<leftarrow> memcpy (KEY_MAX + 1) (e_key e) 0 key (klen + 1);
     v \<leftarrow> memcpy (VALUE_MAX + 1) (e_value e) 0 value (vl + 1);
     let e1 = e\<lparr>e_key := k, e_value := v, vlen := vl, used := 1\<rparr>;
     if ttl = 0 then Some (e1\<lparr>has_expiry := 0\<rparr>)
     else do {
       d \<leftarrow> in_ll (ttl * 1000);
       t \<leftarrow> in_ll (now + d);
       Some (e1\<lparr>has_expiry := 1, expires_at_ms := t\<rparr>)
     }
   }"

text \<open>SET: overwrite the key's slot or take a free one; \<open>False\<close> when there is none.\<close>

definition set_section :: "int \<Rightarrow> buf \<Rightarrow> nat \<Rightarrow> int \<Rightarrow> buf \<Rightarrow> nat \<Rightarrow> store \<Rightarrow> (store \<times> bool) option" where
  "set_section now key klen ttl value vl st = do {
     (st1, idx0) \<leftarrow> lookup st key now;
     (st2, idx) \<leftarrow> (if idx0 < 0 then free_slot st1 now else Some (st1, idx0));
     if idx < 0 then Some (st2, False)
     else do {
       e \<leftarrow> read_at st2 (nat idx);
       e' \<leftarrow> fill_entry now key klen ttl value vl e;
       Some (st2[nat idx := e'], True)
     }
   }"

section \<open>Specification\<close>

definition expired :: "int \<Rightarrow> entry \<Rightarrow> bool" where
  "expired t e \<longleftrightarrow> has_expiry e \<noteq> 0 \<and> t \<ge> expires_at_ms e"

text \<open>A slot \<open>free_slot\<close> may take.\<close>

definition reusable :: "int \<Rightarrow> entry \<Rightarrow> bool" where
  "reusable now e \<longleftrightarrow> used e = 0 \<or> expired now e"

definition key_ok :: "string \<Rightarrow> bool" where
  "key_ok k \<longleftrightarrow> k \<noteq> [] \<and> length k \<le> KEY_MAX \<and> NUL \<notin> set k \<and> (\<forall>c\<in>set k. \<not> isspace c)"

definition value_ok :: "string \<Rightarrow> bool" where
  "value_ok v \<longleftrightarrow> v \<noteq> [] \<and> length v \<le> VALUE_MAX \<and> NUL \<notin> set v \<and> LF \<notin> set v"

definition ttl_ok :: "int \<Rightarrow> bool" where
  "ttl_ok ttl \<longleftrightarrow> 0 \<le> ttl \<and> ttl \<le> TTL_MAX"

text \<open>Times for which no expiry computed from them overflows.\<close>

definition time_ok :: "int \<Rightarrow> bool" where
  "time_ok t \<longleftrightarrow> 0 \<le> t \<and> t + TTL_MAX * 1000 \<le> LONG_MAX"

text \<open>The documented range of \<open>CLOCK_MONOTONIC\<close>, for less than 285 million years of uptime.\<close>

definition clock_ok :: "timespec \<Rightarrow> bool" where
  "clock_ok ts \<longleftrightarrow> 0 \<le> tv_sec ts \<and> tv_sec ts \<le> 9 * 10 ^ 15 \<and> 0 \<le> tv_nsec ts \<and> tv_nsec ts < 10 ^ 9"

definition entry_wf :: "entry \<Rightarrow> bool" where
  "entry_wf e \<longleftrightarrow> length (e_key e) = KEY_MAX + 1 \<and> length (e_value e) = VALUE_MAX + 1 \<and>
     (used e \<noteq> 0 \<longrightarrow>
        terminated (e_key e) \<and> key_ok (cstr (e_key e)) \<and>
        terminated (e_value e) \<and> value_ok (cstr (e_value e)) \<and> vlen e = length (cstr (e_value e)))"

definition holds_key :: "string \<Rightarrow> entry \<Rightarrow> bool" where
  "holds_key k e \<longleftrightarrow> used e \<noteq> 0 \<and> cstr (e_key e) = k"

definition keys_unique :: "store \<Rightarrow> bool" where
  "keys_unique st \<longleftrightarrow>
     (\<forall>i<length st. \<forall>j<length st. \<forall>k. holds_key k (st ! i) \<and> holds_key k (st ! j) \<longrightarrow> i = j)"

definition store_inv :: "store \<Rightarrow> bool" where
  "store_inv st \<longleftrightarrow> length st = STORE_CAP \<and> (\<forall>e\<in>set st. entry_wf e) \<and> keys_unique st"

definition view :: "store \<Rightarrow> int \<Rightarrow> string \<Rightarrow> string option" where
  "view st t k =
     (case find_index (holds_key k) st of
        None \<Rightarrow> None
      | Some i \<Rightarrow> if expired t (st ! i) then None else Some (cstr (e_value (st ! i))))"

text \<open>Two stores no client can tell apart from time \<open>t\<close> on.\<close>

definition same_view :: "int \<Rightarrow> store \<Rightarrow> store \<Rightarrow> bool" where
  "same_view t st st' \<longleftrightarrow> (\<forall>u\<ge>t. view st' u = view st u)"

section \<open>Facts\<close>

subsection \<open>The clock\<close>

lemma now_ms_clock_ok:
  assumes "clock_ok ts"
  shows "\<exists>t. now_ms ts = Some t \<and> time_ok t \<and> t = tv_sec ts * 1000 + tv_nsec ts div 1000000"
proof -
  have "tv_nsec ts div 1000000 \<le> 10 ^ 9 div 1000000" "0 \<le> tv_nsec ts div 1000000"
    using assms by (auto simp: clock_ok_def intro: zdiv_mono1)
  moreover have "sgn (tv_nsec ts) * (\<bar>tv_nsec ts\<bar> div 1000000) = tv_nsec ts div 1000000"
    using assms by (auto simp: clock_ok_def sgn_if)
  ultimately show ?thesis
    using assms by (auto simp: now_ms_def in_ll_def clock_ok_def time_ok_def LONG_MIN_def LONG_MAX_def TTL_MAX_def)
qed

subsection \<open>The search loops\<close>

text \<open>Each loop finds the first entry with a property; the index form of that fact.\<close>

lemma find_index_drop:
  assumes "i < length xs"
  shows "find_index P (drop i xs) =
    (if P (xs ! i) then Some 0 else map_option Suc (find_index P (drop (Suc i) xs)))"
  using Cons_nth_drop_Suc [OF assms, symmetric] by simp

lemma store_inv_length [simp]: "store_inv st \<Longrightarrow> length st = STORE_CAP"
  by (simp add: store_inv_def)

lemma store_inv_entry: "store_inv st \<Longrightarrow> i < STORE_CAP \<Longrightarrow> entry_wf (st ! i)"
  by (auto simp: store_inv_def)

lemma entry_match:
  assumes "entry_wf e" and "terminated key"
  shows "(if used e \<noteq> 0 then map_option (\<lambda>r. r = 0) (strcmp (e_key e) key) else Some False)
    = Some (holds_key (cstr key) e)"
proof (cases "used e \<noteq> 0")
  case True
  then have "terminated (e_key e)" using assms(1) by (simp add: entry_wf_def)
  from strcmp_cstr [OF this assms(2)] True show ?thesis by (auto simp: holds_key_def)
qed (simp add: holds_key_def)

lemma lookup_from_eq:
  assumes inv: "store_inv st" and key: "terminated key"
  shows "i \<le> STORE_CAP \<Longrightarrow> lookup_from st key now i =
    (case find_index (holds_key (cstr key)) (drop i st) of
       None \<Rightarrow> Some (st, - 1)
     | Some j \<Rightarrow> if expired now (st ! (i + j))
                then Some (st[i + j := (st ! (i + j))\<lparr>used := 0\<rparr>], - 1)
                else Some (st, int (i + j)))"
proof (induction "STORE_CAP - i" arbitrary: i)
  case 0
  then show ?case using inv by (simp add: lookup_from.simps)
next
  case (Suc n)
  then have i: "i < STORE_CAP" by simp
  have IH: "lookup_from st key now (Suc i) =
    (case find_index (holds_key (cstr key)) (drop (Suc i) st) of
       None \<Rightarrow> Some (st, - 1)
     | Some j \<Rightarrow> if expired now (st ! (Suc i + j))
                then Some (st[Suc i + j := (st ! (Suc i + j))\<lparr>used := 0\<rparr>], - 1)
                else Some (st, int (Suc i + j)))"
    using Suc by simp
  have m: "(if used (st ! i) \<noteq> 0 then map_option (\<lambda>r. r = 0) (strcmp (e_key (st ! i)) key) else Some False)
    = Some (holds_key (cstr key) (st ! i))"
    using entry_match [OF store_inv_entry [OF inv i] key] .
  show ?case
    using inv i
    by (simp add: lookup_from.simps [of st key now i] c_simps m IH find_index_drop expired_def
        split: option.split)
qed

lemma lookup_eq:
  assumes "store_inv st" and "terminated key"
  shows "lookup st key now =
    (case find_index (holds_key (cstr key)) st of
       None \<Rightarrow> Some (st, - 1)
     | Some j \<Rightarrow> if expired now (st ! j) then Some (st[j := (st ! j)\<lparr>used := 0\<rparr>], - 1)
                else Some (st, int j))"
  using lookup_from_eq [OF assms, of 0 now] by (simp add: lookup_def split: option.split)

lemma free_slot_from_eq:
  assumes len: "length st = STORE_CAP"
  shows "i \<le> STORE_CAP \<Longrightarrow> free_slot_from st now i =
    (case find_index (reusable now) (drop i st) of
       None \<Rightarrow> Some (st, - 1)
     | Some j \<Rightarrow> Some (st[i + j := (st ! (i + j))\<lparr>used := 0\<rparr>], int (i + j)))"
proof (induction "STORE_CAP - i" arbitrary: i)
  case 0
  then show ?case using len by (simp add: free_slot_from.simps)
next
  case (Suc n)
  then have i: "i < STORE_CAP" by simp
  have IH: "free_slot_from st now (Suc i) =
    (case find_index (reusable now) (drop (Suc i) st) of
       None \<Rightarrow> Some (st, - 1)
     | Some j \<Rightarrow> Some (st[Suc i + j := (st ! (Suc i + j))\<lparr>used := 0\<rparr>], int (Suc i + j)))"
    using Suc by simp
  show ?case
    using len i
    by (simp add: free_slot_from.simps [of st now i] c_simps IH find_index_drop
        reusable_def expired_def split: option.split)
qed

lemma free_slot_eq:
  assumes "length st = STORE_CAP"
  shows "free_slot st now =
    (case find_index (reusable now) st of
       None \<Rightarrow> Some (st, - 1)
     | Some j \<Rightarrow> Some (st[j := (st ! j)\<lparr>used := 0\<rparr>], int j))"
  using free_slot_from_eq [OF assms, of 0 now] by (simp add: free_slot_def split: option.split)

subsection \<open>The view under updates of one slot\<close>

lemma expired_mono: "expired t e \<Longrightarrow> t \<le> u \<Longrightarrow> expired u e"
  by (auto simp: expired_def)

lemma same_view_refl [simp]: "same_view t st st"
  by (simp add: same_view_def)

lemma same_view_trans: "same_view t a b \<Longrightarrow> same_view t b c \<Longrightarrow> same_view t a c"
  by (simp add: same_view_def)

lemma same_viewD: "same_view t st st' \<Longrightarrow> t \<le> u \<Longrightarrow> view st' u = view st u"
  by (simp add: same_view_def)

text \<open>Under the invariant at most one slot holds a key, so the search finds that slot.\<close>

lemma key_unique:
  "store_inv st \<Longrightarrow> i < STORE_CAP \<Longrightarrow> j < STORE_CAP \<Longrightarrow> holds_key k (st ! i) \<Longrightarrow> holds_key k (st ! j) \<Longrightarrow> i = j"
  unfolding store_inv_def keys_unique_def by metis

lemma slot_iff:
  assumes "store_inv st"
  shows "find_index (holds_key k) st = Some i \<longleftrightarrow> i < STORE_CAP \<and> holds_key k (st ! i)"
proof -
  have "find_index (holds_key k) st = Some i \<longleftrightarrow> i < length st \<and> holds_key k (st ! i)"
    by (rule find_index_unique) (metis key_unique assms store_inv_length)
  then show ?thesis using assms by simp
qed

lemma view_eq_Some:
  assumes "store_inv st"
  shows "view st t k = Some v \<longleftrightarrow>
    (\<exists>i<STORE_CAP. holds_key k (st ! i) \<and> \<not> expired t (st ! i) \<and> cstr (e_value (st ! i)) = v)"
    (is "_ \<longleftrightarrow> ?rhs")
proof -
  have "view st t k = Some v \<longleftrightarrow>
    (\<exists>i. find_index (holds_key k) st = Some i \<and> \<not> expired t (st ! i) \<and> cstr (e_value (st ! i)) = v)"
    by (auto simp: view_def split: option.split)
  then show ?thesis by (auto simp: slot_iff [OF assms])
qed

lemma view_value_ok: "store_inv st \<Longrightarrow> view st t k = Some v \<Longrightarrow> value_ok v \<and> key_ok k"
  using store_inv_entry by (fastforce simp: view_eq_Some holds_key_def entry_wf_def)

text \<open>Replacing a slot by an entry whose key no other slot holds keeps the invariant.\<close>

lemma store_inv_update [cache_inv_intros]:
  assumes inv: "store_inv st" and i: "i < STORE_CAP" and wf: "entry_wf e"
    and fresh: "\<And>j. j < STORE_CAP \<Longrightarrow> j \<noteq> i \<Longrightarrow> used e \<noteq> 0 \<Longrightarrow> \<not> holds_key (cstr (e_key e)) (st ! j)"
  shows "store_inv (st[i := e])"
proof -
  have "keys_unique (st[i := e])"
    unfolding keys_unique_def
  proof (intro allI impI)
    fix j l k
    assume *: "j < length (st[i := e])" "l < length (st[i := e])"
      "holds_key k (st[i := e] ! j) \<and> holds_key k (st[i := e] ! l)"
    show "j = l"
    proof (cases "j = i \<or> l = i")
      case True
      then show ?thesis
        using * inv i fresh by (auto simp: nth_list_update holds_key_def split: if_splits)
    next
      case False
      then show ?thesis
        using * key_unique [OF inv] inv by (metis length_list_update nth_list_update_neq store_inv_length)
    qed
  qed
  then show ?thesis
    using inv wf by (auto simp: store_inv_def dest: set_update_subset_insert [THEN subsetD])
qed

lemma view_eq_None:
  assumes "store_inv st"
  shows "view st t k = None \<longleftrightarrow> (\<forall>i<STORE_CAP. holds_key k (st ! i) \<longrightarrow> expired t (st ! i))"
proof -
  have "view st t k = None \<longleftrightarrow> \<not> (\<exists>v. view st t k = Some v)" by simp
  then show ?thesis unfolding view_eq_Some [OF assms] by blast
qed

lemma view_eqI:
  assumes "\<And>v. m = Some v \<longleftrightarrow> n = Some v"
  shows "m = n"
  using assms by (metis not_Some_eq)

lemma entry_wf_unused: "entry_wf e \<Longrightarrow> entry_wf (e\<lparr>used := 0\<rparr>)"
  by (simp add: entry_wf_def)

lemma store_inv_clear [cache_inv_intros]:
  "store_inv st \<Longrightarrow> i < STORE_CAP \<Longrightarrow> store_inv (st[i := (st ! i)\<lparr>used := 0\<rparr>])"
  by (rule store_inv_update) (auto simp: entry_wf_unused store_inv_entry)

lemma view_clear:
  assumes inv: "store_inv st" and i: "i < STORE_CAP"
  shows "view (st[i := (st ! i)\<lparr>used := 0\<rparr>]) u k = (if holds_key k (st ! i) then None else view st u k)"
proof -
  let ?st = "st[i := (st ! i)\<lparr>used := 0\<rparr>]"
  have inv': "store_inv ?st"
    by (rule store_inv_clear [OF inv i])
  have nth: "holds_key k (?st ! j) \<longleftrightarrow> j \<noteq> i \<and> holds_key k (st ! j)" if "j < STORE_CAP" for j
    using that inv by (cases "j = i") (simp_all add: holds_key_def)
  have same: "?st ! j = st ! j" if "j \<noteq> i" for j
    using that by simp
  show ?thesis
  proof (cases "holds_key k (st ! i)")
    case True
    then have "\<not> holds_key k (?st ! j)" if "j < STORE_CAP" for j
      using that nth key_unique [OF inv _ i] by blast
    then have "view ?st u k = None"
      unfolding view_eq_None [OF inv'] by blast
    with True show ?thesis by simp
  next
    case False
    have "view ?st u k = Some v \<longleftrightarrow> view st u k = Some v" for v
      unfolding view_eq_Some [OF inv'] view_eq_Some [OF inv] using nth same False by metis
    then show ?thesis using False view_eqI by metis
  qed
qed

lemma same_view_clear:
  assumes inv: "store_inv st" and i: "i < STORE_CAP" and re: "reusable t (st ! i)"
  shows "same_view t st (st[i := (st ! i)\<lparr>used := 0\<rparr>])"
  unfolding same_view_def
proof (intro allI impI ext)
  fix u k
  assume "t \<le> u"
  show "view (st[i := (st ! i)\<lparr>used := 0\<rparr>]) u k = view st u k"
  proof (cases "holds_key k (st ! i)")
    case True
    then have ex: "expired u (st ! i)"
      using re \<open>t \<le> u\<close> expired_mono by (auto simp: reusable_def holds_key_def)
    have "view st u k = None"
      using True ex key_unique [OF inv _ i] unfolding view_eq_None [OF inv] by blast
    then show ?thesis by (simp add: view_clear [OF inv i] True)
  qed (simp add: view_clear [OF inv i])
qed

lemma view_fill:
  assumes inv: "store_inv st" and i: "i < STORE_CAP" and inv': "store_inv (st[i := e])"
    and e: "used e \<noteq> 0" "cstr (e_key e) = k"
    and other: "\<And>k'. holds_key k' (st ! i) \<Longrightarrow> k' = k"
  shows "view (st[i := e]) u = (view st u)(k := if expired u e then None else Some (cstr (e_value e)))"
proof (rule ext, rule view_eqI)
  fix k' v
  have here: "holds_key k' e \<longleftrightarrow> k' = k"
    using e by (auto simp: holds_key_def)
  have uniq: "\<And>j. j < STORE_CAP \<Longrightarrow> holds_key k (st[i := e] ! j) \<Longrightarrow> j = i"
    using key_unique [OF inv' _ i, of _ k] i inv e by (auto simp: holds_key_def)
  show "view (st[i := e]) u k' = Some v \<longleftrightarrow>
    ((view st u)(k := if expired u e then None else Some (cstr (e_value e)))) k' = Some v"
  proof (cases "k' = k")
    case True
    then show ?thesis
      unfolding view_eq_Some [OF inv'] using i inv here uniq by (simp add: nth_list_update) metis
  next
    case False
    then show ?thesis
      unfolding view_eq_Some [OF inv'] using i inv here other view_eq_Some [OF inv, of u k' v]
      by (simp add: nth_list_update) metis
  qed
qed

subsection \<open>What the critical sections do\<close>

text \<open>
  After \<open>lookup\<close>: either the slot that holds the live key, or a store in which no
  slot holds the key and no client sees a difference.
\<close>

lemma lookup_hit:
  assumes "store_inv st" and "terminated key" and "view st now (cstr key) = Some v"
  obtains i where "i < STORE_CAP" and "holds_key (cstr key) (st ! i)" and "\<not> expired now (st ! i)"
    and "cstr (e_value (st ! i)) = v" and "lookup st key now = Some (st, int i)"
proof -
  from assms(3) obtain i where i: "i < STORE_CAP" "holds_key (cstr key) (st ! i)"
    "\<not> expired now (st ! i)" "cstr (e_value (st ! i)) = v"
    unfolding view_eq_Some [OF assms(1)] by blast
  moreover have "find_index (holds_key (cstr key)) st = Some i"
    using i slot_iff [OF assms(1)] by blast
  ultimately show thesis using that lookup_eq [OF assms(1,2)] by simp
qed

lemma lookup_miss:
  assumes inv: "store_inv st" and key: "terminated key" and none: "view st now (cstr key) = None"
  obtains st1 where "lookup st key now = Some (st1, - 1)" and "store_inv st1" and "same_view now st st1"
    and "\<And>i. i < STORE_CAP \<Longrightarrow> \<not> holds_key (cstr key) (st1 ! i)"
proof (cases "find_index (holds_key (cstr key)) st")
  case None
  have "\<not> holds_key (cstr key) (st ! i)" if "i < STORE_CAP" for i
    using None that slot_iff [OF inv, of "cstr key"] by fastforce
  then show thesis
    using that [of st] None inv lookup_eq [OF inv key] by simp
next
  case (Some i)
  then have i: "i < STORE_CAP" "holds_key (cstr key) (st ! i)"
    by (auto simp: slot_iff [OF inv])
  then have ex: "expired now (st ! i)"
    using none unfolding view_eq_None [OF inv] by blast
  let ?st = "st[i := (st ! i)\<lparr>used := 0\<rparr>]"
  have "\<not> holds_key (cstr key) (?st ! j)" if "j < STORE_CAP" for j
    using that inv i key_unique [OF inv that i(1)] by (cases "j = i") (auto simp: holds_key_def)
  moreover have "lookup st key now = Some (?st, - 1)"
    using Some ex lookup_eq [OF inv key] by simp
  ultimately show thesis
    using that [of ?st] store_inv_clear [OF inv i(1)] same_view_clear [OF inv i(1)] ex
    by (simp add: reusable_def)
qed

lemma copy_value:
  assumes "entry_wf e" and "used e \<noteq> 0"
  shows "memcpy (VALUE_MAX + 1) [] 0 (e_value e) (vlen e + 1) = Some (cstr (e_value e) @ [NUL])"
proof -
  have t: "terminated (e_value e)" and n: "vlen e = length (cstr (e_value e))"
    and len: "length (e_value e) = VALUE_MAX + 1"
    using assms by (auto simp: entry_wf_def)
  have "vlen e < length (e_value e)"
    using length_cstr_less [OF t] n by simp
  then show ?thesis
    using len take_cstr_NUL [OF t] n by (simp add: memcpy_fresh)
qed

lemma get_section_spec:
  assumes inv: "store_inv st" and key: "terminated key"
  obtains st' where
    "get_section now key st = Some (st', map_option (\<lambda>v. v @ [NUL]) (view st now (cstr key)))"
    and "store_inv st'" and "same_view now st st'"
proof (cases "view st now (cstr key)")
  case None
  obtain st1 where "lookup st key now = Some (st1, - 1)" "store_inv st1" "same_view now st st1"
    by (rule lookup_miss [OF inv key None])
  then show thesis using that [of st1] None by (simp add: get_section_def)
next
  case (Some v)
  obtain i where i: "i < STORE_CAP" "holds_key (cstr key) (st ! i)"
    "cstr (e_value (st ! i)) = v" "lookup st key now = Some (st, int i)"
    by (rule lookup_hit [OF inv key Some])
  have "memcpy (VALUE_MAX + 1) [] 0 (e_value (st ! i)) (vlen (st ! i) + 1) = Some (v @ [NUL])"
    using copy_value [OF store_inv_entry [OF inv i(1)]] i(2,3) by (simp add: holds_key_def)
  then show thesis
    using that [of st] Some i inv by (simp add: get_section_def c_simps)
qed

lemma lookup_found:
  assumes inv: "store_inv st" and key: "terminated key"
  shows "\<exists>st' i. lookup st key now = Some (st', i) \<and> store_inv st' \<and>
    (if \<exists>j<STORE_CAP. holds_key (cstr key) (st ! j) \<and> \<not> expired now (st ! j)
     then st' = st \<and> 0 \<le> i \<and> nat i < STORE_CAP \<and> holds_key (cstr key) (st ! nat i)
     else i = - 1 \<and> (\<forall>j<STORE_CAP. \<not> holds_key (cstr key) (st' ! j)))"
proof (cases "view st now (cstr key)")
  case None
  then have "\<not> (\<exists>j<STORE_CAP. holds_key (cstr key) (st ! j) \<and> \<not> expired now (st ! j))"
    using view_eq_None [OF inv] by blast
  then show ?thesis by - (rule lookup_miss [OF inv key None], auto)
next
  case (Some v)
  then have "\<exists>j<STORE_CAP. holds_key (cstr key) (st ! j) \<and> \<not> expired now (st ! j)"
    using view_eq_Some [OF inv] by blast
  then show ?thesis using inv by - (rule lookup_hit [OF inv key Some], auto)
qed

lemma delete_section_spec:
  assumes inv: "store_inv st" and key: "terminated key"
  obtains st' where
    "delete_section now key st = Some (st', view st now (cstr key) \<noteq> None)"
    and "store_inv st'" and "\<And>u. now \<le> u \<Longrightarrow> view st' u = (view st u)(cstr key := None)"
proof (cases "view st now (cstr key)")
  case None
  obtain st1 where st1: "lookup st key now = Some (st1, - 1)" "store_inv st1" "same_view now st st1"
    "\<And>i. i < STORE_CAP \<Longrightarrow> \<not> holds_key (cstr key) (st1 ! i)"
    using lookup_miss [OF inv key None] by blast
  have "view st1 u (cstr key) = None" for u
    using st1(4) unfolding view_eq_None [OF st1(2)] by blast
  then have "view st1 u = (view st u)(cstr key := None)" if "now \<le> u" for u
    using same_viewD [OF st1(3) that] by (metis fun_upd_triv)
  then show thesis using that [of st1] None st1 by (simp add: delete_section_def)
next
  case (Some v)
  obtain i where i: "i < STORE_CAP" "holds_key (cstr key) (st ! i)" "lookup st key now = Some (st, int i)"
    by (rule lookup_hit [OF inv key Some])
  have "view (st[i := (st ! i)\<lparr>used := 0\<rparr>]) u = (view st u)(cstr key := None)" for u
    using i(2) by (auto simp: view_clear [OF inv i(1)] holds_key_def)
  then show thesis
    using that [of "st[i := (st ! i)\<lparr>used := 0\<rparr>]"] Some i inv store_inv_clear [OF inv i(1)]
    by (simp add: delete_section_def c_simps)
qed

lemma fill_entry_spec:
  assumes wf: "entry_wf e"
    and key: "terminated key" "key_ok (cstr key)" and klen: "klen = length (cstr key)"
    and val: "terminated value" "value_ok (cstr value)" and vl: "vl = length (cstr value)"
    and ttl: "ttl_ok ttl" and now: "time_ok now"
  obtains e' where "fill_entry now key klen ttl value vl e = Some e'" and "entry_wf e'"
    and "used e' \<noteq> 0" and "cstr (e_key e') = cstr key" and "cstr (e_value e') = cstr value"
    and "\<And>u. expired u e' \<longleftrightarrow> ttl \<noteq> 0 \<and> now + ttl * 1000 \<le> u"
proof -
  let ?k = "cstr key @ NUL # drop (klen + 1) (e_key e)"
  let ?v = "cstr value @ NUL # drop (vl + 1) (e_value e)"
  have bounds: "klen \<le> KEY_MAX" "vl \<le> VALUE_MAX" "klen < length key" "vl < length value"
    using key val klen vl length_cstr_less by (auto simp: key_ok_def value_ok_def)
  have lens: "length (e_key e) = KEY_MAX + 1" "length (e_value e) = VALUE_MAX + 1"
    using wf by (auto simp: entry_wf_def)
  have k: "memcpy (KEY_MAX + 1) (e_key e) 0 key (klen + 1) = Some ?k"
    using bounds lens take_cstr_NUL [OF key(1)] klen by (simp add: memcpy_whole)
  have v: "memcpy (VALUE_MAX + 1) (e_value e) 0 value (vl + 1) = Some ?v"
    using bounds lens take_cstr_NUL [OF val(1)] vl by (simp add: memcpy_whole)
  have t: "in_ll (ttl * 1000) = Some (ttl * 1000)" "in_ll (now + ttl * 1000) = Some (now + ttl * 1000)"
    using ttl now by (auto simp: in_ll_def ttl_ok_def time_ok_def TTL_MAX_def LONG_MIN_def LONG_MAX_def)
  have c: "cstr ?k = cstr key" "cstr ?v = cstr value" "length ?k = KEY_MAX + 1" "length ?v = VALUE_MAX + 1"
    using bounds lens klen vl by (auto simp: cstr_append)
  let ?e = "e\<lparr>e_key := ?k, e_value := ?v, vlen := vl, used := 1\<rparr>"
  define e' where "e' = (if ttl = 0 then ?e\<lparr>has_expiry := 0\<rparr>
    else ?e\<lparr>has_expiry := 1, expires_at_ms := now + ttl * 1000\<rparr>)"
  have "fill_entry now key klen ttl value vl e = Some e'"
    by (simp only: fill_entry_def k v t Let_def bind.bind_lunit e'_def split: if_split) simp
  moreover have "entry_wf e'"
    using c key(2) val(2) vl by (simp add: e'_def entry_wf_def)
  ultimately show thesis
    using that [of e'] c by (simp add: e'_def expired_def)
qed

text \<open>Live keys are counted by the slots that \<open>free_slot\<close> may not take.\<close>

lemma card_live:
  assumes inv: "store_inv st"
  shows "card (dom (view st t)) = card {i. i < STORE_CAP \<and> \<not> reusable t (st ! i)}"
proof -
  let ?I = "{i. i < STORE_CAP \<and> \<not> reusable t (st ! i)}" and ?f = "\<lambda>i. cstr (e_key (st ! i))"
  have "inj_on ?f ?I"
  proof (rule inj_onI)
    fix i j
    assume "i \<in> ?I" "j \<in> ?I" "?f i = ?f j"
    then have "i < STORE_CAP \<and> j < STORE_CAP \<and> holds_key (?f i) (st ! i) \<and> holds_key (?f i) (st ! j)"
      by (simp add: reusable_def holds_key_def)
    then show "i = j" using key_unique [OF inv] by blast
  qed
  moreover have "k \<in> dom (view st t) \<longleftrightarrow> k \<in> ?f ` ?I" for k
    unfolding dom_def mem_Collect_eq not_None_eq view_eq_Some [OF inv]
    by (auto simp: reusable_def holds_key_def)
  then have "?f ` ?I = dom (view st t)" by blast
  ultimately show ?thesis by (metis card_image)
qed

lemma full_iff:
  assumes inv: "store_inv st"
  shows "find_index (reusable t) st = None \<longleftrightarrow> card (dom (view st t)) = STORE_CAP"
proof -
  let ?I = "{i. i < STORE_CAP \<and> \<not> reusable t (st ! i)}"
  have sub: "?I \<subseteq> {..<STORE_CAP}" by auto
  have "card ?I = STORE_CAP \<longleftrightarrow> ?I = {..<STORE_CAP}"
    using card_subset_eq [OF finite_lessThan sub] by (metis card_lessThan)
  also have "\<dots> \<longleftrightarrow> (\<forall>i<STORE_CAP. \<not> reusable t (st ! i))" by blast
  also have "\<dots> \<longleftrightarrow> (\<forall>e\<in>set st. \<not> reusable t e)"
    by (simp add: all_set_conv_all_nth inv)
  finally show ?thesis by (simp add: card_live [OF inv] find_index_None)
qed

lemma card_view_le: "store_inv st \<Longrightarrow> card (dom (view st t)) \<le> STORE_CAP"
  using card_mono [of "{..<STORE_CAP}" "{i. i < STORE_CAP \<and> \<not> reusable t (st ! i)}"]
  by (auto simp: card_live)

text \<open>Taking a free slot and filling it, when no slot holds the key.\<close>

lemma free_slot_spec:
  assumes inv: "store_inv st" and room: "card (dom (view st now)) < STORE_CAP"
  obtains i st2 where "free_slot st now = Some (st2, int i)" and "i < STORE_CAP" and "used (st2 ! i) = 0"
    and "store_inv st2" and "same_view now st st2"
    and "\<And>j k. j < STORE_CAP \<Longrightarrow> holds_key k (st2 ! j) \<Longrightarrow> holds_key k (st ! j)"
proof -
  obtain i where i: "find_index (reusable now) st = Some i"
    using room full_iff [OF inv, of now] by (metis less_irrefl option.exhaust)
  then have lt: "i < STORE_CAP" and re: "reusable now (st ! i)"
    using find_index_SomeD [OF i] inv by auto
  let ?st = "st[i := (st ! i)\<lparr>used := 0\<rparr>]"
  have "holds_key k (st ! j)" if "j < STORE_CAP" "holds_key k (?st ! j)" for j k
    using that inv by (cases "j = i") (auto simp: holds_key_def)
  then show thesis
    using that [of ?st i] i lt inv free_slot_eq store_inv_clear [OF inv lt] same_view_clear [OF inv lt re]
    by simp
qed

lemma free_slot_full:
  assumes inv: "store_inv st" and full: "card (dom (view st now)) = STORE_CAP"
  shows "free_slot st now = Some (st, - 1)"
  using assms full_iff [OF inv, of now] free_slot_eq [of st now] by simp

lemma free_slot_total:
  assumes inv: "store_inv st"
  shows "\<exists>st' i. free_slot st now = Some (st', i) \<and> store_inv st' \<and> (\<forall>u\<ge>now. view st' u = view st u) \<and>
    (if card (dom (view st now)) = STORE_CAP then i = - 1
     else 0 \<le> i \<and> nat i < STORE_CAP \<and> used (st' ! nat i) = 0)"
proof (cases "card (dom (view st now)) = STORE_CAP")
  case True
  then show ?thesis using full_iff [OF inv, of now] free_slot_eq [of st now] inv by simp
next
  case False
  then have "card (dom (view st now)) < STORE_CAP" using card_view_le [OF inv, of now] by simp
  from free_slot_spec [OF inv this] False show ?thesis by (metis (no_types) same_view_def nat_int of_nat_0_le_iff)
qed

lemma set_section_spec:
  assumes inv: "store_inv st"
    and key: "terminated key" "key_ok (cstr key)" "klen = length (cstr key)"
    and val: "terminated value" "value_ok (cstr value)" "vl = length (cstr value)"
    and ttl: "ttl_ok ttl" and now: "time_ok now"
  defines "k \<equiv> cstr key"
  obtains st' ok where "set_section now key klen ttl value vl st = Some (st', ok)" and "store_inv st'"
    and "ok \<longleftrightarrow> view st now k \<noteq> None \<or> card (dom (view st now)) < STORE_CAP"
    and "\<And>u. now \<le> u \<Longrightarrow> view st' u =
      (if ok then (view st u)(k := if ttl \<noteq> 0 \<and> now + ttl * 1000 \<le> u then None else Some (cstr value))
       else view st u)"
proof -
  note intro = that
  have fill: thesis
    if idx: "i < STORE_CAP" and st2: "store_inv st2" "same_view now st st2"
      and own: "\<And>k'. holds_key k' (st2 ! i) \<Longrightarrow> k' = k"
      and fresh: "\<And>j. j < STORE_CAP \<Longrightarrow> j \<noteq> i \<Longrightarrow> \<not> holds_key k (st2 ! j)"
      and ok: "view st now k \<noteq> None \<or> card (dom (view st now)) < STORE_CAP"
      and run: "set_section now key klen ttl value vl st =
        do { e' \<leftarrow> fill_entry now key klen ttl value vl (st2 ! i); Some (st2[i := e'], True) }" for i st2
  proof -
    obtain e' where e': "fill_entry now key klen ttl value vl (st2 ! i) = Some e'" "entry_wf e'"
      "used e' \<noteq> 0" "cstr (e_key e') = k" "cstr (e_value e') = cstr value"
      "\<And>u. expired u e' \<longleftrightarrow> ttl \<noteq> 0 \<and> now + ttl * 1000 \<le> u"
      using fill_entry_spec [OF store_inv_entry [OF st2(1) idx] key val ttl now] unfolding k_def by blast
    have inv': "store_inv (st2[i := e'])"
      using store_inv_update [OF st2(1) idx e'(2)] fresh e'(4) by blast
    have "view (st2[i := e']) u = (view st2 u)(k := if expired u e' then None else Some (cstr value))" for u
      using view_fill [OF st2(1) idx inv' e'(3,4) own] e'(5) by simp
    then show thesis
      using intro [of "st2[i := e']" True] run e' inv' ok same_viewD [OF st2(2)] by simp
  qed
  show thesis
  proof (cases "view st now k")
    case (Some v)
    obtain i where i: "i < STORE_CAP" "holds_key k (st ! i)" "lookup st key now = Some (st, int i)"
      using lookup_hit [OF inv key(1)] Some unfolding k_def by blast
    show thesis
    proof (rule fill [of i st])
      show "k' = k" if "holds_key k' (st ! i)" for k'
        using that i(2) by (simp add: holds_key_def)
      show "\<not> holds_key k (st ! j)" if "j < STORE_CAP" "j \<noteq> i" for j
        using that key_unique [OF inv _ i(1)] i(2) by blast
    qed (use i Some inv in \<open>simp_all add: set_section_def c_simps\<close>)
  next
    case None
    obtain st1 where st1: "lookup st key now = Some (st1, - 1)" "store_inv st1" "same_view now st st1"
      "\<And>i. i < STORE_CAP \<Longrightarrow> \<not> holds_key k (st1 ! i)"
      using lookup_miss [OF inv key(1)] None unfolding k_def by blast
    have v1: "view st1 now = view st now" using same_viewD [OF st1(3)] by simp
    show thesis
    proof (cases "card (dom (view st now)) < STORE_CAP")
      case True
      then obtain i st2 where st2: "free_slot st1 now = Some (st2, int i)" "i < STORE_CAP"
        "used (st2 ! i) = 0" "store_inv st2" "same_view now st1 st2"
        "\<And>j k. j < STORE_CAP \<Longrightarrow> holds_key k (st2 ! j) \<Longrightarrow> holds_key k (st1 ! j)"
        using free_slot_spec [OF st1(2)] v1 by (metis (no_types, lifting))
      show thesis
      proof (rule fill [of i st2])
        show "same_view now st st2" using st1(3) st2(5) same_view_trans by blast
        show "set_section now key klen ttl value vl st =
          do { e' \<leftarrow> fill_entry now key klen ttl value vl (st2 ! i); Some (st2[i := e'], True) }"
          using st1(1) st2(1,2,4) by (simp add: set_section_def c_simps)
      qed (use st1(4) st2 True in \<open>auto simp: holds_key_def\<close>)
    next
      case False
      then have "card (dom (view st1 now)) = STORE_CAP"
        using card_view_le [OF inv, of now] v1 by simp
      then show thesis
        using intro [of st1 False] False None st1 free_slot_full [OF st1(2)] same_viewD [OF st1(3)]
        by (simp add: set_section_def)
    qed
  qed
qed

subsection \<open>The C cache implements the abstract cache\<close>

text \<open>The critical sections as operations on keys and values.\<close>

definition store_get :: "int \<Rightarrow> string \<Rightarrow> store \<Rightarrow> (store \<times> string option) option" where
  "store_get t k st = map_option (\<lambda>(s, r). (s, map_option cstr r)) (get_section t (k @ [NUL]) st)"

definition store_del :: "int \<Rightarrow> string \<Rightarrow> store \<Rightarrow> (store \<times> bool) option" where
  "store_del t k st = delete_section t (k @ [NUL]) st"

definition store_set :: "int \<Rightarrow> string \<Rightarrow> int \<Rightarrow> string \<Rightarrow> store \<Rightarrow> (store \<times> bool) option" where
  "store_set t k ttl v st = set_section t (k @ [NUL]) (length k) ttl (v @ [NUL]) (length v) st"

lemma key_ok_cstr: "key_ok k \<Longrightarrow> cstr (k @ [NUL]) = k"
  by (simp add: key_ok_def cstr_append_NUL)

lemma value_ok_cstr: "value_ok v \<Longrightarrow> cstr (v @ [NUL]) = v"
  by (simp add: value_ok_def cstr_append_NUL)

interpretation cstore: ttl_cache store_inv view store_get store_del store_set key_ok ttl_ok value_ok time_ok STORE_CAP
proof
  fix st k t
  assume inv: "store_inv st" and k: "key_ok k"
  obtain st' where "get_section t (k @ [NUL]) st = Some (st', map_option (\<lambda>v. v @ [NUL]) (view st t k))"
    "store_inv st'" "same_view t st st'"
    using get_section_spec [OF inv, of "k @ [NUL]" t] key_ok_cstr [OF k] by auto
  moreover have "map_option cstr (map_option (\<lambda>v. v @ [NUL]) (view st t k)) = view st t k"
    using view_value_ok [OF inv] by (cases "view st t k") (auto simp: value_ok_cstr)
  ultimately show "\<exists>st'. store_get t k st = Some (st', view st t k) \<and> store_inv st' \<and> (\<forall>u\<ge>t. view st' u = view st u)"
    by (simp add: store_get_def same_view_def)
next
  fix st k t
  assume inv: "store_inv st" and k: "key_ok k"
  show "\<exists>st'. store_del t k st = Some (st', view st t k \<noteq> None) \<and> store_inv st' \<and>
    (\<forall>u\<ge>t. view st' u = (view st u)(k := None))"
    using delete_section_spec [OF inv, of "k @ [NUL]" t] key_ok_cstr [OF k]
    unfolding store_del_def by (metis terminated_append)
next
  fix st k ttl v t
  assume inv: "store_inv st" and k: "key_ok k" and ttl: "ttl_ok ttl" and v: "value_ok v" and t: "time_ok t"
  have key: "terminated (k @ [NUL])" "key_ok (cstr (k @ [NUL]))" "length k = length (cstr (k @ [NUL]))"
    and val: "terminated (v @ [NUL])" "value_ok (cstr (v @ [NUL]))" "length v = length (cstr (v @ [NUL]))"
    using k v key_ok_cstr value_ok_cstr by simp_all
  show "\<exists>st' ok. store_set t k ttl v st = Some (st', ok) \<and> store_inv st' \<and>
    (ok \<longleftrightarrow> view st t k \<noteq> None \<or> card (dom (view st t)) < STORE_CAP) \<and>
    (\<forall>u\<ge>t. view st' u =
      (if ok then (view st u)(k := if ttl \<noteq> 0 \<and> t + ttl * 1000 \<le> u then None else Some v) else view st u))"
    using set_section_spec [OF inv key val ttl t, unfolded key_ok_cstr [OF k] value_ok_cstr [OF v]]
    unfolding store_set_def by blast
qed

lemma zero_entry_wf: "entry_wf zero_entry"
  by (simp add: entry_wf_def zero_entry_def)

lemma store_inv_initial [cache_inv_intros, simp]: "store_inv initial_store"
  by (simp add: store_inv_def initial_store_def zero_entry_wf keys_unique_def holds_key_def)
    (simp add: zero_entry_def)

lemma view_initial [simp]: "view initial_store t k = None"
  using view_eq_None [OF store_inv_initial, of t k]
  by (simp add: holds_key_def initial_store_def zero_entry_def)

lemma refines_initial: "cstore.refines t initial_store Map.empty"
  by (auto simp: cstore.refines_def live_def)

text \<open>The sections read a key or value buffer only up to its NUL.\<close>

lemma lookup_cstr:
  "store_inv st \<Longrightarrow> terminated key \<Longrightarrow> lookup st key now = lookup st (cstr key @ [NUL]) now"
  by (simp add: lookup_eq cstr_append_NUL)

lemma get_section_cstr:
  "store_inv st \<Longrightarrow> terminated key \<Longrightarrow> get_section now key st = get_section now (cstr key @ [NUL]) st"
  by (simp add: get_section_def lookup_cstr [of st key])

lemma delete_section_cstr:
  "store_inv st \<Longrightarrow> terminated key \<Longrightarrow> delete_section now key st = store_del now (cstr key) st"
  by (simp add: delete_section_def store_del_def lookup_cstr [of st key])

lemma fill_entry_cstr:
  assumes "terminated key" "klen = length (cstr key)" "terminated value" "vl = length (cstr value)"
  shows "fill_entry now key klen ttl value vl e =
    fill_entry now (cstr key @ [NUL]) klen ttl (cstr value @ [NUL]) vl e"
  using assms length_cstr_less [OF assms(1)] length_cstr_less [OF assms(3)]
  by (simp add: fill_entry_def memcpy_def take_cstr_NUL)

lemma set_section_cstr:
  assumes "store_inv st" "terminated key" "klen = length (cstr key)" "terminated value" "vl = length (cstr value)"
  shows "set_section now key klen ttl value vl st = store_set now (cstr key) ttl (cstr value) st"
  using assms fill_entry_cstr [OF assms(2-5)]
  by (simp add: set_section_def store_set_def lookup_cstr [of st key] cong: if_cong)

end
