(* ===== verification/Cache_Protocol.thy ===== *)
theory Cache_Protocol
  imports Cache_Store
begin

text \<open>
  The text protocol of the cache: \<open>valid_key\<close>, \<open>parse_ttl\<close> and \<open>handle_line\<close> of
  \<^verbatim>\<open>in-mem-cache/server.c\<close>. \<open>handle_line\<close> works on the NUL-terminated line, takes the
  shared store and the connection, and returns both with the value \<open>send_reply\<close> returned.
  \<open>decode\<close> is the specification of the syntax; \<open>handle_line_decode\<close> shows that the C
  code with its pointer arithmetic implements it.
\<close>

definition send_reply :: "io \<Rightarrow> string \<Rightarrow> (io \<times> int run) option" where
  "send_reply w text = send_text (VALUE_MAX + 32) w text"

abbreviation ERROR_reply :: string where "ERROR_reply \<equiv> ''ERROR'' @ [LF]"
abbreviation OK_reply :: string where "OK_reply \<equiv> ''OK'' @ [LF]"
abbreviation NOT_FOUND_reply :: string where "NOT_FOUND_reply \<equiv> ''NOT_FOUND'' @ [LF]"

definition VALUE_reply :: "string \<Rightarrow> string" where
  "VALUE_reply v = ''VALUE '' @ v @ [LF]"

fun no_space :: "nat \<Rightarrow> buf \<Rightarrow> bool option" where
  "no_space 0 b = Some True"
| "no_space (Suc n) [] = None"
| "no_space (Suc n) (c # b) = (if isspace c then Some False else no_space n b)"

definition valid_key :: "buf \<Rightarrow> nat \<Rightarrow> bool option" where
  "valid_key key len = (if len = 0 \<or> len > KEY_MAX then Some False else no_space len key)"

fun all_digits :: "nat \<Rightarrow> buf \<Rightarrow> bool option" where
  "all_digits 0 b = Some True"
| "all_digits (Suc n) [] = None"
| "all_digits (Suc n) (c # b) = (if \<not> isdigit c then Some False else all_digits n b)"

text \<open>\<open>Some None\<close> is the return value 0, \<open>Some (Some v)\<close> is 1 with \<open>*out = v\<close>.\<close>

definition parse_ttl :: "buf \<Rightarrow> nat \<Rightarrow> int option option" where
  "parse_ttl s len =
     (if len = 0 \<or> len > 5 then Some None
      else do {
        digits \<leftarrow> all_digits len s;
        if \<not> digits then Some None
        else do {
          tmp \<leftarrow> memcpy 8 [] 0 s len;
          tmp \<leftarrow> write_at 8 tmp len NUL;
          (v, end) \<leftarrow> strtol10 tmp;
          c \<leftarrow> read_at tmp end;
          if end = 0 \<or> c \<noteq> NUL \<or> v < 0 \<or> v > TTL_MAX then Some None else Some (Some v)
        }
      })"

text \<open>Replying leaves the store as it is.\<close>

definition reply :: "io \<Rightarrow> store \<Rightarrow> string \<Rightarrow> (io \<times> store \<times> int run) option" where
  "reply w st text = do { (w', r) \<leftarrow> send_reply w text; Some (w', st, r) }"

text \<open>
  What a line asks for, once everything that \<open>handle_line\<close> does before it takes
  \<open>store_mutex\<close> is done: an answer it can give at once, or one of the three critical
  sections with the arguments it has prepared. \<open>Raw_error\<close> is the answer \<open>handle_client\<close>
  sends itself, without \<open>send_reply\<close>.
\<close>

datatype request =
    Raw_error
  | Answer string
  | Get_req buf
  | Delete_req buf
  | Set_req buf nat int buf nat

text \<open>The three branches of \<open>handle_line\<close>, from the first byte after the verb.\<close>

definition parse_get :: "buf \<Rightarrow> request option" where
  "parse_get key = do {
     n \<leftarrow> strlen key;
     valid \<leftarrow> valid_key key n;
     if \<not> valid then Some (Answer ERROR_reply) else Some (Get_req key)
   }"

definition parse_delete :: "buf \<Rightarrow> request option" where
  "parse_delete key = do {
     n \<leftarrow> strlen key;
     valid \<leftarrow> valid_key key n;
     if \<not> valid then Some (Answer ERROR_reply) else Some (Delete_req key)
   }"

definition parse_set :: "buf \<Rightarrow> request option" where
  "parse_set p = do {
     sp1 \<leftarrow> strchr p (CHR '' '');
     case sp1 of None \<Rightarrow> Some (Answer ERROR_reply)
     | Some klen \<Rightarrow> do {
       valid \<leftarrow> valid_key p klen;
       if \<not> valid then Some (Answer ERROR_reply)
       else do {
         key \<leftarrow> memcpy (KEY_MAX + 1) [] 0 p klen;
         key \<leftarrow> write_at (KEY_MAX + 1) key klen NUL;
         let ts = drop (klen + 1) p;
         sp2 \<leftarrow> strchr ts (CHR '' '');
         case sp2 of None \<Rightarrow> Some (Answer ERROR_reply)
         | Some tlen \<Rightarrow> do {
           parsed \<leftarrow> parse_ttl ts tlen;
           case parsed of None \<Rightarrow> Some (Answer ERROR_reply)
           | Some ttl \<Rightarrow> do {
             let value = drop (tlen + 1) ts;
             vn \<leftarrow> strlen value;
             if vn = 0 \<or> vn > VALUE_MAX then Some (Answer ERROR_reply)
             else Some (Set_req key klen ttl value vn)
           }
         }
       }
     }
   }"

definition parse_line :: "buf \<Rightarrow> request option" where
  "parse_line line = do {
     g \<leftarrow> strncmp line ''GET '' 4;
     if g = 0 then parse_get (drop 4 line)
     else do {
       d \<leftarrow> strncmp line ''DELETE '' 7;
       if d = 0 then parse_delete (drop 7 line)
       else do {
         s \<leftarrow> strncmp line ''SET '' 4;
         if s = 0 then parse_set (drop 4 line)
         else Some (Answer ERROR_reply)
       }
     }
   }"

text \<open>The critical section of a request at time \<open>now\<close>, and the reply sent after it.\<close>

fun critical_section :: "int \<Rightarrow> request \<Rightarrow> store \<Rightarrow> (store \<times> string) option" where
  "critical_section now (Get_req key) st = do {
     (st', found) \<leftarrow> get_section now key st;
     case found of
       None \<Rightarrow> Some (st', NOT_FOUND_reply)
     | Some value \<Rightarrow> do {
         vn \<leftarrow> strlen value;
         Some (st', VALUE_reply (take vn value))
       }
   }"
| "critical_section now (Delete_req key) st = do {
     (st', found) \<leftarrow> delete_section now key st;
     Some (st', if found then OK_reply else NOT_FOUND_reply)
   }"
| "critical_section now (Set_req key klen ttl value vn) st = do {
     (st', ok) \<leftarrow> set_section now key klen ttl value vn st;
     Some (st', if ok then OK_reply else ERROR_reply)
   }"
| "critical_section now (Answer text) st = Some (st, text)"
| "critical_section now Raw_error st = Some (st, ERROR_reply)"

text \<open>
  Taking \<open>store_mutex\<close> and reading the clock, which every command does before it touches the
  store. The body runs with the time it read.
\<close>

definition at_now :: "io \<Rightarrow> store \<Rightarrow> (io \<Rightarrow> int \<Rightarrow> (io \<times> store \<times> int run) option) \<Rightarrow> (io \<times> store \<times> int run) option" where
  "at_now w st body =
     (case clk w of
        [] \<Rightarrow> Some (w, st, Blocked)
      | ts # tss \<Rightarrow> do { now \<leftarrow> now_ms ts; body (w\<lparr>clk := tss\<rparr>) now })"

definition run_request :: "io \<Rightarrow> store \<Rightarrow> request \<Rightarrow> (io \<times> store \<times> int run) option" where
  "run_request w st rq =
     (case rq of
        Raw_error \<Rightarrow> do { (w', r) \<leftarrow> send_all w ERROR_reply 6; Some (w', st, r) }
      | Answer text \<Rightarrow> reply w st text
      | _ \<Rightarrow> at_now w st (\<lambda>w now. do {
          (st', text) \<leftarrow> critical_section now rq st;
          reply w st' text
        }))"

definition handle_line :: "io \<Rightarrow> store \<Rightarrow> buf \<Rightarrow> (io \<times> store \<times> int run) option" where
  "handle_line w st line = do { rq \<leftarrow> parse_line line; run_request w st rq }"

section \<open>Specification of the syntax\<close>

definition is_prefix :: "string \<Rightarrow> string \<Rightarrow> bool" where
  "is_prefix p s \<longleftrightarrow> take (length p) s = p"

definition ttl_of :: "string \<Rightarrow> int option" where
  "ttl_of s = (if s \<noteq> [] \<and> length s \<le> 5 \<and> list_all isdigit s \<and> digits_val s \<le> TTL_MAX
               then Some (digits_val s) else None)"

text \<open>Split a string at its first space.\<close>

definition split_space :: "string \<Rightarrow> (string \<times> string) option" where
  "split_space s = map_option (\<lambda>i. (take i s, drop (Suc i) s)) (find_index (\<lambda>c. c = CHR '' '') s)"

definition decode_set :: "string \<Rightarrow> (string, string) cmd option" where
  "decode_set s = do {
     (k, rest) \<leftarrow> split_space s;
     (t, v) \<leftarrow> split_space rest;
     ttl \<leftarrow> ttl_of t;
     if key_ok k \<and> value_ok v then Some (Set k ttl v) else None
   }"

definition decode :: "string \<Rightarrow> (string, string) cmd option" where
  "decode s =
     (if is_prefix ''GET '' s then (if key_ok (drop 4 s) then Some (Get (drop 4 s)) else None)
      else if is_prefix ''DELETE '' s then (if key_ok (drop 7 s) then Some (Delete (drop 7 s)) else None)
      else if is_prefix ''SET '' s then decode_set (drop 4 s)
      else None)"

fun encode_reply :: "string reply \<Rightarrow> string" where
  "encode_reply (Value v) = VALUE_reply v"
| "encode_reply Not_Found = NOT_FOUND_reply"
| "encode_reply Stored = OK_reply"
| "encode_reply Deleted = OK_reply"
| "encode_reply Full = ERROR_reply"

text \<open>What \<open>handle_line\<close> is to do with a line.\<close>

definition run_cmd :: "io \<Rightarrow> store \<Rightarrow> (string, string) cmd option \<Rightarrow> (io \<times> store \<times> int run) option" where
  "run_cmd w st dc =
     (case dc of
        None \<Rightarrow> reply w st ERROR_reply
      | Some c \<Rightarrow> at_now w st (\<lambda>w now. do {
          (st', r) \<leftarrow> exec_cmd store_get store_del store_set now c st;
          reply w st' (encode_reply r)
        }))"

section \<open>The code implements the syntax\<close>

lemma no_space_eq: "n \<le> length b \<Longrightarrow> no_space n b = Some (\<forall>c\<in>set (take n b). \<not> isspace c)"
  by (induction n b rule: no_space.induct) auto

lemma all_digits_eq: "n \<le> length b \<Longrightarrow> all_digits n b = Some (list_all isdigit (take n b))"
  by (induction n b rule: all_digits.induct) auto

lemma take_cstr: "n \<le> length (cstr b) \<Longrightarrow> take n b = take n (cstr b)"
  using cstr_eq_take [of b] by (metis min.absorb1 take_take)

lemma NUL_take_cstr [simp]: "NUL \<notin> set (take n (cstr b))"
  using NUL_not_in_cstr in_set_takeD by fast

lemma valid_key_eq:
  assumes "terminated b" and "n \<le> length (cstr b)"
  shows "valid_key b n = Some (key_ok (take n (cstr b)))"
proof -
  have "n \<le> length b" using assms length_cstr_less by fastforce
  then show ?thesis
    using assms(2) by (auto simp: valid_key_def no_space_eq take_cstr key_ok_def)
qed

lemma valid_key_whole: "terminated b \<Longrightarrow> valid_key b (length (cstr b)) = Some (key_ok (cstr b))"
  using valid_key_eq [of b "length (cstr b)"] by simp

lemma parse_ttl_eq:
  assumes "terminated b" and "n \<le> length (cstr b)"
  shows "parse_ttl b n = Some (ttl_of (take n (cstr b)))"
proof -
  let ?s = "take n (cstr b)"
  have n: "n \<le> length b" and tk: "take n b = ?s" and len: "length ?s = n"
    using assms length_cstr_less take_cstr by (fastforce, fastforce, simp)
  show ?thesis
  proof (cases "n \<noteq> 0 \<and> n \<le> 5 \<and> list_all isdigit ?s")
    case True
    then have digits: "\<forall>c\<in>set ?s. isdigit c" and ne: "?s \<noteq> []"
      using len by (auto simp: list_all_iff)
    have "strtol10 (?s @ [NUL]) = Some (digits_val ?s, n)"
      using strtol10_digits [OF ne digits] len True by simp
    moreover have "0 \<le> digits_val ?s" using digits_val_bounds [OF digits] by simp
    moreover have "memcpy 8 [] 0 b n = Some ?s" "write_at 8 ?s n NUL = Some (?s @ [NUL])"
      using True n tk len by (simp_all add: c_simps)
    moreover have "read_at (?s @ [NUL]) n = Some NUL"
      using len by (simp add: read_at_def nth_append)
    ultimately show ?thesis
      using True n tk ne len by (simp add: parse_ttl_def all_digits_eq ttl_of_def min_def)
  next
    case False
    then show ?thesis
      using n tk len by (auto simp: parse_ttl_def all_digits_eq ttl_of_def)
  qed
qed

lemma prefix_test:
  assumes "terminated line" and "NUL \<notin> set lit"
  obtains r where "strncmp line lit (length lit) = Some r" and "r = 0 \<longleftrightarrow> is_prefix lit (cstr line)"
  using strncmp_cstr [OF assms(1) order_refl assms(2)] by (auto simp: is_prefix_def)

text \<open>The rest of a line after one of the three verbs.\<close>

lemma after_prefix:
  assumes "terminated line" and "is_prefix lit (cstr line)"
  shows "terminated (drop (length lit) line)" and "cstr (drop (length lit) line) = drop (length lit) (cstr line)"
proof -
  have "length lit \<le> length (cstr line)"
    using assms(2) by (metis is_prefix_def length_take min.cobounded1)
  then show "terminated (drop (length lit) line)"
    and "cstr (drop (length lit) line) = drop (length lit) (cstr line)"
    using assms(1) terminated_drop cstr_drop by blast+
qed

lemma get_section_store_get:
  assumes "store_inv st" and "terminated key" and "key_ok (cstr key)"
  shows "\<exists>st' r. get_section now key st = Some (st', map_option (\<lambda>v. v @ [NUL]) r) \<and>
    store_get now (cstr key) st = Some (st', r) \<and> (\<forall>v. r = Some v \<longrightarrow> value_ok v)"
proof -
  obtain st' where 1: "get_section now key st = Some (st', map_option (\<lambda>v. v @ [NUL]) (view st now (cstr key)))"
    by (rule get_section_spec [OF assms(1,2)])
  have vok: "\<forall>v. view st now (cstr key) = Some v \<longrightarrow> value_ok v"
    using view_value_ok [OF assms(1)] by blast
  then have "map_option cstr (map_option (\<lambda>v. v @ [NUL]) (view st now (cstr key))) = view st now (cstr key)"
    by (cases "view st now (cstr key)") (auto simp: value_ok_cstr)
  then have "store_get now (cstr key) st = Some (st', view st now (cstr key))"
    using 1 get_section_cstr [OF assms(1,2)] by (simp add: store_get_def)
  with 1 vok show ?thesis by blast
qed

text \<open>When a prepared request is the one a decoded line asks for.\<close>

fun request_ok :: "request \<Rightarrow> (string, string) cmd option \<Rightarrow> bool" where
  "request_ok Raw_error dc \<longleftrightarrow> dc = None"
| "request_ok (Answer text) dc \<longleftrightarrow> dc = None \<and> text = ERROR_reply"
| "request_ok (Get_req key) dc \<longleftrightarrow> terminated key \<and> key_ok (cstr key) \<and> dc = Some (Get (cstr key))"
| "request_ok (Delete_req key) dc \<longleftrightarrow> terminated key \<and> key_ok (cstr key) \<and> dc = Some (Delete (cstr key))"
| "request_ok (Set_req key klen ttl value vn) dc \<longleftrightarrow>
     terminated key \<and> klen = length (cstr key) \<and> terminated value \<and> vn = length (cstr value) \<and>
     dc = Some (Set (cstr key) ttl (cstr value))"

lemma parse_get_eq:
  assumes "terminated key"
  shows "\<exists>rq. parse_get key = Some rq \<and> request_ok rq (if key_ok (cstr key) then Some (Get (cstr key)) else None)"
  using assms by (simp add: parse_get_def strlen_cstr valid_key_whole)

lemma parse_delete_eq:
  assumes "terminated key"
  shows "\<exists>rq. parse_delete key = Some rq \<and> request_ok rq (if key_ok (cstr key) then Some (Delete (cstr key)) else None)"
  using assms by (simp add: parse_delete_def strlen_cstr valid_key_whole)

text \<open>A field of a SET line: the bytes up to the next space, and what follows it.\<close>

lemma field_split:
  assumes p: "terminated p" and i: "find_index (\<lambda>c. c = CHR '' '') (cstr p) = Some i"
  shows "split_space (cstr p) = Some (take i (cstr p), cstr (drop (Suc i) p))"
    and "terminated (drop (Suc i) p)" and "i < length (cstr p)"
    and "set (cstr (drop (Suc i) p)) \<subseteq> set (cstr p)"
proof -
  show lt: "i < length (cstr p)" using find_index_Some_less [OF i] .
  then have c: "cstr (drop (Suc i) p) = drop (Suc i) (cstr p)"
    by (intro cstr_drop) simp
  show "split_space (cstr p) = Some (take i (cstr p), cstr (drop (Suc i) p))"
    by (simp add: split_space_def i c)
  show "terminated (drop (Suc i) p)"
    using p lt by (intro terminated_drop) auto
  show "set (cstr (drop (Suc i) p)) \<subseteq> set (cstr p)"
    unfolding c by (rule set_drop_subset)
qed

lemma no_field: "find_index (\<lambda>c. c = CHR '' '') s = None \<Longrightarrow> split_space s = None"
  by (simp add: split_space_def)

lemma copy_key:
  assumes "terminated p" and "n \<le> length (cstr p)" and "n \<le> KEY_MAX"
  shows "memcpy (Suc KEY_MAX) [] 0 p n = Some (take n (cstr p))"
    and "write_at (Suc KEY_MAX) (take n (cstr p)) n NUL = Some (take n (cstr p) @ [NUL])"
proof -
  have "n \<le> length p" using assms(1,2) length_cstr_less by fastforce
  then show "memcpy (Suc KEY_MAX) [] 0 p n = Some (take n (cstr p))"
    using assms(2,3) take_cstr by (simp add: memcpy_fresh)
  show "write_at (Suc KEY_MAX) (take n (cstr p)) n NUL = Some (take n (cstr p) @ [NUL])"
    using assms(2,3) by (simp add: write_at_append)
qed

lemma parse_set_eq:
  assumes p: "terminated p" and LF: "LF \<notin> set (cstr p)"
  shows "\<exists>rq. parse_set p = Some rq \<and> request_ok rq (decode_set (cstr p))"
proof (cases "find_index (\<lambda>c. c = CHR '' '') (cstr p)")
  case None
  then show ?thesis
    by (simp add: parse_set_def strchr_cstr [OF p] decode_set_def no_field)
next
  case klen: (Some klen)
  let ?k = "take klen (cstr p)" and ?ts = "drop (Suc klen) p"
  note f1 = field_split [OF p klen]
  have v1: "valid_key p klen = Some (key_ok ?k)"
    using valid_key_eq [OF p] f1(3) by simp
  show ?thesis
  proof (cases "key_ok ?k")
    case False
    then have "decode_set (cstr p) = None"
      by (auto simp: decode_set_def f1(1) bind_eq_None_conv)
    then show ?thesis
      using False by (simp add: parse_set_def strchr_cstr [OF p] klen v1)
  next
    case True
    then have "klen \<le> KEY_MAX" using f1(3) by (simp add: key_ok_def)
    then have key: "memcpy (Suc KEY_MAX) [] 0 p klen = Some ?k"
      "write_at (Suc KEY_MAX) ?k klen NUL = Some (?k @ [NUL])"
      using copy_key [OF p] f1(3) by simp_all
    show ?thesis
    proof (cases "find_index (\<lambda>c. c = CHR '' '') (cstr ?ts)")
      case None
      then have "decode_set (cstr p) = None"
        by (simp add: decode_set_def f1(1) no_field)
      then show ?thesis
        using None True by (simp add: parse_set_def strchr_cstr [OF p] klen v1 key
            strchr_cstr [OF f1(2)] Let_def)
    next
      case (Some tlen)
      let ?v = "drop (Suc tlen) ?ts"
      note f2 = field_split [OF f1(2) Some]
      have t: "parse_ttl ?ts tlen = Some (ttl_of (take tlen (cstr ?ts)))"
        using parse_ttl_eq [OF f1(2)] f2(3) by simp
      have LFv: "LF \<notin> set (cstr ?v)" using LF f1(4) f2(4) by blast
      have kc: "cstr (?k @ [NUL]) = ?k" using True by (rule key_ok_cstr)
      have vok: "value_ok (cstr ?v) \<longleftrightarrow> \<not> (length (cstr ?v) = 0 \<or> length (cstr ?v) > VALUE_MAX)"
        using LFv by (auto simp: value_ok_def)
      have dec: "decode_set (cstr p) = (case ttl_of (take tlen (cstr ?ts)) of None \<Rightarrow> None
        | Some ttl \<Rightarrow> if value_ok (cstr ?v) then Some (Set ?k ttl (cstr ?v)) else None)"
        using True by (simp add: decode_set_def f1(1) f2(1) split: option.split)
      have run: "parse_set p = (case ttl_of (take tlen (cstr ?ts)) of None \<Rightarrow> Some (Answer ERROR_reply)
        | Some ttl \<Rightarrow> Some (if value_ok (cstr ?v) then Set_req (?k @ [NUL]) klen ttl ?v (length (cstr ?v))
            else Answer ERROR_reply))"
        unfolding vok
        by (simp add: parse_set_def strchr_cstr [OF p] klen v1 True key strchr_cstr [OF f1(2)] Let_def
            Some t strlen_cstr [OF f2(2)] del: drop_drop split: option.split)
      show ?thesis
        unfolding run dec using kc f1(3) f2(2)
        by (cases "ttl_of (take tlen (cstr ?ts))") (simp_all del: drop_drop)
    qed
  qed
qed

lemma NUL_literals: "NUL \<notin> set ''GET ''" "NUL \<notin> set ''DELETE ''" "NUL \<notin> set ''SET ''"
  by simp_all

lemma parse_line_decode:
  assumes line: "terminated line" "LF \<notin> set (cstr line)"
  shows "\<exists>rq. parse_line line = Some rq \<and> request_ok rq (decode (cstr line))"
proof -
  have len: "length ''GET '' = 4" "length ''DELETE '' = 7" "length ''SET '' = 4"
    by simp_all
  obtain g where g: "strncmp line ''GET '' 4 = Some g" "g = 0 \<longleftrightarrow> is_prefix ''GET '' (cstr line)"
    using prefix_test [OF line(1), of "''GET ''"] len by (metis NUL_literals)
  obtain d where d: "strncmp line ''DELETE '' 7 = Some d" "d = 0 \<longleftrightarrow> is_prefix ''DELETE '' (cstr line)"
    using prefix_test [OF line(1), of "''DELETE ''"] len by (metis NUL_literals)
  obtain s where s: "strncmp line ''SET '' 4 = Some s" "s = 0 \<longleftrightarrow> is_prefix ''SET '' (cstr line)"
    using prefix_test [OF line(1), of "''SET ''"] len by (metis NUL_literals)
  have run: "parse_line line =
    (if is_prefix ''GET '' (cstr line) then parse_get (drop 4 line)
     else if is_prefix ''DELETE '' (cstr line) then parse_delete (drop 7 line)
     else if is_prefix ''SET '' (cstr line) then parse_set (drop 4 line)
     else Some (Answer ERROR_reply))"
    by (simp only: parse_line_def g d s Option.bind.bind_lunit)
  consider (get) "is_prefix ''GET '' (cstr line)"
    | (del) "\<not> is_prefix ''GET '' (cstr line)" "is_prefix ''DELETE '' (cstr line)"
    | (set) "\<not> is_prefix ''GET '' (cstr line)" "\<not> is_prefix ''DELETE '' (cstr line)" "is_prefix ''SET '' (cstr line)"
    | (other) "\<not> is_prefix ''GET '' (cstr line)" "\<not> is_prefix ''DELETE '' (cstr line)" "\<not> is_prefix ''SET '' (cstr line)"
    by blast
  then show ?thesis
  proof cases
    case get
    then show ?thesis
      using after_prefix [OF line(1) get, unfolded len] parse_get_eq [of "drop 4 line"] by (auto simp: run decode_def split: if_splits)
  next
    case del
    then show ?thesis
      using after_prefix [OF line(1) del(2), unfolded len] parse_delete_eq [of "drop 7 line"]
      by (auto simp: run decode_def split: if_splits)
  next
    case set
    moreover have "LF \<notin> set (drop 4 (cstr line))" using line(2) by (meson in_set_dropD)
    ultimately show ?thesis
      using after_prefix [OF line(1) set(3), unfolded len] parse_set_eq [of "drop 4 line"]
      by (simp add: run decode_def)
  qed (simp add: run decode_def)
qed

text \<open>The critical section of a prepared request is the command on the store.\<close>

lemma critical_section_exec:
  assumes inv: "store_inv st" and rq: "request_ok rq (Some c)"
  shows "critical_section now rq st =
    map_option (\<lambda>(st', r). (st', encode_reply r)) (exec_cmd store_get store_del store_set now c st)"
proof (cases rq)
  case (Get_req key)
  then have key: "terminated key" "key_ok (cstr key)" "c = Get (cstr key)" using rq by auto
  obtain st' r where "get_section now key st = Some (st', map_option (\<lambda>v. v @ [NUL]) r)"
    "store_get now (cstr key) st = Some (st', r)" "\<forall>v. r = Some v \<longrightarrow> value_ok v"
    using get_section_store_get [OF inv key(1,2)] by blast
  then show ?thesis
    using Get_req key by (cases r) (simp_all add: strlen_cstr value_ok_cstr)
next
  case (Delete_req key)
  then have key: "terminated key" "c = Delete (cstr key)" using rq by auto
  then show ?thesis
    using Delete_req delete_section_cstr [OF inv key(1)]
    by (cases "store_del now (cstr key) st") (auto split: if_split)
next
  case (Set_req key klen ttl val vn)
  then have "terminated key" "klen = length (cstr key)" "terminated val" "vn = length (cstr val)"
    "c = Set (cstr key) ttl (cstr val)"
    using rq by auto
  then show ?thesis
    using Set_req set_section_cstr [OF inv]
    by (cases "store_set now (cstr key) ttl (cstr val) st") (auto split: if_split)
qed (use rq in auto)

text \<open>The direct answer of \<open>handle_client\<close> and the one through \<open>send_reply\<close> are the same bytes.\<close>

lemma send_reply_short:
  assumes "length msg < VALUE_MAX + 32"
  shows "send_reply w msg = send_all w msg (length msg)"
proof -
  have b: "snprintf (VALUE_MAX + 32) msg = msg @ [NUL]"
    using assms by (simp add: snprintf_def)
  obtain as sent r where *: "send_loop (tx w) (length msg) 0 = (as, sent, r)"
    by (cases "send_loop (tx w) (length msg) 0")
  then have "sent \<le> length msg" using send_loop_sent [OF *] by simp
  then show ?thesis
    using assms * by (simp add: send_reply_def send_text_def b send_all_def)
qed

lemma reply_ERROR: "do { (w', r) \<leftarrow> send_all w ERROR_reply 6; Some (w', st, r) } = reply w st ERROR_reply"
  by (simp add: reply_def send_reply_short VALUE_MAX_def numeral_eq_Suc)

lemma run_request_cmd:
  assumes inv: "store_inv st" and rq: "request_ok rq dc"
  shows "run_request w st rq = run_cmd w st dc"
proof (cases dc)
  case None
  then show ?thesis using rq reply_ERROR by (cases rq) (auto simp: run_request_def run_cmd_def)
next
  case (Some c)
  have "run_request w st rq = at_now w st (\<lambda>w now. do {
          (st', text) \<leftarrow> critical_section now rq st;
          reply w st' text })"
    using rq Some by (cases rq) (simp_all add: run_request_def)
  also have "\<dots> = run_cmd w st dc"
    unfolding critical_section_exec [OF inv rq [unfolded Some]] Some run_cmd_def option.case
    by (rule arg_cong [where f = "at_now w st"], intro ext)
      (simp add: bind_map_option split_beta' comp_def)
  finally show ?thesis .
qed

lemma handle_line_decode:
  assumes "store_inv st" and "terminated line" and "LF \<notin> set (cstr line)"
  shows "handle_line w st line = run_cmd w st (decode (cstr line))"
  using parse_line_decode [OF assms(2,3)] run_request_cmd [OF assms(1)] by (auto simp: handle_line_def)

end
