(* ===== verification/Cache_Client.thy ===== *)
theory Cache_Client
  imports Cache_Protocol "HOL-Library.Sublist"
begin

text \<open>
  One connection of the cache: \<open>handle_client\<close> of \<^verbatim>\<open>in-mem-cache/server.c\<close>, which
  collects received chunks in \<open>pending\<close>, cuts complete lines out of it and passes them to
  \<open>handle_line\<close>. The lemmas show that the buffer handling stays within its arrays and that
  the replies depend on the lines received, not on how the network cut them into chunks.
\<close>

definition LINE_MAX :: nat where "LINE_MAX = 64 * 1024"
definition RECV_BUF :: nat where "RECV_BUF = 4096"

text \<open>
  The body of the inner loop for the line of \<open>linelen\<close> bytes at \<open>pending + processed\<close>: an
  embedded NUL or an empty line is answered with an error, a carriage return at the end is
  cut off, and everything else goes to \<open>handle_line\<close>. \<open>client_request\<close> is the part before
  the critical section and the reply; the result of \<open>client_line\<close> is the value the sending
  call returned.
\<close>

definition client_request :: "buf \<Rightarrow> nat \<Rightarrow> nat \<Rightarrow> request option" where
  "client_request pending processed linelen = do {
     line \<leftarrow> memcpy (LINE_MAX + 1) [] 0 (drop processed pending) linelen;
     nul \<leftarrow> memchr line 0 NUL linelen;
     if nul \<noteq> None then Some Raw_error
     else do {
       line \<leftarrow> write_at (LINE_MAX + 1) line linelen NUL;
       line \<leftarrow> (if linelen > 0 then do {
                  c \<leftarrow> read_at line (linelen - 1);
                  if c = CR then write_at (LINE_MAX + 1) line (linelen - 1) NUL else Some line
                } else Some line);
       c0 \<leftarrow> read_at line 0;
       if c0 = NUL then Some Raw_error else parse_line line
     }
   }"

definition client_line :: "io \<Rightarrow> store \<Rightarrow> buf \<Rightarrow> nat \<Rightarrow> nat \<Rightarrow> (io \<times> store \<times> int run) option" where
  "client_line w st pending processed linelen = do {
     rq \<leftarrow> client_request pending processed linelen;
     run_request w st rq
   }"

text \<open>
  The inner loop. It ends with \<open>Returned True\<close> when no newline is left in \<open>pending\<close>, and
  with \<open>Returned False\<close> when \<open>handle_client\<close> returns because a reply could not be sent.
\<close>

function process_lines :: "io \<Rightarrow> store \<Rightarrow> buf \<Rightarrow> nat \<Rightarrow> nat \<Rightarrow> (io \<times> store \<times> nat \<times> bool run) option" where
  "process_lines w st pending pending_len processed = do {
     nl \<leftarrow> memchr pending processed LF (pending_len - processed);
     (case nl of
        None \<Rightarrow> Some (w, st, processed, Returned True)
      | Some at \<Rightarrow> do {
          let linelen = at - processed;
          (w', st', r) \<leftarrow> client_line w st pending processed linelen;
          (case r of
             Blocked \<Rightarrow> Some (w', st', processed + linelen + 1, Blocked)
           | Returned v \<Rightarrow>
               if v \<noteq> 0 then Some (w', st', processed + linelen + 1, Returned False)
               else process_lines w' st' pending pending_len (processed + linelen + 1))
        })
   }"
  by pat_completeness auto
termination
proof (relation "measure (\<lambda>(w, st, pending, n, p). n - p)", goal_cases)
  case 1
  show ?case by simp
qed (auto simp: memchr_def dest!: find_index_Some_less split: if_splits)

declare process_lines.simps [simp del]

text \<open>
  The outer loop, over the answers of \<open>recv\<close>. \<open>Received []\<close> is the end of the stream, and
  \<open>recv\<close> fills at most \<open>RECV_BUF\<close> bytes.
\<close>

fun client_loop :: "recv_answer list \<Rightarrow> io \<Rightarrow> store \<Rightarrow> buf \<Rightarrow> nat \<Rightarrow> (io \<times> store \<times> unit run) option" where
  "client_loop [] w st pending pending_len = Some (w, st, Blocked)"
| "client_loop (Recv_error e # as) w st pending pending_len =
     (if e = EINTR then client_loop as w st pending pending_len else Some (w, st, Returned ()))"
| "client_loop (Received bs # as) w st pending pending_len =
     (let chunk = take RECV_BUF bs; n = length chunk
      in if n = 0 then Some (w, st, Returned ())
      else if pending_len + n > LINE_MAX then do {
        (w', r) \<leftarrow> send_all w ERROR_reply 6;
        Some (w', st, if r = Blocked then Blocked else Returned ())
      } else do {
        pending \<leftarrow> memcpy (LINE_MAX + 1) pending pending_len chunk n;
        let pending_len = pending_len + n;
        (w', st', processed, r) \<leftarrow> process_lines w st pending pending_len 0;
        (case r of
           Blocked \<Rightarrow> Some (w', st', Blocked)
         | Returned False \<Rightarrow> Some (w', st', Returned ())
         | Returned True \<Rightarrow> do {
             (pending, pending_len) \<leftarrow>
               (if processed > 0 then do {
                  pending \<leftarrow> memcpy (LINE_MAX + 1) pending 0 (drop processed pending) (pending_len - processed);
                  Some (pending, pending_len - processed)
                } else Some (pending, pending_len));
             if pending_len > LINE_MAX then do {
               (w', r) \<leftarrow> send_all w' ERROR_reply 6;
               Some (w', st', if r = Blocked then Blocked else Returned ())
             } else client_loop as w' st' pending pending_len
           })
      })"

definition handle_client :: "recv_answer list \<Rightarrow> io \<Rightarrow> store \<Rightarrow> (io \<times> store \<times> unit run) option" where
  "handle_client rx w st = client_loop rx w st [] 0"

section \<open>Specification\<close>

text \<open>The complete lines of a byte stream and the unfinished rest.\<close>

function lines_of :: "bytes \<Rightarrow> string list \<times> string" where
  "lines_of s =
     (case find_index (\<lambda>c. c = LF) s of
        None \<Rightarrow> ([], s)
      | Some i \<Rightarrow> (let (ls, r) = lines_of (drop (Suc i) s) in (take i s # ls, r)))"
  by pat_completeness auto
termination
  by (relation "measure length") (auto dest!: find_index_Some_less)

declare lines_of.simps [simp del]

definition strip_cr :: "string \<Rightarrow> string" where
  "strip_cr l = (if l \<noteq> [] \<and> last l = CR then butlast l else l)"

definition decode_line :: "string \<Rightarrow> (string, string) cmd option" where
  "decode_line l = (if NUL \<in> set l then None else decode (strip_cr l))"

fun run_lines :: "io \<Rightarrow> store \<Rightarrow> string list \<Rightarrow> (io \<times> store \<times> bool run) option" where
  "run_lines w st [] = Some (w, st, Returned True)"
| "run_lines w st (l # ls) = do {
     (w', st', r) \<leftarrow> run_cmd w st (decode_line l);
     (case r of
        Blocked \<Rightarrow> Some (w', st', Blocked)
      | Returned v \<Rightarrow> if v \<noteq> 0 then Some (w', st', Returned False) else run_lines w' st' ls)
   }"

text \<open>The connection as the specification sees it: the unfinished line is all it remembers.\<close>

fun client_spec :: "recv_answer list \<Rightarrow> io \<Rightarrow> store \<Rightarrow> string \<Rightarrow> (io \<times> store \<times> unit run) option" where
  "client_spec [] w st p = Some (w, st, Blocked)"
| "client_spec (Recv_error e # as) w st p =
     (if e = EINTR then client_spec as w st p else Some (w, st, Returned ()))"
| "client_spec (Received bs # as) w st p =
     (let chunk = take RECV_BUF bs
      in if chunk = [] then Some (w, st, Returned ())
      else if length p + length chunk > LINE_MAX then do {
        (w', st', r) \<leftarrow> reply w st ERROR_reply;
        Some (w', st', if r = Blocked then Blocked else Returned ())
      } else do {
        let (ls, p') = lines_of (p @ chunk);
        (w', st', r) \<leftarrow> run_lines w st ls;
        (case r of
           Blocked \<Rightarrow> Some (w', st', Blocked)
         | Returned False \<Rightarrow> Some (w', st', Returned ())
         | Returned True \<Rightarrow> client_spec as w' st' p')
      })"

section \<open>Facts\<close>

subsection \<open>Replies\<close>

lemma reply_Some:
  assumes "length msg < VALUE_MAX + 32"
  obtains as n r where "reply w st msg = Some (w\<lparr>tx := as, out := out w @ take n msg\<rparr>, st, r)"
    and "n \<le> length msg" and "r = Returned 0 \<longleftrightarrow> n = length msg"
    and "r = Returned 0 \<or> r = Returned (- 1) \<or> r = Blocked"
proof -
  obtain as n r where "send_all w msg (length msg) = Some (w\<lparr>tx := as, out := out w @ take n msg\<rparr>, r)"
    "n \<le> length msg" "r = Returned 0 \<longleftrightarrow> n = length msg"
    "r = Returned 0 \<or> r = Returned (- 1) \<or> r = Blocked"
    by (rule send_all_spec [of "length msg" msg w]) auto
  then show thesis
    using that [where as = as and n = n and r = r] assms by (simp add: reply_def send_reply_short)
qed

text \<open>No reply is cut by the buffer of \<open>send_reply\<close>.\<close>

lemma length_VALUE_reply: "value_ok v \<Longrightarrow> length (VALUE_reply v) < VALUE_MAX + 32"
  by (simp add: VALUE_reply_def value_ok_def)

subsection \<open>One line\<close>

lemma strip_cr_subset: "set (strip_cr l) \<subseteq> set l"
  by (auto simp: strip_cr_def dest: in_set_butlastD)

lemma decode_Nil: "decode [] = None"
  by (simp add: decode_def is_prefix_def)

lemma client_request_eq:
  assumes line: "take n (drop p pending) = l" "length l = n" "n \<le> LINE_MAX"
    and LF: "LF \<notin> set l" and p: "p + n \<le> length pending"
  shows "\<exists>rq. client_request pending p n = Some rq \<and> request_ok rq (decode_line l)"
proof -
  have cpy: "memcpy (LINE_MAX + 1) [] 0 (drop p pending) n = Some l"
    using line p by (simp add: memcpy_fresh)
  have nul: "memchr l 0 NUL n = Some (find_index (\<lambda>x. x = NUL) l)"
    using line by (cases "find_index (\<lambda>x. x = NUL) l") (simp_all add: memchr_in)
  show ?thesis
  proof (cases "NUL \<in> set l")
    case True
    then have "find_index (\<lambda>x. x = NUL) l \<noteq> None" by (simp add: find_index_eq_None)
    then show ?thesis
      using cpy nul True by (simp add: client_request_def decode_line_def)
  next
    case noNUL: False
    then have none: "find_index (\<lambda>x. x = NUL) l = None" by (simp add: find_index_eq_None)
    have trm: "write_at (LINE_MAX + 1) l n NUL = Some (l @ [NUL])"
      using line by (simp add: write_at_append)
    define line' where "line' = (if l \<noteq> [] \<and> last l = CR then butlast l @ [NUL, NUL] else l @ [NUL])"
    have cut: "(if n > 0 then do {
          c \<leftarrow> read_at (l @ [NUL]) (n - 1);
          if c = CR then write_at (LINE_MAX + 1) (l @ [NUL]) (n - 1) NUL else Some (l @ [NUL])
        } else Some (l @ [NUL])) = Some line'"
    proof (cases "l = []")
      case False
      then have n: "0 < n" and lst: "(l @ [NUL]) ! (n - 1) = last l"
        using line(2) by (auto simp: nth_append last_conv_nth)
      have upd: "(l @ [NUL])[n - 1 := NUL] = butlast l @ [NUL, NUL]"
        using False line(2) by (cases l rule: rev_cases) (auto simp: list_update_append)
      show ?thesis
        using n lst upd line(2,3) False by (simp add: line'_def read_at_less write_at_update)
    qed (use line in \<open>simp add: line'_def\<close>)
    have c: "cstr line' = strip_cr l" "terminated line'" "line' \<noteq> []"
      using noNUL in_set_butlastD [of NUL l] cstr_append [of l "[]"] cstr_append [of "butlast l" "[NUL]"]
      by (auto simp: line'_def strip_cr_def terminated_def)
    have c0: "read_at line' 0 = Some (line' ! 0)" "line' ! 0 = NUL \<longleftrightarrow> strip_cr l = []"
      using c by (auto simp: read_at_def cstr_def [of line'] takeWhile_eq_Nil_iff hd_conv_nth
          simp flip: c(1))
    have dl: "decode_line l = decode (strip_cr l)"
      using noNUL by (simp add: decode_line_def)
    show ?thesis
    proof (cases "strip_cr l = []")
      case True
      then show ?thesis
        using cpy nul none trm cut c0 dl by (simp add: client_request_def decode_Nil)
    next
      case False
      have "\<exists>rq. parse_line line' = Some rq \<and> request_ok rq (decode (cstr line'))"
        using parse_line_decode [OF c(2)] c(1) LF strip_cr_subset [of l] by auto
      then show ?thesis
        using cpy nul none trm cut c0 dl c(1) False by (simp add: client_request_def)
    qed
  qed
qed

lemma client_line_eq:
  assumes "store_inv st" and "take n (drop p pending) = l" and "length l = n" and "n \<le> LINE_MAX"
    and "LF \<notin> set l" and "p + n \<le> length pending"
  shows "client_line w st pending p n = run_cmd w st (decode_line l)"
  using client_request_eq [OF assms(2-6)] run_request_cmd [OF assms(1)] by (auto simp: client_line_def)

subsection \<open>Commands keep the invariant and never go wrong\<close>

definition clocks_ok :: "io \<Rightarrow> bool" where
  "clocks_ok w \<longleftrightarrow> (\<forall>ts\<in>set (clk w). clock_ok ts)"

lemma ttl_of_ok: "ttl_of s = Some t \<Longrightarrow> ttl_ok t"
  using digits_val_bounds [of s] by (auto simp: ttl_of_def ttl_ok_def list_all_iff split: if_splits)

lemma decode_cmd_ok: "decode s = Some c \<Longrightarrow> cmd_ok key_ok ttl_ok value_ok c"
  by (auto simp: decode_def decode_set_def bind_eq_Some_conv dest: ttl_of_ok split: if_splits)

lemma decode_line_cmd_ok: "decode_line l = Some c \<Longrightarrow> cmd_ok key_ok ttl_ok value_ok c"
  by (auto simp: decode_line_def dest: decode_cmd_ok split: if_splits)

lemma reply_short: "reply w st msg = Some (w', st', r) \<Longrightarrow> st' = st \<and> clk w' = clk w"
  by (auto simp: reply_def send_reply_def send_text_def send_all_def Let_def bind_eq_Some_conv
      split: if_splits prod.splits)

text \<open>
  One command: the store is transformed as the critical section says, and the reply is
  handed to the kernel; \<open>Blocked\<close> when the clock has not answered.
\<close>

lemma run_cmd_None: "run_cmd w st None = reply w st ERROR_reply"
  by (simp add: run_cmd_def)

lemma length_encode_reply:
  "\<forall>v. r = Value v \<longrightarrow> value_ok v \<Longrightarrow> length (encode_reply r) < VALUE_MAX + 32"
  using length_VALUE_reply by (cases r) auto

lemma reply_total:
  "length msg < VALUE_MAX + 32 \<Longrightarrow> \<exists>w' r. reply w st msg = Some (w', st, r) \<and> clk w' = clk w"
  by (rule reply_Some [of msg w st]) auto

lemma exec_cmd_ok:
  assumes inv: "store_inv st" and now: "time_ok now" and c: "cmd_ok key_ok ttl_ok value_ok c"
  obtains st' r where "exec_cmd store_get store_del store_set now c st = Some (st', r)"
    and "store_inv st'" and "length (encode_reply r) < VALUE_MAX + 32"
proof (cases c)
  case (Get k)
  then obtain st' where "store_get now k st = Some (st', view st now k)" "store_inv st'"
    using cstore.get_law [OF inv, of k now] c by auto
  moreover have "length (encode_reply (case view st now k of None \<Rightarrow> Not_Found | Some v \<Rightarrow> Value v)) < VALUE_MAX + 32"
    using view_value_ok [OF inv, of now k] by (intro length_encode_reply) (auto split: option.splits)
  ultimately show thesis using that Get by simp
next
  case (Delete k)
  then show thesis
    using that cstore.del_law [OF inv, of k now] c by (fastforce intro: length_encode_reply)
next
  case (Set k ttl v)
  then obtain st' b where "store_set now k ttl v st = Some (st', b)" "store_inv st'"
    using cstore.set_law [OF inv, of k ttl v now] c now by auto
  then show thesis
    using that [of st' "if b then Stored else Full"] Set by (simp add: VALUE_MAX_def)
qed

lemma run_cmd_ok:
  assumes inv: "store_inv st" and w: "clocks_ok w" and c: "\<And>c. dc = Some c \<Longrightarrow> cmd_ok key_ok ttl_ok value_ok c"
  obtains w' st' r where "run_cmd w st dc = Some (w', st', r)" and "store_inv st'" and "clocks_ok w'"
proof (cases dc)
  case None
  obtain w' r where "reply w st ERROR_reply = Some (w', st, r)" "clk w' = clk w"
    using reply_total [of ERROR_reply w st] by auto
  then show thesis using that None inv w by (simp add: run_cmd_None clocks_ok_def)
next
  case (Some c)
  show thesis
  proof (cases "clk w")
    case Nil
    then show thesis using that Some inv w by (simp add: run_cmd_def at_now_def)
  next
    case (Cons ts tss)
    then obtain now where now: "now_ms ts = Some now" "time_ok now"
      using now_ms_clock_ok w by (auto simp: clocks_ok_def)
    obtain st' r where e: "exec_cmd store_get store_del store_set now c st = Some (st', r)" "store_inv st'"
      "length (encode_reply r) < VALUE_MAX + 32"
      by (rule exec_cmd_ok [OF inv now(2) assms(3) [OF Some]])
    obtain w' x where "reply (w\<lparr>clk := tss\<rparr>) st' (encode_reply r) = Some (w', st', x)" "clk w' = tss"
      using reply_total [OF e(3), of "w\<lparr>clk := tss\<rparr>" st'] by auto
    then show thesis
      using that Some Cons now e(1,2) w by (simp add: run_cmd_def at_now_def clocks_ok_def)
  qed
qed

subsection \<open>Cutting lines out of the buffer\<close>

lemma lines_of_no_LF: "LF \<notin> set s \<Longrightarrow> lines_of s = ([], s)"
  by (simp add: lines_of.simps [of s] find_index_eq_None [THEN iffD2])

lemma lines_of_LF: "LF \<notin> set l \<Longrightarrow> lines_of (l @ LF # s) = (l # fst (lines_of s), snd (lines_of s))"
  by (simp add: lines_of.simps [of "l @ LF # s"] find_index_append_first split: prod.split)

lemma split_at_LF:
  assumes "LF \<in> set s"
  obtains l r where "s = l @ LF # r" and "LF \<notin> set l"
  using assms by (meson split_list_first)

lemma lines_of_induct [case_names rest line]:
  assumes "\<And>s. LF \<notin> set s \<Longrightarrow> P s" and "\<And>l s. LF \<notin> set l \<Longrightarrow> P s \<Longrightarrow> P (l @ LF # s)"
  shows "P s"
proof (induction s rule: length_induct)
  case (1 s)
  show ?case
  proof (cases "LF \<in> set s")
    case True
    then obtain l r where "s = l @ LF # r" "LF \<notin> set l" by (rule split_at_LF)
    with 1 assms(2) show ?thesis by simp
  qed (rule assms(1))
qed

lemma lines_of_rest: "LF \<notin> set (snd (lines_of s)) \<and> suffix (snd (lines_of s)) s"
proof (induction s rule: lines_of_induct)
  case (rest s)
  then show ?case by (simp add: lines_of_no_LF)
next
  case (line l s)
  then show ?case by (simp add: lines_of_LF suffix_def) (metis append_Cons append_assoc)
qed

lemma lines_of_append: "lines_of (s @ t) =
  (fst (lines_of s) @ fst (lines_of (snd (lines_of s) @ t)), snd (lines_of (snd (lines_of s) @ t)))"
proof (induction s rule: lines_of_induct)
  case (rest s)
  then show ?case by (simp add: lines_of_no_LF)
next
  case (line l s)
  then show ?case by (simp add: lines_of_LF)
qed

lemma run_lines_append:
  "run_lines w st (ls @ ms) = do {
     (w', st', r) \<leftarrow> run_lines w st ls;
     if r = Returned True then run_lines w' st' ms else Some (w', st', r)
   }"
proof (induction ls arbitrary: w st)
  case (Cons l ls)
  show ?case
    by (cases "run_cmd w st (decode_line l)") (auto simp: Cons split: run.split)
qed simp

lemma run_lines_ok:
  assumes "store_inv st" and "clocks_ok w"
  obtains w' st' r where "run_lines w st ls = Some (w', st', r)" and "store_inv st'" and "clocks_ok w'"
  using assms
proof (induction ls arbitrary: w st thesis)
  case (Cons l ls)
  obtain w1 st1 r1 where 1: "run_cmd w st (decode_line l) = Some (w1, st1, r1)" "store_inv st1" "clocks_ok w1"
    by (rule run_cmd_ok [OF Cons.prems(2,3) decode_line_cmd_ok])
  obtain w2 st2 r2 where 2: "run_lines w1 st1 ls = Some (w2, st2, r2)" "store_inv st2" "clocks_ok w2"
    using Cons.IH [OF _ 1(2,3)] by blast
  show ?case
  proof (cases "r1 = Returned 0")
    case True
    then show ?thesis using Cons.prems(1) [of w2 st2 r2] 1 2 by simp
  next
    case False
    then show ?thesis
      using Cons.prems(1) [of w1 st1 "if r1 = Blocked then Blocked else Returned False"] 1 by (cases r1) simp_all
  qed
qed simp

text \<open>The inner loop runs the complete lines of the segment it is given and stops at its rest.\<close>

lemma process_lines_eq:
  assumes "store_inv st" and "clocks_ok w" and "p \<le> n" and "n \<le> length pending" and "n \<le> LINE_MAX"
    and "take (n - p) (drop p pending) = seg"
  shows "\<exists>w' st' p' r. process_lines w st pending n p = Some (w', st', p', r) \<and>
    run_lines w st (fst (lines_of seg)) = Some (w', st', r) \<and>
    (r = Returned True \<longrightarrow> p' = n - length (snd (lines_of seg)))"
  using assms
proof (induction seg arbitrary: w st p rule: lines_of_induct)
  case (rest s)
  have len: "length s = n - p" using rest.prems by auto
  have "memchr pending p LF (n - p) = Some None"
    using rest by (simp add: memchr_in find_index_eq_None)
  then show ?case
    using rest len by (simp add: process_lines.simps [of w st pending n p] lines_of_no_LF)
next
  case (line l s)
  let ?k = "length l"
  have len: "?k + Suc (length s) = n - p"
    using line.prems by (metis add_Suc_right length_Cons length_append length_drop length_take
        min.absorb2 diff_le_mono)
  have seg: "drop p pending = l @ LF # s @ drop (n - p) (drop p pending)"
    using line.prems(6) by (metis append.assoc append_Cons append_take_drop_id)
  have nl: "memchr pending p LF (n - p) = Some (Some (p + ?k))"
    using line by (simp add: memchr_in find_index_append_first)
  have tk: "take ?k (drop p pending) = l" by (subst seg) simp
  have eq: "client_line w st pending p ?k = run_cmd w st (decode_line l)"
    using client_line_eq [OF line.prems(1) tk refl] line len by simp
  obtain w1 st1 r1 where 1: "run_cmd w st (decode_line l) = Some (w1, st1, r1)" "store_inv st1" "clocks_ok w1"
    by (rule run_cmd_ok [OF line.prems(1,2) decode_line_cmd_ok])
  have nxt: "take (n - (p + ?k + 1)) (drop (p + ?k + 1) pending) = s"
  proof -
    have "drop (p + ?k + 1) pending = drop (?k + 1) (drop p pending)" by (simp add: ac_simps)
    also have "\<dots> = s @ drop (n - p) (drop p pending)" by (subst seg) simp
    finally show ?thesis using len by (simp add: algebra_simps)
  qed
  have le: "p + ?k + 1 \<le> n" using len line.prems(3) by simp
  show ?case
  proof (cases "r1 = Returned 0")
    case True
    obtain w2 st2 p2 r2 where 2: "process_lines w1 st1 pending n (p + ?k + 1) = Some (w2, st2, p2, r2)"
      "run_lines w1 st1 (fst (lines_of s)) = Some (w2, st2, r2)"
      "r2 = Returned True \<longrightarrow> p2 = n - length (snd (lines_of s))"
      using line.IH [OF 1(2,3) le line.prems(4,5) nxt] by blast
    then show ?thesis
      using True nl eq 1(1) line.hyps
      by (simp add: process_lines.simps [of w st pending n p] lines_of_LF)
  next
    case False
    then show ?thesis
      using nl eq 1(1) line.hyps
      by (cases r1) (simp_all add: process_lines.simps [of w st pending n p] lines_of_LF)
  qed
qed

text \<open>One chunk that fits: what is left in the buffer is the unfinished line.\<close>

lemma client_chunk:
  assumes inv: "store_inv st" "clocks_ok w" and pend: "take n pending = p" "n \<le> length pending"
    "n \<le> LINE_MAX" "length pending \<le> LINE_MAX" "LF \<notin> set p" and len: "length p = n"
    and c: "c = take RECV_BUF bs" and fits: "\<not> (c = [] \<or> n + length c > LINE_MAX)"
    and IH: "\<And>w st pending n p. store_inv st \<Longrightarrow> clocks_ok w \<Longrightarrow> take n pending = p \<Longrightarrow>
      n \<le> length pending \<Longrightarrow> n \<le> LINE_MAX \<Longrightarrow> length pending \<le> LINE_MAX \<Longrightarrow> LF \<notin> set p \<Longrightarrow>
      client_loop as w st pending n = client_spec as w st p"
  shows "client_loop (Received bs # as) w st pending n = client_spec (Received bs # as) w st p"
proof -
  let ?n = "n + length c"
  define pend' where "pend' = p @ c @ drop ?n pending"
  have cpy: "memcpy (LINE_MAX + 1) pending n c (length c) = Some pend'"
    using pend fits by (simp add: memcpy_def pend'_def)
  have seg: "take ?n pend' = p @ c" and lp: "?n \<le> length pend'" "length pend' \<le> LINE_MAX"
    using len fits pend(4) by (auto simp: pend'_def)
  obtain w' st' p' r where run: "process_lines w st pend' ?n 0 = Some (w', st', p', r)"
    "run_lines w st (fst (lines_of (p @ c))) = Some (w', st', r)"
    "r = Returned True \<longrightarrow> p' = ?n - length (snd (lines_of (p @ c)))"
    using process_lines_eq [OF inv, of 0 ?n pend' "p @ c"] lp seg fits by auto
  have ok: "store_inv st'" "clocks_ok w'"
    using run_lines_ok [OF inv, of "fst (lines_of (p @ c))"] run(2) by auto
  let ?rest = "snd (lines_of (p @ c))"
  have unf: "client_loop (Received bs # as) w st pending n =
    (case r of
       Blocked \<Rightarrow> Some (w', st', Blocked)
     | Returned False \<Rightarrow> Some (w', st', Returned ())
     | Returned True \<Rightarrow> do {
         (pd, pl) \<leftarrow> (if p' > 0 then do {
             pd \<leftarrow> memcpy (LINE_MAX + 1) pend' 0 (drop p' pend') (?n - p');
             Some (pd, ?n - p')
           } else Some (pend', ?n));
         if pl > LINE_MAX then do {
           (w', r) \<leftarrow> send_all w' ERROR_reply 6;
           Some (w', st', if r = Blocked then Blocked else Returned ())
         } else client_loop as w' st' pd pl
       })"
    using fits run(1) cpy by (simp add: Let_def c [symmetric])
  have rest: "client_loop (Received bs # as) w st pending n =
    (case r of
       Blocked \<Rightarrow> Some (w', st', Blocked)
     | Returned False \<Rightarrow> Some (w', st', Returned ())
     | Returned True \<Rightarrow> client_spec as w' st' ?rest)"
  proof (cases "r = Returned True")
    case True
    have suf: "suffix ?rest (p @ c)" "LF \<notin> set ?rest" using lines_of_rest [of "p @ c"] by auto
    have le: "length ?rest \<le> ?n" using suffix_length_le [OF suf(1)] len by simp
    have p': "p' = ?n - length ?rest" using run(3) True by simp
    obtain zs where zs: "p @ c = zs @ ?rest" using suf(1) by (auto simp: suffix_def)
    then have zl: "length zs = p'" using p' len by (metis add_diff_cancel_right' length_append)
    have "pend' = zs @ ?rest @ drop ?n pending"
      unfolding pend'_def using zs by (metis append.assoc)
    then have dr: "drop p' pend' = ?rest @ drop ?n pending"
      using zl by (metis append_eq_conv_conj)
    let ?pend2 = "?rest @ drop (length ?rest) pend'"
    have mv: "memcpy (LINE_MAX + 1) pend' 0 (drop p' pend') (?n - p') = Some ?pend2"
      using dr p' le lp fits by (simp add: memcpy_def)
    have "client_loop as w' st' ?pend2 (length ?rest) = client_spec as w' st' ?rest"
      using IH [OF ok, of "length ?rest" ?pend2 ?rest] le lp suf(2) fits by simp
    moreover have "client_loop as w' st' pend' ?n = client_spec as w' st' ?rest" if "p' = 0"
    proof -
      have "?rest = p @ c" using zs zl that by simp
      then show ?thesis using IH [OF ok seg lp(1) _ lp(2)] suf(2) fits by simp
    qed
    ultimately show ?thesis
      unfolding unf using True fits mv p' le by (cases "p' = 0") simp_all
  next
    case False
    then show ?thesis unfolding unf by (simp split: run.split bool.split)
  qed
  show ?thesis
    unfolding rest using fits run(2) len by (simp add: Let_def c [symmetric] case_prod_beta)
qed

text \<open>The whole connection.\<close>

lemma client_loop_eq:
  assumes "store_inv st" and "clocks_ok w" and "take n pending = p" and "n \<le> length pending"
    and "n \<le> LINE_MAX" and "length pending \<le> LINE_MAX" and "LF \<notin> set p"
  shows "client_loop rx w st pending n = client_spec rx w st p"
  using assms
proof (induction rx arbitrary: w st pending n p)
  case (Cons a as)
  have len: "length p = n" using Cons.prems by auto
  show ?case
  proof (cases a)
    case (Recv_error e)
    then show ?thesis using Cons.IH [OF Cons.prems] by simp
  next
    case (Received bs)
    let ?c = "take RECV_BUF bs"
    show ?thesis
    proof (cases "?c = [] \<or> n + length ?c > LINE_MAX")
      case True
      obtain w1 r1 where "send_all w ERROR_reply 6 = Some (w1, r1)"
        using reply_total [of ERROR_reply w st] reply_ERROR [of w st] by (auto simp: bind_eq_Some_conv)
      moreover have "reply w st ERROR_reply = Some (w1, st, r1)"
        using calculation reply_ERROR [of w st] by simp
      ultimately show ?thesis
        using True len Received by (cases "?c = []") (simp_all add: Let_def del: take_eq_Nil)
    next
      case False
      then show ?thesis
        using client_chunk [OF Cons.prems len _ _ Cons.IH] Received by simp
    qed
  qed
qed simp

lemma handle_client_eq:
  "store_inv st \<Longrightarrow> clocks_ok w \<Longrightarrow> handle_client rx w st = client_spec rx w st []"
  by (simp add: handle_client_def client_loop_eq)

lemma client_spec_ok:
  "store_inv st \<Longrightarrow> clocks_ok w \<Longrightarrow> \<exists>w' st' r. client_spec rx w st p = Some (w', st', r) \<and> store_inv st'"
proof (induction rx arbitrary: w st p)
  case (Cons a as)
  show ?case
  proof (cases a)
    case (Received bs)
    let ?c = "take RECV_BUF bs"
    obtain w1 r1 where 1: "reply w st ERROR_reply = Some (w1, st, r1)"
      using reply_total [of ERROR_reply w st] by auto
    obtain w2 st2 r2 where 2: "run_lines w st (fst (lines_of (p @ ?c))) = Some (w2, st2, r2)"
      "store_inv st2" "clocks_ok w2"
      by (rule run_lines_ok [OF Cons.prems])
    show ?thesis
      using Received Cons.prems 1 2 Cons.IH [OF 2(2,3)]
      by (auto simp: Let_def case_prod_beta split: run.split bool.split)
  qed (use Cons in auto)
qed simp

section \<open>Chunks do not matter\<close>

text \<open>
  Lines short enough that a chunk never overflows \<open>pending\<close>: one line and one chunk fit
  together.
\<close>

definition short_lines :: "bytes \<Rightarrow> bool" where
  "short_lines s \<longleftrightarrow> (\<forall>l\<in>set (snd (lines_of s) # fst (lines_of s)). length l + RECV_BUF \<le> LINE_MAX)"

lemma length_partial_line:
  assumes "LF \<notin> set p" and "short_lines (p @ s)"
  shows "length p + RECV_BUF \<le> LINE_MAX"
proof (cases "LF \<in> set s")
  case True
  then obtain l r where s: "s = l @ LF # r" "LF \<notin> set l" by (rule split_at_LF)
  then have "lines_of (p @ s) = ((p @ l) # fst (lines_of r), snd (lines_of r))"
    using lines_of_LF [of "p @ l" r] assms(1) by simp
  then show ?thesis using assms(2) by (simp add: short_lines_def)
next
  case False
  then show ?thesis using assms lines_of_no_LF [of "p @ s"] by (simp add: short_lines_def)
qed

definition finish :: "(io \<times> store \<times> bool run) option \<Rightarrow> (io \<times> store \<times> unit run) option" where
  "finish = map_option (\<lambda>(w, st, r). (w, st, if r = Returned False then Returned () else Blocked))"

lemma client_spec_short:
  assumes "\<forall>c\<in>set cs. c \<noteq> [] \<and> length c \<le> RECV_BUF" and "LF \<notin> set p" and "short_lines (p @ concat cs)"
  shows "client_spec (map Received cs @ rx) w st p =
    do { (w', st', r) \<leftarrow> run_lines w st (fst (lines_of (p @ concat cs)));
         (case r of Blocked \<Rightarrow> Some (w', st', Blocked)
          | Returned False \<Rightarrow> Some (w', st', Returned ())
          | Returned True \<Rightarrow> client_spec rx w' st' (snd (lines_of (p @ concat cs)))) }"
  using assms
proof (induction cs arbitrary: w st p)
  case Nil
  then show ?case by (simp add: lines_of_no_LF)
next
  case (Cons c cs)
  let ?r = "snd (lines_of (p @ c))"
  have LFr: "LF \<notin> set ?r" using lines_of_rest by blast
  have split: "lines_of (p @ c @ concat cs) = (fst (lines_of (p @ c)) @ fst (lines_of (?r @ concat cs)),
    snd (lines_of (?r @ concat cs)))"
    using lines_of_append [of "p @ c" "concat cs"] by simp
  have short: "short_lines (?r @ concat cs)"
    using Cons.prems(3) by (auto simp: short_lines_def split)
  have "length p + length c \<le> LINE_MAX"
    using length_partial_line [OF Cons.prems(2), of "c @ concat cs"] Cons.prems(1,3) by simp
  moreover have "c \<noteq> []" "take RECV_BUF c = c" using Cons.prems(1) by auto
  ultimately have "client_spec (map Received (c # cs) @ rx) w st p =
    do { (w', st', r) \<leftarrow> run_lines w st (fst (lines_of (p @ c)));
         (case r of Blocked \<Rightarrow> Some (w', st', Blocked)
          | Returned False \<Rightarrow> Some (w', st', Returned ())
          | Returned True \<Rightarrow> client_spec (map Received cs @ rx) w' st' ?r) }"
    by (simp add: case_prod_beta)
  then show ?case
    using Cons.IH [OF _ LFr short] Cons.prems(1)
    by (cases "run_lines w st (fst (lines_of (p @ c)))")
      (auto simp: split run_lines_append split: run.split bool.split)
qed

lemma client_spec_chunks:
  assumes "\<forall>c\<in>set cs. c \<noteq> [] \<and> length c \<le> RECV_BUF" and "LF \<notin> set p" and "short_lines (p @ concat cs)"
  shows "client_spec (map Received cs) w st p = finish (run_lines w st (fst (lines_of (p @ concat cs))))"
  using client_spec_short [OF assms, of "[]" w st]
  by (cases "run_lines w st (fst (lines_of (p @ concat cs)))") (auto simp: finish_def split: run.split bool.split)

text \<open>A line in progress is only remembered, as long as it fits.\<close>

lemma client_spec_unfinished:
  assumes "\<forall>c\<in>set cs. c \<noteq> [] \<and> length c \<le> RECV_BUF" and "LF \<notin> set (p @ concat cs)"
    and "length (p @ concat cs) \<le> LINE_MAX"
  shows "client_spec (map Received cs @ rx) w st p = client_spec rx w st (p @ concat cs)"
  using assms
proof (induction cs arbitrary: p)
  case (Cons c cs)
  have "lines_of (p @ c) = ([], p @ c)" using Cons.prems(2) by (intro lines_of_no_LF) auto
  moreover have "take RECV_BUF c = c" "c \<noteq> []" "length p + length c \<le> LINE_MAX" using Cons.prems(1,3) by auto
  ultimately have "client_spec (map Received (c # cs) @ rx) w st p = client_spec (map Received cs @ rx) w st (p @ c)"
    by simp
  then show ?case using Cons.IH [of "p @ c"] Cons.prems by simp
qed simp

text \<open>The two-phase form of a line's handling is the code's: its own errors, and \<open>handle_line\<close>.\<close>

lemma client_line_source:
  "client_line w st pending processed linelen = do {
     line \<leftarrow> memcpy (LINE_MAX + 1) [] 0 (drop processed pending) linelen;
     nul \<leftarrow> memchr line 0 NUL linelen;
     if nul \<noteq> None then do { (w', r) \<leftarrow> send_all w ERROR_reply 6; Some (w', st, r) }
     else do {
       line \<leftarrow> write_at (LINE_MAX + 1) line linelen NUL;
       line \<leftarrow> (if linelen > 0 then do {
                  c \<leftarrow> read_at line (linelen - 1);
                  if c = CR then write_at (LINE_MAX + 1) line (linelen - 1) NUL else Some line
                } else Some line);
       c0 \<leftarrow> read_at line 0;
       if c0 = NUL then do { (w', r) \<leftarrow> send_all w ERROR_reply 6; Some (w', st, r) }
       else handle_line w st line
     }
   }"
  by (auto simp: client_line_def client_request_def handle_line_def run_request_def intro!: Option.bind_cong)

end
