(* ===== verification/Cache_Session.thy ===== *)
theory Cache_Session
  imports Cache_Client
begin

text \<open>
  A whole connection against the abstract cache. \<open>session\<close> is the reply stream the
  abstract machine of \<open>Cache_Interface\<close> produces for a list of lines, each well-formed
  command taking the next reading of the clock. The lemmas relate it to \<open>run_lines\<close>, and
  through \<open>handle_client_eq\<close> to the C code.
\<close>

type_synonym cache_map = "(string, string) amap"

fun session :: "int list \<Rightarrow> (string, string) cmd option list \<Rightarrow> cache_map \<Rightarrow> cache_map \<times> string list" where
  "session ts [] m = (m, [])"
| "session ts (None # cs) m = (let (m', rs) = session ts cs m in (m', ERROR_reply # rs))"
| "session (t # ts) (Some c # cs) m =
     (let (m1, r) = spec_step STORE_CAP t c m; (m2, rs) = session ts cs m1 in (m2, encode_reply r # rs))"
| "session [] (Some c # cs) m = (m, [])"

definition ms_of :: "timespec \<Rightarrow> int" where
  "ms_of ts = tv_sec ts * 1000 + tv_nsec ts div 1000000"

definition replies :: "io \<Rightarrow> string list \<Rightarrow> cache_map \<Rightarrow> string list" where
  "replies w ls m = snd (session (map ms_of (clk w)) (map decode_line ls) m)"

lemma now_ms_of: "clock_ok ts \<Longrightarrow> now_ms ts = Some (ms_of ts) \<and> time_ok (ms_of ts)"
  using now_ms_clock_ok by (auto simp: ms_of_def)

text \<open>
  The readings of the clock a connection gets are in order, and the store matches the
  abstract map from its last reading on.
\<close>

definition in_step :: "int \<Rightarrow> io \<Rightarrow> store \<Rightarrow> cache_map \<Rightarrow> bool" where
  "in_step t w st m \<longleftrightarrow> cstore.refines t st m \<and> clocks_ok w \<and> sorted (t # map ms_of (clk w))"

lemma in_step_store_inv: "in_step t w st m \<Longrightarrow> store_inv st \<and> clocks_ok w"
  by (simp add: in_step_def cstore.refines_def)

text \<open>One line: the reply, the bytes the kernel took of it, and the next state.\<close>

lemma length_ERROR: "length ERROR_reply < VALUE_MAX + 32"
  by simp

lemma run_cmd_in_step:
  assumes step: "in_step t w st m" and c: "\<And>c. dc = Some c \<Longrightarrow> cmd_ok key_ok ttl_ok value_ok c"
    and clk: "clk w = [] \<longrightarrow> dc = None"
  obtains msg m' t' st' cs' where
    "run_cmd w st dc = reply (w\<lparr>clk := cs'\<rparr>) st' msg" and "length msg < VALUE_MAX + 32"
    and "session (map ms_of (clk w)) (dc # ds) m =
      (fst (session (map ms_of cs') ds m'), msg # snd (session (map ms_of cs') ds m'))"
    and "\<And>w'. clk w' = cs' \<Longrightarrow> in_step t' w' st' m'"
    and "clk w = cs' \<and> dc = None \<or> dc \<noteq> None \<and> length (clk w) = Suc (length cs')"
proof (cases dc)
  case None
  then show thesis
    using that [where msg = ERROR_reply and m' = m and t' = t and st' = st and cs' = "clk w"] step length_ERROR
    by (simp add: run_cmd_None in_step_def clocks_ok_def split: prod.split)
next
  case (Some c)
  then obtain ts tss where cons: "clk w = ts # tss" using clk by (cases "clk w") auto
  then have now: "now_ms ts = Some (ms_of ts)" "time_ok (ms_of ts)"
    using step now_ms_of by (auto simp: in_step_def clocks_ok_def)
  let ?t = "ms_of ts"
  have "cstore.refines ?t st m"
    using step cons cstore.refines_later [of t st m ?t] by (simp add: in_step_def)
  then obtain st' where st': "exec_cmd store_get store_del store_set ?t c st = Some (st', snd (spec_step STORE_CAP ?t c m))"
    "cstore.refines ?t st' (fst (spec_step STORE_CAP ?t c m))"
    using cstore.step_refines [OF _ c [OF Some] now(2)] by blast
  have "length (encode_reply (snd (spec_step STORE_CAP ?t c m))) < VALUE_MAX + 32"
    using exec_cmd_ok [OF _ now(2) c [OF Some], of st] in_step_store_inv [OF step] st'(1) by auto
  then show thesis
    using that [where msg = "encode_reply (snd (spec_step STORE_CAP ?t c m))" and t' = ?t and st' = st'
        and m' = "fst (spec_step STORE_CAP ?t c m)" and cs' = tss] Some cons now st' step
    by (simp add: run_cmd_def at_now_def in_step_def clocks_ok_def split: prod.split)
qed

text \<open>Whatever the network does, the client receives a prefix of the specified replies.\<close>

lemma run_lines_in_step:
  assumes "in_step t w st m" and "run_lines w st ls = Some (w', st', r)"
  shows "\<exists>n. out w' = out w @ take n (concat (replies w ls m)) \<and>
    (r = Returned True \<longrightarrow> out w' = out w @ concat (replies w ls m) \<and>
       (\<exists>t'. in_step t' w' st' (fst (session (map ms_of (clk w)) (map decode_line ls) m))))"
  using assms
proof (induction ls arbitrary: t w st m)
  case (Cons l ls)
  show ?case
  proof (cases "clk w = [] \<longrightarrow> decode_line l = None")
    case True
    obtain msg m1 t1 st1 cs1 where 1: "run_cmd w st (decode_line l) = reply (w\<lparr>clk := cs1\<rparr>) st1 msg"
      "length msg < VALUE_MAX + 32"
      "session (map ms_of (clk w)) (decode_line l # map decode_line ls) m =
        (fst (session (map ms_of cs1) (map decode_line ls) m1), msg # snd (session (map ms_of cs1) (map decode_line ls) m1))"
      "\<And>w'. clk w' = cs1 \<Longrightarrow> in_step t1 w' st1 m1"
      by (rule run_cmd_in_step [OF Cons.prems(1) decode_line_cmd_ok [of l] True, where ds = "map decode_line ls"])
        (assumption, rule that)
    let ?w = "\<lambda>as n. (w\<lparr>clk := cs1\<rparr>)\<lparr>tx := as, out := out (w\<lparr>clk := cs1\<rparr>) @ take n msg\<rparr>"
    obtain as n x where 2: "reply (w\<lparr>clk := cs1\<rparr>) st1 msg = Some (?w as n, st1, x)"
      "n \<le> length msg" "x = Returned 0 \<longleftrightarrow> n = length msg"
      using reply_Some [OF 1(2), of "w\<lparr>clk := cs1\<rparr>" st1] by blast
    have rep: "replies w (l # ls) m = msg # replies (?w as n) ls m1" by (simp add: replies_def 1(3))
    show ?thesis
    proof (cases "x = Returned 0")
      case True
      have "in_step t1 (?w as n) st1 m1" using 1(4) by simp
      moreover have "run_lines (?w as n) st1 ls = Some (w', st', r)"
        using Cons.prems(2) 1(1) 2(1) True by simp
      ultimately obtain k where "out w' = out (?w as n) @ take k (concat (replies (?w as n) ls m1))"
        "r = Returned True \<longrightarrow> out w' = out (?w as n) @ concat (replies (?w as n) ls m1) \<and>
          (\<exists>t'. in_step t' w' st' (fst (session (map ms_of (clk (?w as n))) (map decode_line ls) m1)))"
        using Cons.IH by blast
      then show ?thesis
        using True 1(3) 2(3) by (intro exI [of _ "length msg + k"]) (simp add: rep)
    next
      case False
      then have "w' = ?w as n" "r \<noteq> Returned True"
        using Cons.prems(2) 1(1) 2(1) by (auto split: run.splits if_splits)
      then show ?thesis using 2(2) by (intro exI [of _ n]) (simp add: rep)
    qed
  next
    case False
    then have "w' = w" "r = Blocked"
      using Cons.prems(2) by (auto simp: run_cmd_def at_now_def)
    then show ?thesis by (intro exI [of _ 0]) simp
  qed
qed (auto simp: replies_def intro: exI [of _ 0])

subsection \<open>A socket that makes progress\<close>

text \<open>
  \<open>can_send w k\<close>: the socket will accept at least \<open>k\<close> more bytes, one or more at a time, with
  any number of interrupted calls between them.
\<close>

definition can_send :: "io \<Rightarrow> nat \<Rightarrow> bool" where
  "can_send w k \<longleftrightarrow> (\<forall>a\<in>set (tx w). progress a \<or> a = Send_error EINTR) \<and> k \<le> length (filter progress (tx w))"

lemma reply_sends:
  assumes "can_send w (length msg + k)" and "length msg < VALUE_MAX + 32"
  obtains as where "reply w st msg = Some (w\<lparr>tx := as, out := out w @ msg\<rparr>, st, Returned 0)"
    and "can_send (w\<lparr>tx := as, out := out w @ msg\<rparr>) k"
proof -
  obtain as where "send_loop (tx w) (length msg) 0 = (as, length msg, Returned 0)" "set as \<subseteq> set (tx w)"
    "length (filter progress (tx w)) \<le> length (filter progress as) + length msg"
    using send_loop_completes [of "tx w" "length msg" 0] assms(1) by (auto simp: can_send_def)
  then show thesis
    using that [of as] assms by (auto simp: reply_def send_reply_short send_all_def can_send_def)
qed

lemma reply_ERROR_sent:
  assumes "can_send w 6" and "reply w st ERROR_reply = Some (w', st', x)"
  shows "x = Returned 0"
proof -
  have "can_send w (length ERROR_reply + 0)" using assms(1) by (simp add: numeral_eq_Suc)
  then obtain bs where "reply w st ERROR_reply = Some (w\<lparr>tx := bs, out := out w @ ERROR_reply\<rparr>, st, Returned 0)"
    by (rule reply_sends [OF _ length_ERROR])
  then show ?thesis using assms(2) by (simp only: option.inject prod.inject)
qed

definition commands :: "string list \<Rightarrow> nat" where
  "commands ls = length (filter (\<lambda>l. decode_line l \<noteq> None) ls)"

lemma run_lines_completes:
  assumes "in_step t w st m" and "commands ls \<le> length (clk w)"
    and "can_send w (length (concat (replies w ls m)) + k)"
  shows "\<exists>w' st'. run_lines w st ls = Some (w', st', Returned True) \<and> can_send w' k"
  using assms
proof (induction ls arbitrary: t w st m)
  case (Cons l ls)
  have clk: "clk w = [] \<longrightarrow> decode_line l = None"
    using Cons.prems(2) by (auto simp: commands_def split: if_splits)
  obtain msg m1 t1 st1 cs1 where 1: "run_cmd w st (decode_line l) = reply (w\<lparr>clk := cs1\<rparr>) st1 msg"
    "length msg < VALUE_MAX + 32"
    "session (map ms_of (clk w)) (decode_line l # map decode_line ls) m =
      (fst (session (map ms_of cs1) (map decode_line ls) m1), msg # snd (session (map ms_of cs1) (map decode_line ls) m1))"
    "\<And>w'. clk w' = cs1 \<Longrightarrow> in_step t1 w' st1 m1"
    "clk w = cs1 \<and> decode_line l = None \<or> decode_line l \<noteq> None \<and> length (clk w) = Suc (length cs1)"
    by (rule run_cmd_in_step [OF Cons.prems(1) decode_line_cmd_ok [of l] clk, where ds = "map decode_line ls"])
      (assumption, rule that)
  let ?rs = "snd (session (map ms_of cs1) (map decode_line ls) m1)"
  have "can_send (w\<lparr>clk := cs1\<rparr>) (length msg + (length (concat ?rs) + k))"
    using Cons.prems(3) by (simp add: can_send_def replies_def 1(3))
  then obtain as where 2: "reply (w\<lparr>clk := cs1\<rparr>) st1 msg =
      Some ((w\<lparr>clk := cs1\<rparr>)\<lparr>tx := as, out := out (w\<lparr>clk := cs1\<rparr>) @ msg\<rparr>, st1, Returned 0)"
    "can_send ((w\<lparr>clk := cs1\<rparr>)\<lparr>tx := as, out := out (w\<lparr>clk := cs1\<rparr>) @ msg\<rparr>) (length (concat ?rs) + k)"
    by (rule reply_sends [OF _ 1(2)])
  let ?w = "(w\<lparr>clk := cs1\<rparr>)\<lparr>tx := as, out := out (w\<lparr>clk := cs1\<rparr>) @ msg\<rparr>"
  have "\<exists>w' st'. run_lines ?w st1 ls = Some (w', st', Returned True) \<and> can_send w' k"
  proof (rule Cons.IH)
    show "in_step t1 ?w st1 m1" by (rule 1(4)) simp
    show "commands ls \<le> length (clk ?w)" using Cons.prems(2) 1(5) by (auto simp: commands_def split: if_splits)
    show "can_send ?w (length (concat (replies ?w ls m1)) + k)" using 2(2) by (simp add: replies_def)
  qed
  then show ?case using 1(1) 2(1) by simp
qed (simp add: replies_def)

text \<open>A chunk that does not fit behind the unfinished line, after lines that did.\<close>

lemma chunk_refused:
  assumes "\<forall>d\<in>set (xs @ ys @ [c]). d \<noteq> [] \<and> length d \<le> RECV_BUF" and "short_lines (concat xs)"
    and "LF \<notin> set (concat ys)" and "length (snd (lines_of (concat xs)) @ concat ys) \<le> LINE_MAX"
    and "length (snd (lines_of (concat xs)) @ concat ys) + length c > LINE_MAX" and "store_inv st" and "clocks_ok w"
    and "run_lines w st (fst (lines_of (concat xs))) = Some (w', st', r)"
  shows "handle_client (map Received (xs @ ys @ [c]) @ rx) w st =
    (case r of Blocked \<Rightarrow> Some (w', st', Blocked) | Returned False \<Rightarrow> Some (w', st', Returned ())
     | Returned True \<Rightarrow> do { (w2, st2, x) \<leftarrow> reply w' st' ERROR_reply; Some (w2, st2, if x = Blocked then Blocked else Returned ()) })"
proof -
  let ?p = "snd (lines_of (concat xs)) @ concat ys"
  have "LF \<notin> set ?p" using assms(3) lines_of_rest by auto
  then have "client_spec (map Received ys @ Received c # rx) w' st' (snd (lines_of (concat xs))) = client_spec (Received c # rx) w' st' ?p"
    using client_spec_unfinished [of ys "snd (lines_of (concat xs))"] assms(1,4) by simp
  also have "\<dots> = do { (w2, st2, x) \<leftarrow> reply w' st' ERROR_reply; Some (w2, st2, if x = Blocked then Blocked else Returned ()) }"
    using assms(1,5) by (auto simp: Let_def)
  finally show ?thesis
    using client_spec_short [of xs "[]" "map Received ys @ Received c # rx" w st] handle_client_eq [OF assms(6,7)] assms(1,2,8)
    by (simp split: run.split bool.split)
qed

end
