(* ===== verification/Transition.thy ===== *)
theory Transition
  imports Main
begin

text \<open>
  Labelled step relations and their finite executions, for the components whose behaviour
  depends on interleaving: the cache server with its threads, and a supervisor with the
  kernel beside it. An invariant may speak of the labels seen so far, so that it can relate
  a state to what an observer has seen.
\<close>

inductive runs :: "('s \<Rightarrow> 'e \<Rightarrow> 's \<Rightarrow> bool) \<Rightarrow> 's \<Rightarrow> 'e list \<Rightarrow> 's \<Rightarrow> bool"
  for step where
  start: "runs step s [] s"
| more: "runs step s es s' \<Longrightarrow> step s' e s'' \<Longrightarrow> runs step s (es @ [e]) s''"

lemma runs_one: "step s e s' \<Longrightarrow> runs step s [e] s'"
  using runs.more [OF runs.start, of step s e s'] by simp

lemma runs_trans: "runs step s es s' \<Longrightarrow> runs step s' fs s'' \<Longrightarrow> runs step s (es @ fs) s''"
proof (rotate_tac, induction rule: runs.induct)
  case (more s fs s' e s'')
  then show ?case using runs.more by fastforce
qed simp

lemma runs_Cons: "step s e s' \<Longrightarrow> runs step s' es s'' \<Longrightarrow> runs step s (e # es) s''"
  using runs_trans [OF runs_one] by fastforce

text \<open>An execution cut at its first event of a kind.\<close>

lemma runs_split: "runs step s (es @ fs) s' \<Longrightarrow> \<exists>u. runs step s es u \<and> runs step u fs s'"
proof (induction fs arbitrary: s' rule: rev_induct)
  case Nil
  then show ?case by (auto intro: runs.start)
next
  case (snoc f fs)
  from snoc.prems show ?case
  proof (cases rule: runs.cases)
    case (more es' v e)
    then show ?thesis using snoc.IH [of v] runs.more by (metis append_assoc append_same_eq last_snoc butlast_snoc)
  qed simp
qed

lemma runs_single: "runs step s [e] s' \<Longrightarrow> step s e s'"
  by (erule runs.cases) (auto elim: runs.cases)

locale traced_system =
  fixes init :: "'s \<Rightarrow> bool"
    and step :: "'s \<Rightarrow> 'e \<Rightarrow> 's \<Rightarrow> bool"
    and inv :: "'e list \<Rightarrow> 's \<Rightarrow> bool"
  assumes inv_init: "init s \<Longrightarrow> inv [] s"
    and inv_step: "inv es s \<Longrightarrow> step s e s' \<Longrightarrow> inv (es @ [e]) s'"
begin

lemma inv_runs:
  assumes "runs step s es s'" and "init s"
  shows "inv es s'"
  using assms by (induction rule: runs.induct) (auto intro: inv_init inv_step)

text \<open>No execution reaches a state the invariant excludes.\<close>

lemma unreachable:
  assumes "init s" and "\<And>es s. inv es s \<Longrightarrow> \<not> bad s"
  shows "\<not> (\<exists>es s'. runs step s es s' \<and> bad s')"
  using inv_runs assms by blast

end

end
