(* ===== verification/Cache_Server.thy ===== *)
theory Cache_Server
  imports Cache_Session Transition "HOL-Library.Word"
begin

text \<open>
  The cache server as a concurrent program: the accept loop of \<open>main\<close> and one detached
  thread per connection, all of \<^verbatim>\<open>in-mem-cache/server.c\<close>, as a labelled step relation.

  The threads share the store, \<open>store_mutex\<close>, the kernel's monotonic clock and
  \<open>active_clients\<close>; everything else is local and kept in the program counter of the thread
  that owns it. A step is one system call, one mutex operation, one critical section, or
  the local code between two of them. Undefined behaviour is an explicit program counter,
  so that its absence is a theorem. Connections are numbered in the order of \<open>accept\<close>.
\<close>

section \<open>Client slots\<close>

definition CLIENT_LIMIT :: "64 word" where "CLIENT_LIMIT = 32"

text \<open>The bodies run under \<open>client_count_mutex\<close> and block nowhere: one step each.\<close>

definition reserve_client_slot :: "64 word \<Rightarrow> 64 word \<times> bool" where
  "reserve_client_slot active_clients =
     (if active_clients < CLIENT_LIMIT then (active_clients + 1, True) else (active_clients, False))"

definition release_client_slot :: "64 word \<Rightarrow> 64 word" where
  "release_client_slot active_clients = active_clients - 1"

section \<open>A connection thread\<close>

text \<open>
  Where a thread is. \<open>p n\<close> are \<open>pending\<close> and \<open>pending_len\<close>, \<open>q\<close> is \<open>processed\<close>. A
  sending thread holds the buffer, the number of bytes the kernel has taken, and where it
  continues: \<open>None\<close> when \<open>handle_client\<close> returns after the send in any case.
\<close>

datatype tpc =
    T_recv buf nat
  | T_scan buf nat nat
  | T_lock request buf nat nat
  | T_crit request buf nat nat
  | T_unlock string buf nat nat
  | T_send string nat "(buf \<times> nat \<times> nat) option"
  | T_close
  | T_release
  | T_done
  | T_undefined

text \<open>The bytes \<open>send_reply\<close> passes to \<open>send_all\<close> for a formatted reply.\<close>

definition reply_bytes :: "string \<Rightarrow> string" where
  "reply_bytes text = (if length text \<ge> VALUE_MAX + 32 then ERROR_reply else text)"

text \<open>After \<open>recv\<close> has delivered \<open>bs\<close>.\<close>

definition after_recv :: "bytes \<Rightarrow> buf \<Rightarrow> nat \<Rightarrow> tpc" where
  "after_recv bs p n =
     (if n + length bs > LINE_MAX then T_send ERROR_reply 0 None
      else (case memcpy (LINE_MAX + 1) p n bs (length bs) of
              None \<Rightarrow> T_undefined
            | Some p' \<Rightarrow> T_scan p' (n + length bs) 0))"

text \<open>The inner loop has found no further newline: the rest is moved to the front.\<close>

definition after_lines :: "buf \<Rightarrow> nat \<Rightarrow> nat \<Rightarrow> tpc" where
  "after_lines p n q =
     (case (if q > 0 then map_option (\<lambda>p'. (p', n - q)) (memcpy (LINE_MAX + 1) p 0 (drop q p) (n - q))
            else Some (p, n)) of
        None \<Rightarrow> T_undefined
      | Some (p', n') \<Rightarrow> if n' > LINE_MAX then T_send ERROR_reply 0 None else T_recv p' n')"

text \<open>What a thread does with a prepared request.\<close>

definition after_request :: "request \<Rightarrow> buf \<Rightarrow> nat \<Rightarrow> nat \<Rightarrow> tpc" where
  "after_request rq p n q =
     (case rq of
        Raw_error \<Rightarrow> T_send ERROR_reply 0 (Some (p, n, q))
      | Answer text \<Rightarrow> T_send (reply_bytes text) 0 (Some (p, n, q))
      | _ \<Rightarrow> T_lock rq p n q)"

text \<open>One round of the inner loop, up to the critical section or the reply.\<close>

definition after_scan :: "buf \<Rightarrow> nat \<Rightarrow> nat \<Rightarrow> tpc" where
  "after_scan p n q =
     (case memchr p q LF (n - q) of
        None \<Rightarrow> T_undefined
      | Some None \<Rightarrow> after_lines p n q
      | Some (Some at) \<Rightarrow>
          (case client_request p q (at - q) of
             None \<Rightarrow> T_undefined
           | Some rq \<Rightarrow> after_request rq p n (q + (at - q) + 1)))"

fun after_send :: "(buf \<times> nat \<times> nat) option \<Rightarrow> tpc" where
  "after_send None = T_close"
| "after_send (Some (p, n, q)) = T_scan p n q"

record shared =
  cells :: store
  holder :: "nat option"
  clock :: timespec
  active_clients :: "64 word"

text \<open>
  What can be observed: bytes of a connection, the critical section a thread has run (its
  time, its request and the reply it will send), the decision to refuse a connection, the failure of the \<open>send\<close> to a
  refused client, and the closing of a connection.
\<close>

datatype event =
    Recv nat bytes
  | Send nat bytes
  | Exec nat int request string
  | Refused nat
  | Send_failed nat
  | Closed nat
  | Tau

text \<open>
  The steps of the thread of connection \<open>c\<close>. The kernel's side is nondeterministic within
  its documented behaviour: \<open>recv\<close> returns between 1 and \<open>RECV_BUF\<close> bytes, the end of the
  stream or an error; \<open>send\<close> takes at least one byte or fails; the monotonic clock does
  not go back.
\<close>

inductive tstep :: "shared \<Rightarrow> nat \<Rightarrow> tpc \<Rightarrow> event \<Rightarrow> shared \<Rightarrow> tpc \<Rightarrow> bool" where
  recv: "bs \<noteq> [] \<Longrightarrow> length bs \<le> RECV_BUF \<Longrightarrow>
    tstep g c (T_recv p n) (Recv c bs) g (after_recv bs p n)"
| recv_interrupted: "tstep g c (T_recv p n) Tau g (T_recv p n)"
| recv_end: "tstep g c (T_recv p n) Tau g T_close"
| scan: "tstep g c (T_scan p n q) Tau g (after_scan p n q)"
| lock: "holder g = None \<Longrightarrow>
    tstep g c (T_lock rq p n q) Tau (g\<lparr>holder := Some c\<rparr>) (T_crit rq p n q)"
| crit: "clock_ok ts \<Longrightarrow> ms_of (clock g) \<le> ms_of ts \<Longrightarrow> now_ms ts = Some now \<Longrightarrow>
    critical_section now rq (cells g) = Some (st', text) \<Longrightarrow>
    tstep g c (T_crit rq p n q) (Exec c now rq text) (g\<lparr>cells := st', clock := ts\<rparr>) (T_unlock text p n q)"
| crit_undefined: "clock_ok ts \<Longrightarrow> ms_of (clock g) \<le> ms_of ts \<Longrightarrow>
    Option.bind (now_ms ts) (\<lambda>now. critical_section now rq (cells g)) = None \<Longrightarrow>
    tstep g c (T_crit rq p n q) Tau g T_undefined"
| unlock: "tstep g c (T_unlock text p n q) Tau (g\<lparr>holder := None\<rparr>)
    (T_send (reply_bytes text) 0 (Some (p, n, q)))"
| send: "0 < k \<Longrightarrow> k \<le> length b - i \<Longrightarrow>
    tstep g c (T_send b i x) (Send c (take k (drop i b))) g (T_send b (i + k) x)"
| send_interrupted: "i < length b \<Longrightarrow> tstep g c (T_send b i x) Tau g (T_send b i x)"
| send_failed: "i < length b \<Longrightarrow> tstep g c (T_send b i x) Tau g T_close"
| send_done: "length b \<le> i \<Longrightarrow> tstep g c (T_send b i x) Tau g (after_send x)"
| close: "tstep g c T_close (Closed c) g T_release"
| release: "tstep g c T_release Tau
    (g\<lparr>active_clients := release_client_slot (active_clients g)\<rparr>) T_done"

section \<open>The accept loop\<close>

datatype mpc =
    M_accept
  | M_reserve nat
  | M_reject nat nat
  | M_reject_close nat
  | M_malloc nat
  | M_create nat
  | M_release nat
  | M_close nat

record server =
  shr :: shared
  main_pc :: mpc
  conns :: "nat \<rightharpoonup> tpc"
  next_conn :: nat

definition initial_server :: "timespec \<Rightarrow> server" where
  "initial_server ts =
     \<lparr>shr = \<lparr>cells = initial_store, holder = None, clock = ts, active_clients = 0\<rparr>,
      main_pc = M_accept, conns = Map.empty, next_conn = 0\<rparr>"

text \<open>
  The steps of the server: a step of one thread, or of the accept loop. \<open>accept\<close> may fail,
  \<open>malloc\<close> and \<open>pthread_create\<close> may fail, and the reply to a refused client may be cut.
\<close>

inductive step :: "server \<Rightarrow> event \<Rightarrow> server \<Rightarrow> bool" where
  client: "conns s c = Some pc \<Longrightarrow> tstep (shr s) c pc e g' pc' \<Longrightarrow>
    step s e (s\<lparr>shr := g', conns := (conns s)(c \<mapsto> pc')\<rparr>)"
| accept_error: "main_pc s = M_accept \<Longrightarrow> step s Tau s"
| accept: "main_pc s = M_accept \<Longrightarrow>
    step s Tau (s\<lparr>main_pc := M_reserve (next_conn s), next_conn := Suc (next_conn s)\<rparr>)"
| reserve: "main_pc s = M_reserve c \<Longrightarrow> reserve_client_slot (active_clients (shr s)) = (n, ok) \<Longrightarrow>
    step s (if ok then Tau else Refused c) (s\<lparr>shr := (shr s)\<lparr>active_clients := n\<rparr>,
      main_pc := if ok then M_malloc c else M_reject c 0\<rparr>)"
| reject_send: "main_pc s = M_reject c i \<Longrightarrow> 0 < k \<Longrightarrow> k \<le> length ERROR_reply - i \<Longrightarrow>
    step s (Send c (take k (drop i ERROR_reply))) (s\<lparr>main_pc := M_reject c (i + k)\<rparr>)"
| reject_interrupted: "main_pc s = M_reject c i \<Longrightarrow> i < length ERROR_reply \<Longrightarrow> step s Tau s"
| reject_failed: "main_pc s = M_reject c i \<Longrightarrow> i < length ERROR_reply \<Longrightarrow>
    step s (Send_failed c) (s\<lparr>main_pc := M_reject_close c\<rparr>)"
| reject_sent: "main_pc s = M_reject c i \<Longrightarrow> length ERROR_reply \<le> i \<Longrightarrow>
    step s Tau (s\<lparr>main_pc := M_reject_close c\<rparr>)"
| reject_close: "main_pc s = M_reject_close c \<Longrightarrow> step s (Closed c) (s\<lparr>main_pc := M_accept\<rparr>)"
| malloc: "main_pc s = M_malloc c \<Longrightarrow>
    step s Tau (s\<lparr>main_pc := if ok then M_create c else M_release c\<rparr>)"
| create: "main_pc s = M_create c \<Longrightarrow>
    step s Tau (s\<lparr>main_pc := M_accept, conns := (conns s)(c \<mapsto> T_recv [] 0)\<rparr>)"
| create_error: "main_pc s = M_create c \<Longrightarrow> step s Tau (s\<lparr>main_pc := M_release c\<rparr>)"
| undo_release: "main_pc s = M_release c \<Longrightarrow>
    step s Tau (s\<lparr>shr := (shr s)\<lparr>active_clients := release_client_slot (active_clients (shr s))\<rparr>,
      main_pc := M_close c\<rparr>)"
| undo_close: "main_pc s = M_close c \<Longrightarrow> step s (Closed c) (s\<lparr>main_pc := M_accept\<rparr>)"

text \<open>The steps of one thread alone.\<close>

definition client_step :: "nat \<Rightarrow> server \<Rightarrow> event \<Rightarrow> server \<Rightarrow> bool" where
  "client_step c s e s' \<longleftrightarrow> (\<exists>pc g' pc'. conns s c = Some pc \<and> tstep (shr s) c pc e g' pc' \<and>
     s' = s\<lparr>shr := g', conns := (conns s)(c \<mapsto> pc')\<rparr>)"

lemma client_step_step: "client_step c s e s' \<Longrightarrow> step s e s'"
  by (auto simp: client_step_def intro: step.client)

lemma client_runs: "runs (client_step c) s es s' \<Longrightarrow> runs step s es s'"
  by (induction rule: runs.induct) (auto intro: runs.intros client_step_step)

abbreviation run_server :: "server \<Rightarrow> event list \<Rightarrow> server \<Rightarrow> bool" where
  "run_server \<equiv> runs step"

inductive_cases tstepE: "tstep g c pc e g' pc'"
inductive_cases stepE: "step s e s'"
inductive_simps tstep_simps:
  "tstep g c (T_recv p n) e g' pc'" "tstep g c (T_scan p n q) e g' pc'"
  "tstep g c (T_lock rq p n q) e g' pc'" "tstep g c (T_crit rq p n q) e g' pc'"
  "tstep g c (T_unlock text p n q) e g' pc'" "tstep g c (T_send b i x) e g' pc'"
  "tstep g c T_close e g' pc'" "tstep g c T_release e g' pc'"
  "tstep g c T_done e g' pc'" "tstep g c T_undefined e g' pc'"

end
