(* ===== verification/Cache_Concurrency.thy ===== *)
theory Cache_Concurrency
  imports Cache_Server
begin

text \<open>
  Invariants of the concurrent cache server: mutual exclusion on the store, the accounting
  of client slots. Each is kept by every step; the facts about single thread steps come
  first. Linearizability is in \<open>Cache_Linear\<close>.
\<close>

section \<open>Mutual exclusion\<close>

text \<open>The program counters between \<open>pthread_mutex_lock\<close> and \<open>pthread_mutex_unlock\<close>.\<close>

fun in_section :: "tpc \<Rightarrow> bool" where
  "in_section (T_crit rq p n q) = True"
| "in_section (T_unlock text p n q) = True"
| "in_section _ = False"

definition lock_inv :: "server \<Rightarrow> bool" where
  "lock_inv s \<longleftrightarrow> (\<forall>c. holder (shr s) = Some c \<longleftrightarrow> (\<exists>pc. conns s c = Some pc \<and> in_section pc))"

definition holds_slot :: "tpc \<Rightarrow> bool" where
  "holds_slot pc \<longleftrightarrow> pc \<noteq> T_done"

lemma after_not_in_section [simp]:
  "\<not> in_section (after_recv bs p n)" "\<not> in_section (after_lines p n q)"
  "\<not> in_section (after_request rq p n q)" "\<not> in_section (after_send x)"
  by (auto simp: after_recv_def after_lines_def after_request_def split: option.split request.split)
    (cases x; auto)

lemma after_scan_not_in_section [simp]: "\<not> in_section (after_scan p n q)"
  by (auto simp: after_scan_def split: option.split)

lemma after_holds_slot [simp]:
  "holds_slot (after_recv bs p n)" "holds_slot (after_lines p n q)"
  "holds_slot (after_request rq p n q)" "holds_slot (after_send x)"
  by (auto simp: holds_slot_def after_recv_def after_lines_def after_request_def
      split: option.split request.split) (cases x; auto)

lemma after_scan_holds_slot [simp]: "holds_slot (after_scan p n q)"
proof -
  have "holds_slot T_undefined" by (simp add: holds_slot_def)
  then show ?thesis by (auto simp: after_scan_def split: option.split)
qed

lemma tstep_lock:
  assumes "tstep g c pc e g' pc'" and "holder g = Some c \<longleftrightarrow> in_section pc" and "pc' \<noteq> T_undefined"
  shows "(holder g' = Some c \<longleftrightarrow> in_section pc') \<and> (d \<noteq> c \<longrightarrow> (holder g' = Some d \<longleftrightarrow> holder g = Some d))"
  using assms by (cases rule: tstep.cases) auto

text \<open>
  A connection that \<open>main\<close> still owns has no thread yet; numbers are never used twice.
\<close>

fun main_conn :: "mpc \<Rightarrow> nat option" where
  "main_conn M_accept = None"
| "main_conn (M_reserve c) = Some c"
| "main_conn (M_reject c i) = Some c"
| "main_conn (M_reject_close c) = Some c"
| "main_conn (M_malloc c) = Some c"
| "main_conn (M_create c) = Some c"
| "main_conn (M_release c) = Some c"
| "main_conn (M_close c) = Some c"

definition conns_inv :: "server \<Rightarrow> bool" where
  "conns_inv s \<longleftrightarrow> (\<forall>c\<in>dom (conns s). c < next_conn s) \<and>
     (\<forall>c. main_conn (main_pc s) = Some c \<longrightarrow> c < next_conn s \<and> c \<notin> dom (conns s)) \<and>
     finite (dom (conns s))"

lemma conns_inv_step:
  assumes "step s e s'" and "conns_inv s"
  shows "conns_inv s'"
  using assms by (cases rule: step.cases) (auto simp: conns_inv_def less_Suc_eq)

lemma lock_inv_step:
  assumes st: "step s e s'" and inv: "lock_inv s" "conns_inv s"
    and ok: "\<And>c. conns s' c \<noteq> Some T_undefined"
  shows "lock_inv s'"
  using st
proof (cases rule: step.cases)
  case (client c pc g' pc')
  have "holder (shr s) = Some c \<longleftrightarrow> in_section pc" using inv client by (simp add: lock_inv_def)
  moreover have "pc' \<noteq> T_undefined" using ok [of c] client(1) by auto
  ultimately have t: "(holder g' = Some c \<longleftrightarrow> in_section pc') \<and>
    (d \<noteq> c \<longrightarrow> (holder g' = Some d \<longleftrightarrow> holder (shr s) = Some d))" for d
    using tstep_lock [OF client(3)] by blast
  show ?thesis
    unfolding lock_inv_def
  proof
    fix d
    show "(holder (shr s') = Some d) = (\<exists>pc. conns s' d = Some pc \<and> in_section pc)"
      using t [of d] inv(1) client by (cases "d = c") (simp_all add: lock_inv_def)
  qed
next
  case (create c)
  then have "conns s c = None" using inv(2) by (auto simp: conns_inv_def)
  then have "holder (shr s) \<noteq> Some c" using inv(1) by (simp add: lock_inv_def)
  then show ?thesis using inv(1) create by (simp add: lock_inv_def)
qed (use inv in \<open>auto simp: lock_inv_def\<close>)

section \<open>Client slots\<close>

text \<open>The slots in use: one per thread that has not released it, one \<open>main\<close> may hold.\<close>

fun main_slot :: "mpc \<Rightarrow> nat" where
  "main_slot (M_malloc c) = 1"
| "main_slot (M_create c) = 1"
| "main_slot (M_release c) = 1"
| "main_slot _ = 0"

definition slot_conns :: "server \<Rightarrow> nat set" where
  "slot_conns s = {c. \<exists>pc. conns s c = Some pc \<and> holds_slot pc}"

definition slots :: "server \<Rightarrow> nat" where
  "slots s = card (slot_conns s) + main_slot (main_pc s)"

definition slots_inv :: "server \<Rightarrow> bool" where
  "slots_inv s \<longleftrightarrow> unat (active_clients (shr s)) = slots s \<and> slots s \<le> 32"

lemma finite_slot_conns: "conns_inv s \<Longrightarrow> finite (slot_conns s)"
  by (rule finite_subset [of _ "dom (conns s)"]) (auto simp: conns_inv_def slot_conns_def)

lemma unat_reserve:
  "reserve_client_slot n = (n', ok) \<Longrightarrow> unat n' = (if ok then Suc (unat n) else unat n) \<and> (ok \<longleftrightarrow> unat n < 32)"
  by (auto simp: reserve_client_slot_def CLIENT_LIMIT_def word_less_nat_alt unat_word_ariths split: if_splits)

lemma unat_release: "0 < unat n \<Longrightarrow> unat (release_client_slot n) = unat n - 1"
  unfolding release_client_slot_def by (metis unat_eq_zero less_irrefl unat_minus_one)

text \<open>A thread keeps its slot until it releases it, and releases it once.\<close>

lemma tstep_slot:
  assumes "tstep g c pc e g' pc'"
  shows "holds_slot pc \<and>
    (holds_slot pc' \<and> active_clients g' = active_clients g \<or>
     \<not> holds_slot pc' \<and> active_clients g' = release_client_slot (active_clients g))"
  using assms by (cases rule: tstep.cases) (auto simp: holds_slot_def [of "T_recv _ _"] holds_slot_def [of "T_scan _ _ _"]
      holds_slot_def [of "T_lock _ _ _ _"] holds_slot_def [of "T_crit _ _ _ _"] holds_slot_def [of "T_unlock _ _ _ _"]
      holds_slot_def [of "T_send _ _ _"] holds_slot_def [of "T_close"] holds_slot_def [of "T_release"]
      holds_slot_def [of "T_undefined"] holds_slot_def [of "T_done"])

lemma slots_inv_step:
  assumes st: "step s e s'" and inv: "slots_inv s" "conns_inv s"
  shows "slots_inv s'"
  using st
proof (cases rule: step.cases)
  case (client c pc g' pc')
  note t = tstep_slot [OF client(3)]
  have c: "c \<in> slot_conns s" using t client(2) by (auto simp: slot_conns_def)
  have eq: "slot_conns s' = (if holds_slot pc' then slot_conns s else slot_conns s - {c})"
    using c client(1) by (auto simp: slot_conns_def)
  have pos: "0 < card (slot_conns s)" using c finite_slot_conns [OF inv(2)] by (auto simp: card_gt_0_iff)
  then have "0 < unat (active_clients (shr s))" using inv(1) by (simp add: slots_inv_def slots_def)
  from unat_release [OF this] show ?thesis
    using t inv(1) eq client(1) pos c by (auto simp: slots_inv_def slots_def card_Diff_singleton)
next
  case (reserve c n ok)
  then show ?thesis
    using inv(1) unat_reserve [OF reserve(4)] by (auto simp: slots_inv_def slots_def slot_conns_def)
next
  case (create c)
  then have "c \<notin> slot_conns s" using inv(2) by (auto simp: conns_inv_def slot_conns_def)
  moreover have "slot_conns s' = insert c (slot_conns s)"
    using create by (auto simp: slot_conns_def holds_slot_def)
  ultimately show ?thesis
    using inv(1) create finite_slot_conns [OF inv(2)] by (simp add: slots_inv_def slots_def)
next
  case (undo_release c)
  then have "0 < unat (active_clients (shr s))" using inv(1) by (simp add: slots_inv_def slots_def)
  from unat_release [OF this] show ?thesis
    using undo_release inv(1) by (simp add: slots_inv_def slots_def slot_conns_def)
qed (use inv in \<open>auto simp: slots_inv_def slots_def slot_conns_def split: if_splits\<close>)

end
