(* ===== verification/Cache_Linear.thy ===== *)
theory Cache_Linear
  imports Cache_Concurrency
begin

text \<open>
  Linearizability of the concurrent cache: the critical sections, in the order in which the
  threads run them, are a run of the abstract cache of \<open>Cache_Interface\<close> with the same
  replies, and each client receives the replies of its own commands in the order of its own
  lines. The specification reads only the events of an execution.
\<close>

section \<open>What an execution shows\<close>

fun cmd_of :: "request \<Rightarrow> (string, string) cmd option" where
  "cmd_of (Get_req key) = Some (Get (cstr key))"
| "cmd_of (Delete_req key) = Some (Delete (cstr key))"
| "cmd_of (Set_req key klen ttl val vn) = Some (Set (cstr key) ttl (cstr val))"
| "cmd_of _ = None"

fun recv_of :: "nat \<Rightarrow> event \<Rightarrow> bytes" where
  "recv_of c (Recv d bs) = (if d = c then bs else [])"
| "recv_of c _ = []"

fun send_of :: "nat \<Rightarrow> event \<Rightarrow> bytes" where
  "send_of c (Send d bs) = (if d = c then bs else [])"
| "send_of c _ = []"

fun exec_of :: "nat \<Rightarrow> event \<Rightarrow> ((string, string) cmd \<times> string) list" where
  "exec_of c (Exec d t rq text) =
     (case cmd_of rq of Some cm \<Rightarrow> if d = c then [(cm, text)] else [] | None \<Rightarrow> [])"
| "exec_of c _ = []"

fun hist_of :: "event \<Rightarrow> (int \<times> (string, string) cmd \<times> string) list" where
  "hist_of (Exec d t rq text) = (case cmd_of rq of Some cm \<Rightarrow> [(t, cm, text)] | None \<Rightarrow> [])"
| "hist_of _ = []"

text \<open>Bytes received from and sent to a connection, its commands with their replies, and all commands.\<close>

definition recvd :: "nat \<Rightarrow> event list \<Rightarrow> bytes" where
  "recvd c es = concat (map (recv_of c) es)"

definition sent_to :: "nat \<Rightarrow> event list \<Rightarrow> bytes" where
  "sent_to c es = concat (map (send_of c) es)"

definition executed :: "nat \<Rightarrow> event list \<Rightarrow> ((string, string) cmd \<times> string) list" where
  "executed c es = concat (map (exec_of c) es)"

definition history :: "event list \<Rightarrow> (int \<times> (string, string) cmd \<times> string) list" where
  "history es = concat (map hist_of es)"

lemma trace_snoc [simp]:
  "recvd c (es @ [e]) = recvd c es @ recv_of c e" "sent_to c (es @ [e]) = sent_to c es @ send_of c e"
  "executed c (es @ [e]) = executed c es @ exec_of c e" "history (es @ [e]) = history es @ hist_of e"
  by (simp_all add: recvd_def sent_to_def executed_def history_def)

lemma trace_Nil [simp]: "recvd c [] = []" "sent_to c [] = []" "executed c [] = []" "history [] = []"
  by (simp_all add: recvd_def sent_to_def executed_def history_def)

text \<open>The replies to a list of lines, given the replies of the commands among them.\<close>

fun answers :: "(string, string) cmd option list \<Rightarrow> string list \<Rightarrow> string list" where
  "answers [] ts = []"
| "answers (None # ds) ts = ERROR_reply # answers ds ts"
| "answers (Some c # ds) (t # ts) = t # answers ds ts"
| "answers (Some c # ds) [] = []"

lemma answers_append:
  "length ts = length (List.map_filter (\<lambda>x. x) ds) \<Longrightarrow> answers (ds @ ds') (ts @ ts') = answers ds ts @ answers ds' ts'"
  by (induction ds ts rule: answers.induct) (simp_all add: List.map_filter_simps)

definition answered :: "string list \<Rightarrow> ((string, string) cmd \<times> string) list \<Rightarrow> bool" where
  "answered ls xs \<longleftrightarrow> map fst xs = List.map_filter decode_line ls"

definition so_far :: "string list \<Rightarrow> ((string, string) cmd \<times> string) list \<Rightarrow> bytes" where
  "so_far ls xs = concat (answers (map decode_line ls) (map snd xs))"

lemma map_filter_append: "List.map_filter f (xs @ ys) = List.map_filter f xs @ List.map_filter f ys"
  by (simp add: List.map_filter_def)

lemma map_filter_map: "List.map_filter (\<lambda>x. x) (map f xs) = List.map_filter f xs"
  by (induction xs) (simp_all add: List.map_filter_simps split: option.split)

lemma answered_Nil [simp]: "answered [] []" "so_far [] [] = []"
  by (simp_all add: answered_def so_far_def List.map_filter_simps)

lemma answered_length: "answered ls xs \<Longrightarrow> length (map snd xs) = length (List.map_filter (\<lambda>x. x) (map decode_line ls))"
  unfolding answered_def map_filter_map by (metis length_map)

lemma answered_error:
  assumes "answered ls xs" and "decode_line l = None"
  shows "answered (ls @ [l]) xs" and "so_far (ls @ [l]) xs = so_far ls xs @ ERROR_reply"
proof -
  show "answered (ls @ [l]) xs"
    using assms by (simp add: answered_def map_filter_append List.map_filter_simps)
  show "so_far (ls @ [l]) xs = so_far ls xs @ ERROR_reply"
    using answers_append [OF answered_length [OF assms(1)], of "[decode_line l]" "[]"] assms(2) by (simp add: so_far_def)
qed

lemma answered_cmd:
  assumes "answered ls xs" and "decode_line l = Some cm"
  shows "answered (ls @ [l]) (xs @ [(cm, t)])" and "so_far (ls @ [l]) (xs @ [(cm, t)]) = so_far ls xs @ t"
proof -
  show "answered (ls @ [l]) (xs @ [(cm, t)])"
    using assms by (simp add: answered_def map_filter_append List.map_filter_simps)
  show "so_far (ls @ [l]) (xs @ [(cm, t)]) = so_far ls xs @ t"
    using answers_append [OF answered_length [OF assms(1)], of "[decode_line l]" "[t]"] assms(2) by (simp add: so_far_def)
qed

section \<open>One connection\<close>

definition unlines :: "string list \<Rightarrow> bytes" where
  "unlines ls = concat (map (\<lambda>l. l @ [LF]) ls)"

definition whole_lines :: "string list \<Rightarrow> bool" where
  "whole_lines ls \<longleftrightarrow> (\<forall>l\<in>set ls. LF \<notin> set l)"

lemma unlines_simps [simp]: "unlines [] = []" "unlines (ls @ [l]) = unlines ls @ l @ [LF]"
  by (simp_all add: unlines_def)

lemma whole_lines_simps [simp]: "whole_lines []" "whole_lines (ls @ [l]) \<longleftrightarrow> whole_lines ls \<and> LF \<notin> set l"
  by (auto simp: whole_lines_def)

lemma lines_of_unlines:
  "whole_lines ls \<Longrightarrow> fst (lines_of (unlines ls @ s)) = ls @ fst (lines_of s)"
  by (induction ls) (auto simp: unlines_def whole_lines_def lines_of_LF)

definition buf_ok :: "buf \<Rightarrow> nat \<Rightarrow> bool" where
  "buf_ok p n \<longleftrightarrow> n \<le> length p \<and> n \<le> LINE_MAX \<and> length p \<le> LINE_MAX"

text \<open>
  What a thread's program counter says about the bytes of its connection: \<open>got\<close> and
  \<open>snt\<close> are the bytes received and sent, \<open>xs\<close> the commands it has run with their replies.
\<close>

fun conn_inv :: "tpc \<Rightarrow> bytes \<Rightarrow> ((string, string) cmd \<times> string) list \<Rightarrow> bytes \<Rightarrow> bool" where
  "conn_inv (T_recv p n) got xs snt \<longleftrightarrow> buf_ok p n \<and> LF \<notin> set (take n p) \<and>
     (\<exists>ls. whole_lines ls \<and> got = unlines ls @ take n p \<and> answered ls xs \<and> snt = so_far ls xs)"
| "conn_inv (T_scan p n q) got xs snt \<longleftrightarrow> buf_ok p n \<and> q \<le> n \<and>
     (\<exists>ls. whole_lines ls \<and> got = unlines ls @ take (n - q) (drop q p) \<and> answered ls xs \<and> snt = so_far ls xs)"
| "conn_inv (T_lock rq p n q) got xs snt \<longleftrightarrow> buf_ok p n \<and> q \<le> n \<and>
     (\<exists>ls l cm. whole_lines (ls @ [l]) \<and> got = unlines (ls @ [l]) @ take (n - q) (drop q p) \<and>
        decode_line l = Some cm \<and> request_ok rq (Some cm) \<and> answered ls xs \<and> snt = so_far ls xs)"
| "conn_inv (T_crit rq p n q) got xs snt \<longleftrightarrow> buf_ok p n \<and> q \<le> n \<and>
     (\<exists>ls l cm. whole_lines (ls @ [l]) \<and> got = unlines (ls @ [l]) @ take (n - q) (drop q p) \<and>
        decode_line l = Some cm \<and> request_ok rq (Some cm) \<and> answered ls xs \<and> snt = so_far ls xs)"
| "conn_inv (T_unlock text p n q) got xs snt \<longleftrightarrow> buf_ok p n \<and> q \<le> n \<and> length text < VALUE_MAX + 32 \<and>
     (\<exists>ls. whole_lines ls \<and> got = unlines ls @ take (n - q) (drop q p) \<and> answered ls xs \<and>
        so_far ls xs = snt @ text)"
| "conn_inv (T_send b i (Some (p, n, q))) got xs snt \<longleftrightarrow> buf_ok p n \<and> q \<le> n \<and> i \<le> length b \<and>
     (\<exists>ls. whole_lines ls \<and> got = unlines ls @ take (n - q) (drop q p) \<and> answered ls xs \<and>
        so_far ls xs = snt @ drop i b)"
| "conn_inv (T_send b i None) got xs snt \<longleftrightarrow> i \<le> length b \<and>
     (\<exists>ls rest. whole_lines ls \<and> got = unlines ls @ rest \<and> answered ls xs \<and>
        so_far ls xs @ ERROR_reply = snt @ drop i b)"
| "conn_inv T_undefined got xs snt \<longleftrightarrow> False"
| "conn_inv _ got xs snt \<longleftrightarrow>
     (\<exists>ls rest. whole_lines ls \<and> got = unlines ls @ rest \<and> answered ls xs \<and> prefix snt (so_far ls xs @ ERROR_reply))"

lemma conn_after_recv:
  assumes "conn_inv (T_recv p n) got xs snt"
  shows "conn_inv (after_recv bs p n) (got @ bs) xs snt"
proof -
  obtain ls where ls: "whole_lines ls" "got = unlines ls @ take n p" "answered ls xs" "snt = so_far ls xs"
    and p: "buf_ok p n" using assms by auto
  show ?thesis
  proof (cases "n + length bs > LINE_MAX")
    case True
    then show ?thesis using ls by (auto simp: after_recv_def)
  next
    case False
    let ?p = "take n p @ bs @ drop (n + length bs) p"
    have "memcpy (LINE_MAX + 1) p n bs (length bs) = Some ?p"
      using p False by (simp add: memcpy_def buf_ok_def)
    moreover have "buf_ok ?p (n + length bs)" "take (n + length bs) ?p = take n p @ bs"
      using p False by (auto simp: buf_ok_def)
    ultimately show ?thesis using False ls by (auto simp: after_recv_def)
  qed
qed

lemma conn_after_lines:
  assumes inv: "conn_inv (T_scan p n q) got xs snt" and LF: "LF \<notin> set (take (n - q) (drop q p))"
  shows "conn_inv (after_lines p n q) got xs snt"
proof -
  obtain ls where ls: "whole_lines ls" "got = unlines ls @ take (n - q) (drop q p)" "answered ls xs" "snt = so_far ls xs"
    and p: "buf_ok p n" "q \<le> n" using inv by auto
  show ?thesis
  proof (cases "q = 0")
    case True
    then show ?thesis using ls p LF by (auto simp: after_lines_def buf_ok_def)
  next
    case False
    let ?p = "take (n - q) (drop q p) @ drop (n - q) p"
    have "memcpy (LINE_MAX + 1) p 0 (drop q p) (n - q) = Some ?p"
      using p by (auto simp: memcpy_def buf_ok_def)
    moreover have "buf_ok ?p (n - q)" "take (n - q) ?p = take (n - q) (drop q p)"
      using p by (auto simp: buf_ok_def)
    moreover have "n - q \<le> LINE_MAX" using p by (auto simp: buf_ok_def)
    ultimately show ?thesis using False ls LF by (auto simp: after_lines_def)
  qed
qed

text \<open>A prepared request of a malformed line is an error, of a command it waits for the lock.\<close>

lemma after_request_error:
  "request_ok rq None \<Longrightarrow> after_request rq p n q = T_send ERROR_reply 0 (Some (p, n, q))"
  by (cases rq) (auto simp: after_request_def reply_bytes_def VALUE_MAX_def)

lemma after_request_cmd: "request_ok rq (Some cm) \<Longrightarrow> after_request rq p n q = T_lock rq p n q"
  by (cases rq) (auto simp: after_request_def)

lemma conn_after_scan:
  assumes inv: "conn_inv (T_scan p n q) got xs snt"
  shows "conn_inv (after_scan p n q) got xs snt"
proof -
  obtain ls where ls: "whole_lines ls" "got = unlines ls @ take (n - q) (drop q p)" "answered ls xs" "snt = so_far ls xs"
    and p: "buf_ok p n" "q \<le> n" using inv by auto
  let ?seg = "take (n - q) (drop q p)"
  have chr: "memchr p q LF (n - q) = Some (map_option (\<lambda>k. q + k) (find_index (\<lambda>x. x = LF) ?seg))"
    using p by (simp add: memchr_in buf_ok_def)
  show ?thesis
  proof (cases "LF \<in> set ?seg")
    case False
    then have "find_index (\<lambda>x. x = LF) ?seg = None" by (simp add: find_index_eq_None)
    then show ?thesis using conn_after_lines [OF inv False] chr by (simp add: after_scan_def)
  next
    case True
    then obtain l s where seg: "?seg = l @ LF # s" "LF \<notin> set l" by (rule split_at_LF)
    let ?k = "length l"
    have fi: "find_index (\<lambda>x. x = LF) ?seg = Some ?k"
      unfolding seg(1) using seg(2) by (simp add: find_index_append_first)
    have len: "?k + Suc (length s) = n - q"
      using arg_cong [OF seg(1), of length] p by (auto simp: buf_ok_def)
    have dq: "drop q p = l @ LF # s @ drop (n - q) (drop q p)"
      using seg(1) by (metis append.assoc append_Cons append_take_drop_id)
    have tk: "take ?k (drop q p) = l" by (subst dq) simp
    have "?k \<le> LINE_MAX" "q + ?k \<le> length p" using len p by (auto simp: buf_ok_def)
    then obtain rq where rq: "client_request p q ?k = Some rq" "request_ok rq (decode_line l)"
      using client_request_eq [OF tk refl _ seg(2)] by auto
    let ?q = "q + ?k + 1"
    have "drop ?q p = drop (?k + 1) (drop q p)" by (simp add: ac_simps)
    also have "\<dots> = s @ drop (n - q) (drop q p)" by (subst dq) simp
    finally have nxt: "take (n - ?q) (drop ?q p) = s" using len by (simp add: algebra_simps)
    have le: "?q \<le> n" using len p(2) by simp
    have step: "after_scan p n q = after_request rq p n ?q"
      using chr fi rq(1) by (simp add: after_scan_def)
    have got: "got = unlines (ls @ [l]) @ take (n - ?q) (drop ?q p)" "whole_lines (ls @ [l])"
      unfolding nxt using ls(1,2) seg by simp_all
    show ?thesis
    proof (cases "decode_line l")
      case None
      then show ?thesis
        unfolding step after_request_error [OF rq(2) [unfolded None]]
        using p(1) le got answered_error [OF ls(3) None] ls(4) by (auto intro!: exI [of _ "ls @ [l]"])
    next
      case (Some cm)
      then show ?thesis
        unfolding step after_request_cmd [OF rq(2) [unfolded Some]]
        using p(1) le got ls(3,4) Some rq(2) by auto
    qed
  qed
qed

text \<open>Running the critical section: it is defined and short enough to be sent.\<close>

lemma section_defined:
  assumes "store_inv (cells g)" and "decode_line l = Some cm" and "request_ok rq (Some cm)" and "clock_ok ts"
  obtains now st' r where "now_ms ts = Some now" and "now = ms_of ts"
    and "exec_cmd store_get store_del store_set now cm (cells g) = Some (st', r)"
    and "critical_section now rq (cells g) = Some (st', encode_reply r)"
    and "store_inv st'" and "length (encode_reply r) < VALUE_MAX + 32"
proof -
  have now: "now_ms ts = Some (ms_of ts)" "time_ok (ms_of ts)" using now_ms_of [OF assms(4)] by auto
  obtain st' r where "exec_cmd store_get store_del store_set (ms_of ts) cm (cells g) = Some (st', r)"
    "store_inv st'" "length (encode_reply r) < VALUE_MAX + 32"
    by (rule exec_cmd_ok [OF assms(1) now(2) decode_line_cmd_ok [OF assms(2)]])
  with critical_section_exec [OF assms(1,3), of "ms_of ts"] now(1) show thesis by (auto intro: that)
qed

lemma request_ok_cmd_of: "request_ok rq dc \<Longrightarrow> cmd_of rq = dc"
  by (cases rq) auto

lemma conn_closing:
  assumes "conn_inv (T_send b i x) got xs snt"
  shows "conn_inv T_close got xs snt"
proof (cases x)
  case None
  then show ?thesis using assms by (fastforce intro: prefixI)
next
  case (Some k)
  obtain p n q where "k = (p, n, q)" by (cases k)
  with Some assms obtain ls where "whole_lines ls" "got = unlines ls @ take (n - q) (drop q p)" "answered ls xs"
    "so_far ls xs = snt @ drop i b"
    by auto
  then show ?thesis by (auto intro!: exI [of _ ls])
qed

lemma conn_send:
  assumes "conn_inv (T_send b i x) got xs snt" and "k \<le> length b - i"
  shows "conn_inv (T_send b (i + k) x) got xs (snt @ take k (drop i b))"
proof -
  have "drop i b = take k (drop i b) @ drop (i + k) b"
    by (metis add.commute append_take_drop_id drop_drop)
  then show ?thesis
    using assms by (cases x) (auto simp del: append_take_drop_id)
qed

text \<open>What every program counter says: the replies to a prefix of the lines, at most an error more.\<close>

lemma conn_inv_replies:
  assumes "conn_inv pc got xs snt"
  shows "\<exists>ls rest. whole_lines ls \<and> got = unlines ls @ rest \<and> answered ls xs \<and> prefix snt (so_far ls xs @ ERROR_reply)"
proof (cases "\<exists>b i x. pc = T_send b i x")
  case True
  then obtain b i x where "pc = T_send b i x" by blast
  with conn_closing [of b i x] assms show ?thesis by auto
next
  case False
  have closed: ?thesis if "whole_lines ls" "got = unlines ls @ rest" "answered ls xs" "prefix snt (so_far ls xs)" for ls rest
    using that prefix_order.trans [of snt "so_far ls xs"] by (blast intro: prefixI)
  show ?thesis
    using False assms by (cases pc) (auto intro: closed)
qed

text \<open>Every step of a thread keeps what its program counter says.\<close>

lemma conn_tstep:
  assumes st: "tstep g c pc e g' pc'" and inv: "conn_inv pc got xs snt" "store_inv (cells g)"
  shows "conn_inv pc' (got @ recv_of c e) (xs @ exec_of c e) (snt @ send_of c e)"
  using st
proof (cases rule: tstep.cases)
  case (recv bs p n)
  then show ?thesis using conn_after_recv inv(1) by simp
next
  case (recv_end p n)
  then show ?thesis using inv(1) by auto
next
  case (scan p n q)
  then show ?thesis using conn_after_scan inv(1) by simp
next
  case (crit ts t rq st' msg p n q)
  obtain ls l cm where ls: "whole_lines (ls @ [l])" "got = unlines (ls @ [l]) @ take (n - q) (drop q p)"
    "decode_line l = Some cm" "request_ok rq (Some cm)" "answered ls xs" "snt = so_far ls xs" "buf_ok p n" "q \<le> n"
    using inv(1) crit(1) by auto
  obtain r where "msg = encode_reply r" "length (encode_reply r) < VALUE_MAX + 32"
    by (rule section_defined [OF inv(2) ls(3,4) crit(5)]) (use crit in auto)
  then show ?thesis
    using ls crit answered_cmd [OF ls(5,3), of msg] request_ok_cmd_of [OF ls(4)]
    by (auto intro!: exI [of _ "ls @ [l]"])
next
  case (crit_undefined ts rq p n q)
  then obtain l cm where l: "decode_line l = Some cm" "request_ok rq (Some cm)" using inv(1) by auto
  have False by (rule section_defined [OF inv(2) l crit_undefined(5)]) (use crit_undefined in auto)
  then show ?thesis ..
next
  case (unlock msg p n q)
  then show ?thesis using inv(1) by (auto simp: reply_bytes_def)
next
  case (send k b i x)
  then show ?thesis using conn_send [of b i x got xs snt k] inv(1) by simp
next
  case (send_failed i b x)
  then show ?thesis using conn_closing [of b i x] inv(1) by simp
next
  case (send_done b i x)
  show ?thesis
  proof (cases x)
    case None
    then show ?thesis using conn_closing [of b i x] inv(1) send_done by simp
  next
    case (Some k)
    then show ?thesis using inv(1) send_done by (cases k) auto
  qed
qed (use inv in auto)

section \<open>All connections\<close>

lemma tstep_other:
  "tstep g c pc e g' pc' \<Longrightarrow> d \<noteq> c \<Longrightarrow> recv_of d e = [] \<and> exec_of d e = [] \<and> send_of d e = []"
  by (cases rule: tstep.cases) (auto split: option.split)

text \<open>The bytes sent to a connection that has no thread (yet): at most an error reply.\<close>

fun main_sent :: "mpc \<Rightarrow> nat \<Rightarrow> bytes \<Rightarrow> bool" where
  "main_sent (M_reject c i) d snt \<longleftrightarrow> (if d = c then snt = take i ERROR_reply else prefix snt ERROR_reply)"
| "main_sent (M_reject_close c) d snt \<longleftrightarrow> prefix snt ERROR_reply"
| "main_sent M_accept d snt \<longleftrightarrow> prefix snt ERROR_reply"
| "main_sent (M_reserve c) d snt \<longleftrightarrow> (if d = c then snt = [] else prefix snt ERROR_reply)"
| "main_sent (M_malloc c) d snt \<longleftrightarrow> (if d = c then snt = [] else prefix snt ERROR_reply)"
| "main_sent (M_create c) d snt \<longleftrightarrow> (if d = c then snt = [] else prefix snt ERROR_reply)"
| "main_sent (M_release c) d snt \<longleftrightarrow> (if d = c then snt = [] else prefix snt ERROR_reply)"
| "main_sent (M_close c) d snt \<longleftrightarrow> (if d = c then snt = [] else prefix snt ERROR_reply)"

definition all_conns :: "event list \<Rightarrow> server \<Rightarrow> bool" where
  "all_conns es s \<longleftrightarrow> (\<forall>c.
     (case conns s c of
        Some pc \<Rightarrow> conn_inv pc (recvd c es) (executed c es) (sent_to c es)
      | None \<Rightarrow> recvd c es = [] \<and> executed c es = [] \<and> main_sent (main_pc s) c (sent_to c es) \<and>
          (next_conn s \<le> c \<longrightarrow> sent_to c es = [])))"

lemma prefix_take_send: "k \<le> length b - i \<Longrightarrow> take i b @ take k (drop i b) = take (i + k) b"
  by (simp add: take_add)

lemma main_sent_prefix: "main_sent m d snt \<Longrightarrow> prefix snt ERROR_reply"
  by (cases m) (auto split: if_splits intro: take_is_prefix)

lemma all_conns_step:
  assumes st: "step s e s'" and inv: "all_conns es s" "conns_inv s" "store_inv (cells (shr s))"
  shows "all_conns (es @ [e]) s'"
  unfolding all_conns_def
proof
  fix d
  let ?P = "\<lambda>es s. case conns s d of
        Some pc \<Rightarrow> conn_inv pc (recvd d es) (executed d es) (sent_to d es)
      | None \<Rightarrow> recvd d es = [] \<and> executed d es = [] \<and> main_sent (main_pc s) d (sent_to d es) \<and>
          (next_conn s \<le> d \<longrightarrow> sent_to d es = [])"
  have d: "?P es s" using inv(1) by (simp add: all_conns_def)
  have main: "c < next_conn s \<and> conns s c = None" if "main_conn (main_pc s) = Some c" for c
    using inv(2) that by (auto simp: conns_inv_def)
  show "?P (es @ [e]) s'"
    using st
  proof (cases rule: step.cases)
    case (client c pc g' pc')
    show ?thesis
    proof (cases "d = c")
      case True
      then show ?thesis using conn_tstep [OF client(3)] inv(3) d client(1,2) by simp
    next
      case False
      then show ?thesis
        using tstep_other [OF client(3) False] d client(1) by (simp split: option.splits)
    qed
  next
    case accept
    then show ?thesis using d main_sent_prefix [of "main_pc s" d] by (auto split: option.splits)
  next
    case (reject_send c i k)
    then show ?thesis
      using d main [of c] prefix_take_send [of k ERROR_reply i] by (auto split: option.splits)
  next
    case (create c)
    then show ?thesis
      using d main [of c] by (auto simp: buf_ok_def LINE_MAX_def intro!: exI [of _ "[]"] split: option.splits if_splits)
  qed (use d main_sent_prefix [of "main_pc s" d] in \<open>auto split: option.splits if_splits\<close>)
qed

section \<open>Refused connections\<close>

text \<open>\<open>main\<close> is about to tell connection \<open>c\<close> that it is refused, or has tried.\<close>

fun refusing :: "mpc \<Rightarrow> nat \<Rightarrow> bool" where
  "refusing (M_reject d i) c \<longleftrightarrow> d = c"
| "refusing (M_reject_close d) c \<longleftrightarrow> d = c"
| "refusing _ c \<longleftrightarrow> False"

fun telling :: "mpc \<Rightarrow> nat \<Rightarrow> bool" where
  "telling (M_reject d i) c \<longleftrightarrow> d = c"
| "telling _ c \<longleftrightarrow> False"

definition told :: "event list \<Rightarrow> nat \<Rightarrow> bool" where
  "told es c \<longleftrightarrow> sent_to c es = ERROR_reply \<or> Send_failed c \<in> set es"

definition refuse_inv :: "event list \<Rightarrow> server \<Rightarrow> bool" where
  "refuse_inv es s \<longleftrightarrow> (\<forall>c.
     (Refused c \<in> set es \<longrightarrow> conns s c = None \<and> c < next_conn s \<and>
        (main_conn (main_pc s) = Some c \<longrightarrow> refusing (main_pc s) c) \<and> (telling (main_pc s) c \<or> told es c)) \<and>
     (refusing (main_pc s) c \<longrightarrow> Refused c \<in> set es) \<and>
     (conns s c = None \<and> Refused c \<notin> set es \<longrightarrow> sent_to c es = []) \<and>
     (main_conn (main_pc s) = Some c \<or> next_conn s \<le> c \<longrightarrow> Closed c \<notin> set es) \<and>
     (conns s c = None \<and> c < next_conn s \<and> main_conn (main_pc s) \<noteq> Some c \<longrightarrow> Closed c \<in> set es))"

lemma refuse_invD:
  assumes "refuse_inv es s"
  shows "Refused c \<in> set es \<Longrightarrow> conns s c = None \<and> (telling (main_pc s) c \<or> told es c)"
    and "refusing (main_pc s) c \<Longrightarrow> Refused c \<in> set es"
    and "conns s c = None \<Longrightarrow> Refused c \<notin> set es \<Longrightarrow> sent_to c es = []"
    and "main_conn (main_pc s) = Some c \<Longrightarrow> Closed c \<notin> set es"
    and "conns s c = None \<Longrightarrow> c < next_conn s \<Longrightarrow> main_conn (main_pc s) \<noteq> Some c \<Longrightarrow> Closed c \<in> set es"
  using assms unfolding refuse_inv_def by simp_all

lemma tstep_events:
  "tstep g c pc e g' pc' \<Longrightarrow> e \<noteq> Refused d \<and> e \<noteq> Send_failed d \<and> (e = Closed d \<longrightarrow> d = c) \<and> (d \<noteq> c \<longrightarrow> send_of d e = [])"
  by (cases rule: tstep.cases) auto

lemma refusing_conn: "refusing m c \<Longrightarrow> main_conn m = Some c" "telling m c \<Longrightarrow> refusing m c"
  by (cases m; simp)+

lemma told_snoc: "told es c \<Longrightarrow> send_of c e = [] \<Longrightarrow> told (es @ [e]) c"
  by (auto simp: told_def)

lemma refuse_inv_step:
  assumes st: "step s e s'" and inv: "refuse_inv es s" "all_conns es s" "conns_inv s"
  shows "refuse_inv (es @ [e]) s'"
  unfolding refuse_inv_def
proof
  fix c
  let ?P = "\<lambda>es s. (Refused c \<in> set es \<longrightarrow> conns s c = None \<and> c < next_conn s \<and>
        (main_conn (main_pc s) = Some c \<longrightarrow> refusing (main_pc s) c) \<and> (telling (main_pc s) c \<or> told es c)) \<and>
     (refusing (main_pc s) c \<longrightarrow> Refused c \<in> set es) \<and>
     (conns s c = None \<and> Refused c \<notin> set es \<longrightarrow> sent_to c es = []) \<and>
     (main_conn (main_pc s) = Some c \<or> next_conn s \<le> c \<longrightarrow> Closed c \<notin> set es) \<and>
     (conns s c = None \<and> c < next_conn s \<and> main_conn (main_pc s) \<noteq> Some c \<longrightarrow> Closed c \<in> set es)"
  have c: "?P es s" using inv(1) by (simp add: refuse_inv_def)
  have main: "d < next_conn s \<and> conns s d = None" if "main_conn (main_pc s) = Some d" for d
    using inv(3) that by (auto simp: conns_inv_def)
  have dom: "d < next_conn s \<and> main_conn (main_pc s) \<noteq> Some d" if "conns s d = Some pc" for d pc
    using inv(3) that by (auto simp: conns_inv_def)
  have snt: "sent_to d es = take i ERROR_reply" if "main_pc s = M_reject d i" for d i
  proof -
    have "conns s d = None" using main [of d] that by simp
    then show ?thesis using inv(2) that by (auto simp: all_conns_def dest: spec [of _ d])
  qed
  show "?P (es @ [e]) s'"
    using st
  proof (cases rule: step.cases)
    case (client d pc g' pc')
    note ev = tstep_events [OF client(3)]
    show ?thesis
      using c ev [of c] dom [OF client(2)] client(1,2) told_snoc [of es c e]
      by (cases "c = d") auto
  next
    case (reject_send d i k)
    then show ?thesis using c main [of d] told_snoc [of es c e] by (cases "c = d") auto
  next
    case (reject_failed d i)
    then show ?thesis using c main [of d] told_snoc [of es c e] by (cases "c = d") (auto simp: told_def)
  next
    case (reject_sent d i)
    then show ?thesis using c main [of d] snt [of d i] told_snoc [of es c e] by (cases "c = d") (auto simp: told_def)
  qed (use c main told_snoc [of es c e] in \<open>auto split: if_splits simp: less_Suc_eq\<close>)
qed

section \<open>Linearizability\<close>

text \<open>
  The commands of all clients in the order of their critical sections, run by the abstract
  cache from the empty map: same replies, and a store that agrees with the final map.
\<close>

definition commands_of :: "event list \<Rightarrow> (int \<times> (string, string) cmd) list" where
  "commands_of es = map (\<lambda>(t, cm, text). (t, cm)) (history es)"

definition replies_of :: "event list \<Rightarrow> string list" where
  "replies_of es = map (\<lambda>(t, cm, text). text) (history es)"

definition abstract_run :: "event list \<Rightarrow> cache_map \<times> string reply list" where
  "abstract_run es = spec_run STORE_CAP (commands_of es) Map.empty"

definition lin_inv :: "event list \<Rightarrow> server \<Rightarrow> bool" where
  "lin_inv es s \<longleftrightarrow>
     map encode_reply (snd (abstract_run es)) = replies_of es \<and>
     cstore.refines (ms_of (clock (shr s))) (cells (shr s)) (fst (abstract_run es)) \<and>
     sorted (map fst (commands_of es)) \<and> (\<forall>t\<in>set (map fst (commands_of es)). t \<le> ms_of (clock (shr s)))"

lemma lin_inv_store: "lin_inv es s \<Longrightarrow> store_inv (cells (shr s))"
  by (simp add: lin_inv_def cstore.refines_def)

lemma hist_snoc:
  "commands_of (es @ [e]) = commands_of es @ map (\<lambda>(t, cm, text). (t, cm)) (hist_of e)"
  "replies_of (es @ [e]) = replies_of es @ map (\<lambda>(t, cm, text). text) (hist_of e)"
  by (simp_all add: commands_of_def replies_of_def)

text \<open>Everything but a critical section leaves store, clock and history alone.\<close>

lemma tstep_quiet:
  "tstep g c pc e g' pc' \<Longrightarrow> (\<forall>rq p n q. pc = T_crit rq p n q \<longrightarrow> pc' = T_undefined) \<Longrightarrow>
   cells g' = cells g \<and> clock g' = clock g \<and> hist_of e = []"
  by (cases rule: tstep.cases) auto

lemma lin_inv_quiet:
  assumes "lin_inv es s" and "hist_of e = []" and "cells (shr s') = cells (shr s)" and "clock (shr s') = clock (shr s)"
  shows "lin_inv (es @ [e]) s'"
  using assms by (simp add: lin_inv_def abstract_run_def hist_snoc)

lemma lin_inv_crit:
  assumes inv: "lin_inv es s" and cm: "decode_line l = Some cm" "request_ok rq (Some cm)"
    and ts: "clock_ok ts" "ms_of (clock (shr s)) \<le> ms_of ts" "now_ms ts = Some now"
    and sec: "critical_section now rq (cells (shr s)) = Some (st', msg)"
    and s': "cells (shr s') = st'" "clock (shr s') = ts"
  shows "lin_inv (es @ [Exec c now rq msg]) s'"
proof -
  let ?m = "fst (abstract_run es)"
  have now: "now = ms_of ts" "time_ok now" using now_ms_of [OF ts(1)] ts(3) by auto
  have "cstore.refines now (cells (shr s)) ?m"
    using inv ts(2) now(1) cstore.refines_later [of "ms_of (clock (shr s))"] by (simp add: lin_inv_def)
  from cstore.step_refines [OF this decode_line_cmd_ok [OF cm(1)] now(2)] obtain st2 where
    st2: "exec_cmd store_get store_del store_set now cm (cells (shr s)) = Some (st2, snd (spec_step STORE_CAP now cm ?m))"
    "cstore.refines now st2 (fst (spec_step STORE_CAP now cm ?m))"
    by blast
  have eq: "st' = st2" "msg = encode_reply (snd (spec_step STORE_CAP now cm ?m))"
    using critical_section_exec [OF lin_inv_store [OF inv] cm(2), of now] sec st2(1) by auto
  have run: "abstract_run (es @ [Exec c now rq msg]) =
    (fst (spec_step STORE_CAP now cm ?m), snd (abstract_run es) @ [snd (spec_step STORE_CAP now cm ?m)])"
    by (simp add: abstract_run_def hist_snoc request_ok_cmd_of [OF cm(2)] spec_run_append split: prod.split)
  have "\<forall>t\<in>set (map fst (commands_of es)). t \<le> now" "sorted (map fst (commands_of es))"
    using inv ts(2) now(1) by (auto simp: lin_inv_def)
  moreover have "map encode_reply (snd (abstract_run es)) = replies_of es" using inv by (simp add: lin_inv_def)
  ultimately show ?thesis
    unfolding lin_inv_def run s' hist_snoc
    using st2(2) eq now(1) by (simp add: request_ok_cmd_of [OF cm(2)] sorted_append)
qed

lemma lin_inv_step:
  assumes st: "step s e s'" and inv: "lin_inv es s" "all_conns es s"
  shows "lin_inv (es @ [e]) s'"
  using st
proof (cases rule: step.cases)
  case (client c pc g' pc')
  have ci: "conn_inv pc (recvd c es) (executed c es) (sent_to c es)"
    using inv(2) client(2) by (auto simp: all_conns_def dest: spec [of _ c])
  show ?thesis
  proof (cases "\<forall>rq p n q. pc = T_crit rq p n q \<longrightarrow> pc' = T_undefined")
    case True
    from tstep_quiet [OF client(3) this] lin_inv_quiet [OF inv(1)] client(1) show ?thesis by simp
  next
    case False
    then obtain rq p n q where pc: "pc = T_crit rq p n q" "pc' \<noteq> T_undefined" by blast
    then obtain l cm where l: "decode_line l = Some cm" "request_ok rq (Some cm)" using ci by auto
    from client(3) pc obtain ts now st' msg where c: "clock_ok ts" "ms_of (clock (shr s)) \<le> ms_of ts"
      "now_ms ts = Some now" "critical_section now rq (cells (shr s)) = Some (st', msg)"
      "e = Exec c now rq msg" "g' = (shr s)\<lparr>cells := st', clock := ts\<rparr>"
      by (auto simp: tstep_simps)
    show ?thesis
      unfolding c(5) by (rule lin_inv_crit [OF inv(1) l c(1-4)]) (simp_all add: client(1) c(6))
  qed
qed (use lin_inv_quiet [OF inv(1)] in auto)

text \<open>The server refuses a client when every slot is taken, and only then.\<close>

lemma refused_step:
  assumes "main_pc s = M_reserve c"
  shows "(\<exists>s'. step s (Refused c) s') \<longleftrightarrow> \<not> unat (active_clients (shr s)) < 32"
proof
  assume "\<exists>s'. step s (Refused c) s'"
  then show "\<not> unat (active_clients (shr s)) < 32"
    using assms by (auto elim!: stepE dest: tstep_events [where d = c] unat_reserve split: if_splits)
next
  assume "\<not> unat (active_clients (shr s)) < 32"
  then have "reserve_client_slot (active_clients (shr s)) = (active_clients (shr s), False)"
    by (simp add: reserve_client_slot_def CLIENT_LIMIT_def word_less_nat_alt)
  from step.reserve [OF assms this] show "\<exists>s'. step s (Refused c) s'" by auto
qed

text \<open>A thread that finds the mutex free takes it.\<close>

lemma lock_step:
  assumes "conns s c = Some (T_lock rq p n q)" and "holder (shr s) = None"
  shows "\<exists>s'. client_step c s Tau s' \<and> holder (shr s') = Some c \<and> conns s' c = Some (T_crit rq p n q)"
proof -
  let ?s = "s\<lparr>shr := (shr s)\<lparr>holder := Some c\<rparr>, conns := (conns s)(c \<mapsto> T_crit rq p n q)\<rparr>"
  have "client_step c s Tau ?s" unfolding client_step_def using assms tstep.lock [OF assms(2)] by blast
  then show ?thesis by (intro exI [of _ ?s]) simp
qed

text \<open>A thread that holds the mutex can always go on, and releases it after at most two steps.\<close>

definition unlocked :: "nat \<Rightarrow> server \<Rightarrow> timespec \<Rightarrow> server \<Rightarrow> bool" where
  "unlocked d s ts s' \<longleftrightarrow> holder (shr s') = None \<and> clock (shr s') = ts \<and> (\<forall>c. c \<noteq> d \<longrightarrow> conns s' c = conns s c)"

lemma unlock_step:
  assumes "conns s d = Some (T_unlock msg p n q)"
  shows "\<exists>s'. client_step d s Tau s' \<and> unlocked d s (clock (shr s)) s'"
proof -
  let ?s = "s\<lparr>shr := (shr s)\<lparr>holder := None\<rparr>, conns := (conns s)(d \<mapsto> T_send (reply_bytes msg) 0 (Some (p, n, q)))\<rparr>"
  have "client_step d s Tau ?s"
    unfolding client_step_def using assms tstep.unlock [of "shr s" d msg p n q] by blast
  moreover have "unlocked d s (clock (shr s)) ?s" by (simp add: unlocked_def)
  ultimately show ?thesis by blast
qed

definition before_clock :: "tpc \<Rightarrow> bool" where
  "before_clock pc \<longleftrightarrow> (\<exists>rq p n q. pc = T_crit rq p n q)"

lemma section_runs_out:
  assumes pc: "conns s d = Some pc" "in_section pc" and inv: "conn_inv pc got xs snt" "store_inv (cells (shr s))"
    and u: "clock_ok u" "ms_of (clock (shr s)) \<le> ms_of u"
  shows "\<exists>es' s'. runs (client_step d) s es' s' \<and> length es' \<le> 2 \<and>
    unlocked d s (if before_clock pc then u else clock (shr s)) s'"
proof (cases pc)
  case (T_crit rq p n q)
  then obtain l cm where l: "decode_line l = Some cm" "request_ok rq (Some cm)" using inv(1) by auto
  obtain now st' r where c: "now_ms u = Some now" "critical_section now rq (cells (shr s)) = Some (st', encode_reply r)"
    by (rule section_defined [OF inv(2) l u(1)])
  let ?s = "s\<lparr>shr := (shr s)\<lparr>cells := st', clock := u\<rparr>, conns := (conns s)(d \<mapsto> T_unlock (encode_reply r) p n q)\<rparr>"
  have 1: "client_step d s (Exec d now rq (encode_reply r)) ?s"
    unfolding client_step_def using pc(1) T_crit tstep.crit [OF u c, of d p n q] by blast
  obtain s' where 2: "client_step d ?s Tau s'" "unlocked d ?s u s'"
    using unlock_step [of ?s d "encode_reply r" p n q] by auto
  have "runs (client_step d) s [Exec d now rq (encode_reply r), Tau] s'"
    by (rule runs_Cons [of "client_step d", OF 1 runs_one [of "client_step d", OF 2(1)]])
  moreover have "unlocked d s u s'" using 2(2) by (simp add: unlocked_def)
  moreover have "before_clock pc" using T_crit by (simp add: before_clock_def)
  ultimately show ?thesis by (intro exI [of _ "[Exec d now rq (encode_reply r), Tau]"] exI [of _ s']) simp
next
  case (T_unlock msg p n q)
  then obtain s' where s': "client_step d s Tau s'" "unlocked d s (clock (shr s)) s'" using unlock_step pc(1) by blast
  have "\<not> before_clock pc" using T_unlock by (simp add: before_clock_def)
  then show ?thesis using s' runs_one [of "client_step d", OF s'(1)] by (intro exI [of _ "[Tau]"] exI [of _ s']) simp
qed (use pc in auto)

section \<open>Every execution\<close>

definition server_inv :: "event list \<Rightarrow> server \<Rightarrow> bool" where
  "server_inv es s \<longleftrightarrow> conns_inv s \<and> lock_inv s \<and> slots_inv s \<and> all_conns es s \<and> refuse_inv es s \<and> lin_inv es s"

lemma no_undefined: "all_conns es s \<Longrightarrow> conns s c \<noteq> Some T_undefined"
  by (auto simp: all_conns_def dest: spec [of _ c])

lemma server_inv_initial: "clock_ok ts \<Longrightarrow> server_inv [] (initial_server ts)"
  by (auto simp: server_inv_def conns_inv_def lock_inv_def slots_inv_def slots_def slot_conns_def
      all_conns_def refuse_inv_def lin_inv_def abstract_run_def commands_of_def replies_of_def initial_server_def
      refines_initial)

lemma server_inv_step:
  assumes st: "step s e s'" and inv: "server_inv es s"
  shows "server_inv (es @ [e]) s'"
proof -
  have i: "conns_inv s" "lock_inv s" "slots_inv s" "all_conns es s" "lin_inv es s" "refuse_inv es s"
    using inv by (simp_all add: server_inv_def)
  have a: "all_conns (es @ [e]) s'" by (rule all_conns_step [OF st i(4,1) lin_inv_store [OF i(5)]])
  show ?thesis
    unfolding server_inv_def
    using conns_inv_step [OF st i(1)] lock_inv_step [OF st i(2,1) no_undefined [OF a]]
      slots_inv_step [OF st i(3,1)] a refuse_inv_step [OF st i(6,4,1)] lin_inv_step [OF st i(5,4)] by blast
qed

definition started :: "server \<Rightarrow> bool" where
  "started s \<longleftrightarrow> (\<exists>ts. clock_ok ts \<and> s = initial_server ts)"

interpretation srv: traced_system started step server_inv
  by unfold_locales (auto simp: started_def intro: server_inv_initial server_inv_step)

lemma server_inv_run:
  assumes "run_server (initial_server ts) es s" and "clock_ok ts"
  shows "server_inv es s"
  using srv.inv_runs [OF assms(1)] assms(2) by (auto simp: started_def)

end
