(* ===== verification/Cache_Example.thy ===== *)
theory Cache_Example
  imports Cache_Linear
begin

text \<open>
  Executions of the cache server from its start: a client connects, sends a GET for a
  key that is not there, and receives the whole reply; a second client waits for the mutex meanwhile; the 33rd client
  of a full server is refused; a client for which no thread can be made is turned away. They show that the steps of
  \<open>Cache_Server\<close> fit together and that the hypotheses of the theorems about executions can
  hold.
\<close>

lemma demo_recv: "after_recv (''GET k'' @ [LF]) [] 0 = T_scan (''GET k'' @ [LF]) 6 0"
  by (simp add: after_recv_def LINE_MAX_def memcpy_def)

lemma demo_request: "client_request (''GET k'' @ [LF]) 0 5 = Some (Get_req (''k'' @ [NUL]))"
proof -
  have "parse_line (''GET k'' @ [NUL]) = Some (Get_req (''k'' @ [NUL]))"
    by (simp add: parse_line_def parse_get_def valid_key_def KEY_MAX_def isspace_def eval_nat_numeral)
  then show ?thesis
    by (simp add: client_request_def memcpy_def LINE_MAX_def memchr_def write_at_def read_at_def)
qed

lemma demo_scan: "after_scan (''GET k'' @ [LF]) 6 0 = T_lock (Get_req (''k'' @ [NUL])) (''GET k'' @ [LF]) 6 6"
  using demo_request by (simp add: after_scan_def memchr_def after_request_def eval_nat_numeral)

lemma demo_section: "critical_section t (Get_req (''k'' @ [NUL])) initial_store = Some (initial_store, NOT_FOUND_reply)"
proof -
  have "find_index (holds_key (cstr (''k'' @ [NUL]))) initial_store = None"
    by (subst find_index_None) (auto simp: initial_store_def zero_entry_def holds_key_def)
  moreover have "terminated (''k'' @ [NUL])" by (simp add: terminated_def)
  ultimately show ?thesis
    using lookup_eq [OF store_inv_initial, of "''k'' @ [NUL]" t] by (simp add: get_section_def)
qed

definition demo_clock :: timespec where
  "demo_clock = \<lparr>tv_sec = 0, tv_nsec = 0\<rparr>"

lemma demo_clock_ok: "clock_ok demo_clock"
  by (simp add: demo_clock_def clock_ok_def)

lemmas server_Cons = runs_Cons [of step]

definition demo_shared :: shared where
  "demo_shared = \<lparr>cells = initial_store, holder = None, clock = demo_clock, active_clients = 1\<rparr>"

definition demo_server :: "nat option \<Rightarrow> tpc \<Rightarrow> server" where
  "demo_server h pc = \<lparr>shr = demo_shared\<lparr>holder := h\<rparr>, main_pc = M_accept, conns = [0 \<mapsto> pc], next_conn = 1\<rparr>"

lemma demo_thread:
  "tstep (demo_shared\<lparr>holder := h\<rparr>) 0 pc e (demo_shared\<lparr>holder := h'\<rparr>) pc' \<Longrightarrow> step (demo_server h pc) e (demo_server h' pc')"
  using step.client [of "demo_server h pc" 0 pc e "demo_shared\<lparr>holder := h'\<rparr>" pc'] by (simp add: demo_server_def)

text \<open>A connection that is accepted and gets its thread.\<close>

lemma accept_one:
  assumes "main_pc s = M_accept" and "active_clients (shr s) < 32"
  shows "run_server s [Tau, Tau, Tau, Tau] (s\<lparr>shr := (shr s)\<lparr>active_clients := active_clients (shr s) + 1\<rparr>,
    conns := (conns s)(next_conn s \<mapsto> T_recv [] 0), next_conn := Suc (next_conn s)\<rparr>)"
proof -
  let ?s1 = "s\<lparr>main_pc := M_reserve (next_conn s), next_conn := Suc (next_conn s)\<rparr>"
  let ?s2 = "?s1\<lparr>shr := (shr s)\<lparr>active_clients := active_clients (shr s) + 1\<rparr>, main_pc := M_malloc (next_conn s)\<rparr>"
  let ?s3 = "?s2\<lparr>main_pc := M_create (next_conn s)\<rparr>"
  have 1: "step s Tau ?s1" by (rule step.accept [OF assms(1)])
  have 2: "step ?s1 Tau ?s2"
    using step.reserve [of ?s1 "next_conn s" "active_clients (shr s) + 1" True] assms(2)
    by (simp add: reserve_client_slot_def CLIENT_LIMIT_def)
  have 3: "step ?s2 Tau ?s3" using step.malloc [of ?s2 "next_conn s" True] by simp
  have 4: "step ?s3 Tau (?s3\<lparr>main_pc := M_accept, conns := (conns s)(next_conn s \<mapsto> T_recv [] 0)\<rparr>)"
    using step.create [of ?s3 "next_conn s"] by simp
  have "run_server s [Tau, Tau, Tau, Tau] (?s3\<lparr>main_pc := M_accept, conns := (conns s)(next_conn s \<mapsto> T_recv [] 0)\<rparr>)"
    by (rule server_Cons [OF 1] server_Cons [OF 2] server_Cons [OF 3] server_Cons [OF 4] runs.start)+
  then show ?thesis using assms(1) by (cases s) simp
qed

lemma demo_accept: "run_server (initial_server demo_clock) [Tau, Tau, Tau, Tau] (demo_server None (T_recv [] 0))"
  using accept_one [of "initial_server demo_clock"] by (simp add: initial_server_def demo_server_def demo_shared_def)

text \<open>The client waits for the mutex, then holds it, then has received the whole reply.\<close>

definition demo_waiting :: server where
  "demo_waiting = demo_server None (T_lock (Get_req (''k'' @ [NUL])) (''GET k'' @ [LF]) 6 6)"

definition demo_inside :: server where
  "demo_inside = demo_server (Some 0) (T_crit (Get_req (''k'' @ [NUL])) (''GET k'' @ [LF]) 6 6)"

definition demo_final :: server where
  "demo_final = demo_server None (T_send NOT_FOUND_reply 10 (Some (''GET k'' @ [LF], 6, 6)))"

definition demo_events :: "event list" where
  "demo_events = [Tau, Tau, Tau, Tau, Recv 0 (''GET k'' @ [LF]), Tau, Tau,
     Exec 0 0 (Get_req (''k'' @ [NUL])) NOT_FOUND_reply, Tau, Send 0 NOT_FOUND_reply]"

lemma demo_run_waiting:
  "run_server (initial_server demo_clock) [Tau, Tau, Tau, Tau, Recv 0 (''GET k'' @ [LF]), Tau] demo_waiting"
proof -
  let ?b = "''GET k'' @ [LF]"
  have 1: "step (demo_server None (T_recv [] 0)) (Recv 0 ?b) (demo_server None (T_scan ?b 6 0))"
    using tstep.recv [of ?b "demo_shared\<lparr>holder := None\<rparr>" 0 "[]" 0] demo_recv
    by (intro demo_thread) (simp add: RECV_BUF_def)
  have 2: "step (demo_server None (T_scan ?b 6 0)) Tau demo_waiting"
    using tstep.scan [of "demo_shared\<lparr>holder := None\<rparr>" 0 ?b 6 0] demo_scan
    unfolding demo_waiting_def by (intro demo_thread) simp
  have "run_server (demo_server None (T_recv [] 0)) [Recv 0 ?b, Tau] demo_waiting"
    by (rule server_Cons [OF 1] server_Cons [OF 2] runs.start)+
  from runs_trans [OF demo_accept this] show ?thesis by simp
qed

lemma demo_run_inside:
  "run_server (initial_server demo_clock) [Tau, Tau, Tau, Tau, Recv 0 (''GET k'' @ [LF]), Tau, Tau] demo_inside"
proof -
  have "step demo_waiting Tau demo_inside"
    using tstep.lock [of "demo_shared\<lparr>holder := None\<rparr>" 0 "Get_req (''k'' @ [NUL])" "''GET k'' @ [LF]" 6 6]
    unfolding demo_waiting_def demo_inside_def by (intro demo_thread) simp
  from runs.more [of step, OF demo_run_waiting this] show ?thesis by simp
qed

lemma demo_run: "run_server (initial_server demo_clock) demo_events demo_final"
proof -
  let ?b = "''GET k'' @ [LF]" and ?rq = "Get_req (''k'' @ [NUL])"
  have 1: "step demo_inside (Exec 0 0 ?rq NOT_FOUND_reply) (demo_server (Some 0) (T_unlock NOT_FOUND_reply ?b 6 6))"
    using tstep.crit [of demo_clock "demo_shared\<lparr>holder := Some 0\<rparr>" 0 ?rq initial_store NOT_FOUND_reply 0 ?b 6 6]
      demo_section [of 0] now_ms_of [OF demo_clock_ok] unfolding demo_inside_def
    by (intro demo_thread) (simp add: demo_shared_def demo_clock_ok, simp add: demo_clock_def ms_of_def)
  have 2: "step (demo_server (Some 0) (T_unlock NOT_FOUND_reply ?b 6 6)) Tau
      (demo_server None (T_send NOT_FOUND_reply 0 (Some (?b, 6, 6))))"
    using tstep.unlock [of "demo_shared\<lparr>holder := Some 0\<rparr>" 0 NOT_FOUND_reply ?b 6 6]
    by (intro demo_thread) (simp add: reply_bytes_def VALUE_MAX_def)
  have 3: "step (demo_server None (T_send NOT_FOUND_reply 0 (Some (?b, 6, 6)))) (Send 0 NOT_FOUND_reply) demo_final"
    using tstep.send [of 10 NOT_FOUND_reply 0 "demo_shared\<lparr>holder := None\<rparr>" 0 "Some (?b, 6, 6)"]
    unfolding demo_final_def by (intro demo_thread) simp
  have "run_server demo_inside [Exec 0 0 ?rq NOT_FOUND_reply, Tau, Send 0 NOT_FOUND_reply] demo_final"
    by (rule server_Cons [OF 1] server_Cons [OF 2] server_Cons [OF 3] runs.start)+
  from runs_trans [OF demo_run_inside this] show ?thesis by (simp add: demo_events_def)
qed

text \<open>While the first client is in its critical section, a second one wants the mutex.\<close>

definition demo_both :: server where
  "demo_both = \<lparr>shr = demo_shared\<lparr>holder := Some 0, active_clients := 2\<rparr>, main_pc = M_accept,
     conns = [0 \<mapsto> T_crit (Get_req (''k'' @ [NUL])) (''GET k'' @ [LF]) 6 6, 1 \<mapsto> T_lock (Get_req (''k'' @ [NUL])) (''GET k'' @ [LF]) 6 6],
     next_conn = 2\<rparr>"

lemma demo_run_both: "\<exists>es. run_server (initial_server demo_clock) es demo_both"
proof -
  let ?b = "''GET k'' @ [LF]" and ?g = "demo_shared\<lparr>holder := Some 0, active_clients := 2\<rparr>"
  let ?s = "\<lambda>pc. \<lparr>shr = ?g, main_pc = M_accept, conns = [0 \<mapsto> T_crit (Get_req (''k'' @ [NUL])) ?b 6 6, 1 \<mapsto> pc], next_conn = 2\<rparr>"
  have 1: "run_server demo_inside [Tau, Tau, Tau, Tau] (?s (T_recv [] 0))"
    using accept_one [of demo_inside] by (simp add: demo_inside_def demo_server_def demo_shared_def flip: numeral_2_eq_2)
  have 2: "step (?s (T_recv [] 0)) (Recv 1 ?b) (?s (T_scan ?b 6 0))"
    using step.client [of "?s (T_recv [] 0)" 1 "T_recv [] 0" "Recv 1 ?b" ?g "T_scan ?b 6 0"] tstep.recv [of ?b ?g 1 "[]" 0] demo_recv
    by (simp add: RECV_BUF_def)
  have 3: "step (?s (T_scan ?b 6 0)) Tau demo_both"
    using step.client [of "?s (T_scan ?b 6 0)" 1 "T_scan ?b 6 0" Tau ?g "after_scan ?b 6 0"] tstep.scan [of ?g 1 ?b 6 0] demo_scan
    by (simp add: demo_both_def)
  have "run_server (?s (T_recv [] 0)) [Recv 1 ?b, Tau] demo_both"
    by (rule server_Cons [OF 2] server_Cons [OF 3] runs.start)+
  from runs_trans [OF runs_trans [OF demo_run_inside 1] this] show ?thesis by blast
qed

text \<open>A server with \<open>n\<close> idle clients, and what happens to the next one when there are 32.\<close>

definition crowd :: "nat \<Rightarrow> server" where
  "crowd n = \<lparr>shr = demo_shared\<lparr>active_clients := of_nat n\<rparr>, main_pc = M_accept,
     conns = (\<lambda>c. if c < n then Some (T_recv [] 0) else None), next_conn = n\<rparr>"

lemma crowd_run: "n \<le> 32 \<Longrightarrow> run_server (initial_server demo_clock) (replicate (n * 4) Tau) (crowd n)"
proof (induction n)
  case 0
  have "initial_server demo_clock = crowd 0" by (simp add: initial_server_def crowd_def demo_shared_def)
  then show ?case using runs.start [of step] by simp
next
  case (Suc n)
  have "(of_nat n :: 64 word) < 32" using Suc.prems by (simp add: word_less_nat_alt unat_of_nat take_bit_nat_eq_self)
  moreover have "(\<lambda>c. if c < n then Some (T_recv [] 0) else None)(n \<mapsto> T_recv [] 0) = (\<lambda>c. if c < Suc n then Some (T_recv [] 0) else None)"
    by (auto simp: less_Suc_eq)
  ultimately have "run_server (crowd n) [Tau, Tau, Tau, Tau] (crowd (Suc n))"
    using accept_one [of "crowd n"] by (simp add: crowd_def add.commute)
  moreover have "replicate (Suc n * 4) Tau = replicate (n * 4) Tau @ [Tau, Tau, Tau, Tau]"
    using replicate_add [of "n * 4" 4 Tau] by (simp add: numeral_eq_Suc add.commute)
  ultimately show ?case using Suc runs_trans by fastforce
qed

definition demo_refused :: "event list" where
  "demo_refused = replicate 128 Tau @ [Tau, Refused 32, Send 32 ERROR_reply, Tau, Closed 32]"

lemma demo_run_refused: "run_server (initial_server demo_clock) demo_refused ((crowd 32)\<lparr>next_conn := 33\<rparr>)"
proof -
  let ?s = "\<lambda>pc. (crowd 32)\<lparr>next_conn := 33, main_pc := pc\<rparr>"
  have 1: "step (crowd 32) Tau (?s (M_reserve 32))" using step.accept [of "crowd 32"] by (simp add: crowd_def)
  have 2: "step (?s (M_reserve 32)) (Refused 32) (?s (M_reject 32 0))"
    using step.reserve [of "?s (M_reserve 32)" 32 32 False] by (simp add: crowd_def reserve_client_slot_def CLIENT_LIMIT_def)
  have 3: "step (?s (M_reject 32 0)) (Send 32 ERROR_reply) (?s (M_reject 32 6))"
    using step.reject_send [of "?s (M_reject 32 0)" 32 0 6] by simp
  have 4: "step (?s (M_reject 32 6)) Tau (?s (M_reject_close 32))" using step.reject_sent [of "?s (M_reject 32 6)" 32 6] by simp
  have 5: "step (?s (M_reject_close 32)) (Closed 32) ((crowd 32)\<lparr>next_conn := 33\<rparr>)"
    using step.reject_close [of "?s (M_reject_close 32)" 32] by (simp add: crowd_def)
  have "run_server (crowd 32) [Tau, Refused 32, Send 32 ERROR_reply, Tau, Closed 32] ((crowd 32)\<lparr>next_conn := 33\<rparr>)"
    by (rule server_Cons [OF 1] server_Cons [OF 2] server_Cons [OF 3] server_Cons [OF 4] server_Cons [OF 5] runs.start)+
  with crowd_run [of 32] show ?thesis using runs_trans by (simp add: demo_refused_def)
qed

text \<open>The argument of the thread cannot be allocated.\<close>

lemma demo_run_no_thread:
  "run_server (initial_server demo_clock) [Tau, Tau, Tau, Tau, Closed 0] ((crowd 0)\<lparr>next_conn := 1\<rparr>)"
proof -
  let ?s = "\<lambda>n pc. \<lparr>shr = demo_shared\<lparr>active_clients := n\<rparr>, main_pc = pc, conns = Map.empty, next_conn = 1\<rparr>"
  have 1: "step (initial_server demo_clock) Tau (?s 0 (M_reserve 0))"
    using step.accept [of "initial_server demo_clock"] by (simp add: initial_server_def demo_shared_def)
  have 2: "step (?s 0 (M_reserve 0)) Tau (?s 1 (M_malloc 0))"
    using step.reserve [of "?s 0 (M_reserve 0)" 0 1 True] by (simp add: reserve_client_slot_def CLIENT_LIMIT_def)
  have 3: "step (?s 1 (M_malloc 0)) Tau (?s 1 (M_release 0))" using step.malloc [of "?s 1 (M_malloc 0)" 0 False] by simp
  have 4: "step (?s 1 (M_release 0)) Tau (?s 0 (M_close 0))"
    using step.undo_release [of "?s 1 (M_release 0)" 0] by (simp add: release_client_slot_def)
  have 5: "step (?s 0 (M_close 0)) (Closed 0) ((crowd 0)\<lparr>next_conn := 1\<rparr>)"
    using step.undo_close [of "?s 0 (M_close 0)" 0] by (simp add: crowd_def)
  show ?thesis
    by (rule server_Cons [OF 1] server_Cons [OF 2] server_Cons [OF 3] server_Cons [OF 4] server_Cons [OF 5] runs.start)+
qed

end
