(* ===== verification/Cache_Main.thy ===== *)
theory Cache_Main
  imports Cache_Server
begin

text \<open>
  \<open>main\<close> of \<^verbatim>\<open>in-mem-cache/server.c\<close> up to the accept loop: the command line and the
  listening socket. The accept loop itself is in \<open>Cache_Server\<close>. The answers of the kernel
  and of \<open>inet_pton\<close> are arguments; the result is the list of calls made and the exit
  status, or the listening socket.
\<close>

definition DEFAULT_HOST :: string where "DEFAULT_HOST = ''127.0.0.1''"
definition DEFAULT_PORT :: int where "DEFAULT_PORT = 11211"
definition LISTEN_BACKLOG :: int where "LISTEN_BACKLOG = 16"

text \<open>What \<open>main\<close> does that can be observed before it accepts: system calls and output.\<close>

datatype setup_call =
    C_ignore_sigpipe
  | C_socket
  | C_setsockopt int
  | C_inet_pton string
  | C_bind int "16 word"
  | C_listen int int
  | C_close int
  | C_stdout string
  | C_stderr string
  | C_perror string

definition usage :: "string \<Rightarrow> setup_call" where
  "usage prog = C_stderr (''Usage: '' @ prog @ '' [--listen-host HOST] [--listen-port PORT]'' @ [LF])"

datatype startup = Listen_on string int | Exit_with setup_call int

text \<open>The argument of \<^verbatim>\<open>--listen-port\<close>: \<open>None\<close> is the error exit.\<close>

definition port_of :: "string \<Rightarrow> int option" where
  "port_of s =
     (case strtol10 (s @ [NUL]) of
        None \<Rightarrow> None
      | Some (v, end) \<Rightarrow>
          if read_at (s @ [NUL]) end \<noteq> Some NUL \<or> v < 1 \<or> v > 65535 then None else Some v)"

fun parse_args :: "string \<Rightarrow> string list \<Rightarrow> string \<Rightarrow> int \<Rightarrow> startup" where
  "parse_args prog [] host port = Listen_on host port"
| "parse_args prog [a] host port =
     (if a = ''--help'' \<or> a = ''-h'' then Exit_with (usage prog) 0 else Exit_with (usage prog) 2)"
| "parse_args prog (a # b # rest) host port =
     (if a = ''--listen-host'' then parse_args prog rest b port
      else if a = ''--listen-port'' then
        (case port_of b of
           None \<Rightarrow> Exit_with (C_stderr (''port must be between 1 and 65535'' @ [LF])) 2
         | Some v \<Rightarrow> parse_args prog rest host v)
      else if a = ''--help'' \<or> a = ''-h'' then Exit_with (usage prog) 0
      else Exit_with (usage prog) 2)"

text \<open>Setting up the listening socket.\<close>

record setup_answers =
  socket_ret :: int
  pton_ret :: int
  bind_ret :: int
  listen_ret :: int

definition serving :: "string \<Rightarrow> int \<Rightarrow> setup_call" where
  "serving host port = C_stdout (''serving cache on '' @ host @ '':'' @ show_int port @ '' ...'' @ [LF])"

definition setup_listener :: "setup_answers \<Rightarrow> string \<Rightarrow> int \<Rightarrow> setup_call list \<times> (int + int)" where
  "setup_listener k host port =
     (let listener = socket_ret k;
          t1 = [C_ignore_sigpipe, C_socket];
          t2 = t1 @ [C_setsockopt listener, C_inet_pton host];
          t3 = t2 @ [C_bind listener (of_int port)];
          t4 = t3 @ [C_listen listener LISTEN_BACKLOG]
      in if listener < 0 then (t1 @ [C_perror ''socket''], Inl 1)
         else if pton_ret k \<noteq> 1 then
           (t2 @ [C_stderr (''invalid listen host: '' @ host @ [LF]), C_close listener], Inl 2)
         else if bind_ret k \<noteq> 0 then (t3 @ [C_perror ''bind'', C_close listener], Inl 1)
         else if listen_ret k \<noteq> 0 then (t4 @ [C_perror ''listen'', C_close listener], Inl 1)
         else (t4 @ [serving host port], Inr listener))"

definition cache_main :: "setup_answers \<Rightarrow> string list \<Rightarrow> setup_call list \<times> (int + int)" where
  "cache_main k argv =
     (case parse_args (hd argv) (tl argv) DEFAULT_HOST DEFAULT_PORT of
        Exit_with message code \<Rightarrow> ([message], Inl code)
      | Listen_on host port \<Rightarrow> setup_listener k host port)"

section \<open>Facts\<close>

fun diagnostic :: "setup_call \<Rightarrow> bool" where
  "diagnostic (C_stderr line) = True"
| "diagnostic (C_perror op) = True"
| "diagnostic _ = False"

lemma port_of_range: "port_of s = Some v \<Longrightarrow> 1 \<le> v \<and> v \<le> 65535"
  by (auto simp: port_of_def split: option.splits if_splits)

lemma parse_args_port:
  "1 \<le> port \<Longrightarrow> port \<le> 65535 \<Longrightarrow> parse_args prog args host port = Listen_on h p \<Longrightarrow> 1 \<le> p \<and> p \<le> 65535"
  by (induction prog args host port rule: parse_args.induct)
    (auto dest: port_of_range split: if_splits option.splits)

lemma parse_args_exit:
  "parse_args prog args host port = Exit_with msg c \<Longrightarrow>
   msg = usage prog \<and> (c = 0 \<or> c = 2) \<or> msg = C_stderr (''port must be between 1 and 65535'' @ [LF]) \<and> c = 2"
  by (induction prog args host port rule: parse_args.induct) (auto split: if_splits option.splits)

text \<open>Every decimal number in range is accepted as the port it denotes.\<close>

lemma port_of_show_dec:
  assumes "1 \<le> n" and "n \<le> 65535"
  shows "port_of (show_dec n) = Some (int n)"
  using assms strtol10_show_dec [of n] by (simp add: port_of_def read_at_def nth_append)

lemma uint16_port: "1 \<le> p \<Longrightarrow> p \<le> 65535 \<Longrightarrow> uint (of_int p :: 16 word) = p"
  by (simp add: uint_word_of_int_eq take_bit_int_eq_self)

section \<open>What a command line means\<close>

text \<open>The texts that denote a port: a decimal number from 1 to 65535, perhaps behind white space and a plus sign.\<close>

definition port_text :: "string \<Rightarrow> int \<Rightarrow> bool" where
  "port_text s v \<longleftrightarrow> (\<exists>ws sgn ds. s = ws @ sgn @ ds \<and> list_all isspace ws \<and> (sgn = [] \<or> sgn = ''+'') \<and>
     ds \<noteq> [] \<and> list_all isdigit ds \<and> v = digits_val ds \<and> 1 \<le> v \<and> v \<le> 65535)"

lemma port_of_textD:
  assumes "NUL \<notin> set s" and "port_of s = Some v"
  shows "port_text s v"
proof -
  define ws where "ws = takeWhile isspace s"
  define r where "r = drop (length ws) s"
  define sgn where "sgn = (case r of [] \<Rightarrow> 0 | c # _ \<Rightarrow> if c = CHR ''-'' \<or> c = CHR ''+'' then 1 else (0::nat))"
  define ds where "ds = takeWhile isdigit (drop sgn r)"
  define neg where "neg = (sgn = 1 \<and> hd r = CHR ''-'')"
  define x where "x = (if neg then - digits_val ds else digits_val ds)"
  have s: "s = ws @ r" by (simp add: ws_def r_def flip: dropWhile_eq_drop)
  have lt: "strtol10 (s @ [NUL]) = (if ds = [] then Some (0, 0) else Some (max LONG_MIN (min LONG_MAX x), length ws + sgn + length ds))"
    unfolding strtol10_def Let_def x_def neg_def ds_def sgn_def r_def ws_def cstr_append_NUL [OF assms(1)]
    by (simp only: terminated_append if_True)
  have ds: "ds \<noteq> []" using assms(2) lt by (auto simp: port_of_def)
  then have v: "v = max LONG_MIN (min LONG_MAX x)" "1 \<le> v" "v \<le> 65535" "read_at (s @ [NUL]) (length ws + sgn + length ds) = Some NUL"
    using assms(2) lt by (auto simp: port_of_def split: if_splits)
  have dig: "list_all isdigit ds" by (auto simp: ds_def list_all_iff dest: set_takeWhileD)
  then have "0 \<le> digits_val ds" using digits_val_bounds [of ds] by (auto simp: list_all_iff)
  then have "\<not> neg" "x = digits_val ds" "v = x" using v(1-3) by (auto simp: x_def LONG_MAX_def LONG_MIN_def split: if_splits)
  have "length ws + sgn + length ds \<le> length s" "(s @ [NUL]) ! (length ws + sgn + length ds) = NUL"
    using v(4) by (auto simp: read_at_def split: if_splits)
  then have "length ws + sgn + length ds = length s"
    using assms(1) by (metis le_neq_implies_less nth_append nth_mem)
  then have "length ds = length (drop sgn r)" using arg_cong [OF s, of length] by simp
  then have "drop sgn r = ds" unfolding ds_def by (metis takeWhile_eq_take take_all order_refl)
  moreover have "take sgn r = [] \<or> take sgn r = ''+''"
    using \<open>\<not> neg\<close> by (cases r) (auto simp: sgn_def neg_def split: if_splits)
  ultimately have "s = ws @ take sgn r @ ds" using s by (metis append_take_drop_id)
  moreover have "list_all isspace ws" by (auto simp: ws_def list_all_iff dest: set_takeWhileD)
  ultimately show ?thesis
    unfolding port_text_def using dig ds v(2,3) \<open>x = digits_val ds\<close> \<open>v = x\<close> \<open>take sgn r = [] \<or> take sgn r = ''+''\<close> by blast
qed

lemma port_of_textI:
  assumes "NUL \<notin> set s" and "port_text s v"
  shows "port_of s = Some v"
proof -
  obtain ws sgn ds where s: "s = ws @ sgn @ ds" "list_all isspace ws" "sgn = [] \<or> sgn = ''+''" "ds \<noteq> []" "list_all isdigit ds"
    "v = digits_val ds" "1 \<le> v" "v \<le> 65535"
    using assms(2) by (auto simp: port_text_def)
  obtain d ds' where d: "ds = d # ds'" "isdigit d" using s(4,5) by (cases ds) auto
  have "\<not> isspace (hd (sgn @ ds))" using s(3) d isdigit_not_isspace by (auto simp: isspace_def)
  then have ws: "takeWhile isspace s = ws" using s(1,2,4) by (cases "sgn @ ds") (auto simp: list_all_iff takeWhile_append2 takeWhile_tail)
  have 1: "takeWhile isdigit (drop (length sgn) (sgn @ ds)) = ds" using s(5) by (simp add: takeWhile_eq_all_conv list_all_iff)
  have 2: "(case sgn @ ds of [] \<Rightarrow> 0 | c # _ \<Rightarrow> if c = CHR ''-'' \<or> c = CHR ''+'' then 1 else (0::nat)) = length sgn"
    and 3: "\<not> (length sgn = 1 \<and> hd (sgn @ ds) = CHR ''-'')"
    using s(3) d isdigit_not_sign [of d] by auto
  have 4: "drop (length ws) s = sgn @ ds" using s(1) by simp
  have "strtol10 (s @ [NUL]) = Some (max LONG_MIN (min LONG_MAX v), length ws + length sgn + length ds)"
    unfolding strtol10_def Let_def cstr_append_NUL [OF assms(1)] ws 4 2 1 using 3 s(4,6) by auto
  moreover have "max LONG_MIN (min LONG_MAX v) = v" using s(7,8) by (simp add: LONG_MAX_def LONG_MIN_def)
  moreover have "length ws + length sgn + length ds = length s" using s(1) by simp
  ultimately show ?thesis using s(7,8) by (simp add: port_of_def read_at_def nth_append)
qed

lemma port_of_text: "NUL \<notin> set s \<Longrightarrow> port_of s = Some v \<longleftrightarrow> port_text s v"
  using port_of_textD port_of_textI by blast

text \<open>Options with their values; the last one of a kind counts.\<close>

definition option_ok :: "string \<times> string \<Rightarrow> bool" where
  "option_ok x \<longleftrightarrow> fst x = ''--listen-host'' \<or> fst x = ''--listen-port'' \<and> (\<exists>v. port_text (snd x) v)"

definition arguments :: "(string \<times> string) list \<Rightarrow> string list" where
  "arguments ps = concat (map (\<lambda>x. [fst x, snd x]) ps)"

definition given :: "string \<Rightarrow> (string \<times> string) list \<Rightarrow> string list" where
  "given name ps = map snd (filter (\<lambda>x. fst x = name) (rev ps))"

definition host_given :: "string \<Rightarrow> (string \<times> string) list \<Rightarrow> string" where
  "host_given host ps = (case given ''--listen-host'' ps of [] \<Rightarrow> host | h # _ \<Rightarrow> h)"

definition port_given :: "int \<Rightarrow> (string \<times> string) list \<Rightarrow> int \<Rightarrow> bool" where
  "port_given port ps v \<longleftrightarrow> (case given ''--listen-port'' ps of [] \<Rightarrow> v = port | b # _ \<Rightarrow> port_text b v)"

lemma given_Cons [simp]: "given name (x # ps) = given name ps @ (if fst x = name then [snd x] else [])"
  by (simp add: given_def)

text \<open>What is printed and returned for the first argument that is no option with a value.\<close>

definition bad_option :: "string \<Rightarrow> string \<Rightarrow> string list \<Rightarrow> setup_call \<Rightarrow> int \<Rightarrow> bool" where
  "bad_option prog a rest msg code \<longleftrightarrow>
     (if a = ''--help'' \<or> a = ''-h'' then msg = usage prog \<and> code = 0
      else code = 2 \<and>
        (if a = ''--listen-port'' \<and> rest \<noteq> []
         then msg = C_stderr (''port must be between 1 and 65535'' @ [LF]) \<and> (\<forall>v. \<not> port_text (hd rest) v)
         else msg = usage prog \<and> (a = ''--listen-host'' \<longrightarrow> rest = [])))"

definition parsed :: "string \<Rightarrow> string list \<Rightarrow> string \<Rightarrow> int \<Rightarrow> startup \<Rightarrow> bool" where
  "parsed prog args host port x \<longleftrightarrow> (\<exists>ps rest. args = arguments ps @ rest \<and> list_all option_ok ps \<and>
     (case rest of
        [] \<Rightarrow> \<exists>v. x = Listen_on (host_given host ps) v \<and> port_given port ps v
      | a # more_args \<Rightarrow> \<exists>msg code. x = Exit_with msg code \<and> bad_option prog a more_args msg code))"

lemma parsed_option:
  assumes "parsed prog rest host' port' x" and "option_ok (a, b)"
    and "host' = (if a = ''--listen-host'' then b else host)" and "if a = ''--listen-port'' then port_text b port' else port' = port"
  shows "parsed prog (a # b # rest) host port x"
proof -
  obtain ps rest' where ps: "rest = arguments ps @ rest'" "list_all option_ok ps"
    "case rest' of [] \<Rightarrow> \<exists>v. x = Listen_on (host_given host' ps) v \<and> port_given port' ps v
      | a # more_args \<Rightarrow> \<exists>msg code. x = Exit_with msg code \<and> bad_option prog a more_args msg code"
    using assms(1) unfolding parsed_def by blast
  have "host_given host ((a, b) # ps) = host_given host' ps"
    using assms(3) by (auto simp: host_given_def split: list.split)
  moreover have "port_given port ((a, b) # ps) v" if "port_given port' ps v" for v
    using that assms(4) by (auto simp: port_given_def split: list.splits if_splits)
  ultimately show ?thesis
    unfolding parsed_def using ps assms(2)
    by (intro exI [of _ "(a, b) # ps"] exI [of _ rest']) (auto simp: arguments_def split: list.splits)
qed

lemma parse_args_parsed: "\<forall>a\<in>set args. NUL \<notin> set a \<Longrightarrow> parsed prog args host port (parse_args prog args host port)"
proof (induction prog args host port rule: parse_args.induct)
  case (1 prog host port)
  then show ?case by (auto simp: parsed_def arguments_def host_given_def port_given_def given_def intro!: exI [of _ "[]"])
next
  case (2 prog a host port)
  have "bad_option prog a [] (usage prog) (if a = ''--help'' \<or> a = ''-h'' then 0 else 2)" by (simp add: bad_option_def)
  then show ?case unfolding parsed_def by (intro exI [of _ "[]"] exI [of _ "[a]"]) (auto simp: arguments_def)
next
  case (3 prog a b rest host port)
  have stop: "parsed prog (a # b # rest) host port (Exit_with msg code)" if "bad_option prog a (b # rest) msg code" for msg code
    using that unfolding parsed_def by (intro exI [of _ "[]"] exI [of _ "a # b # rest"]) (auto simp: arguments_def)
  have NUL: "NUL \<notin> set b" using "3.prems" by simp
  consider "a = ''--listen-host''" | "a = ''--listen-port''" "port_of b = None" | v where "a = ''--listen-port''" "port_of b = Some v"
    | "a \<noteq> ''--listen-host''" "a \<noteq> ''--listen-port''"
    by (cases "port_of b") auto
  then show ?case
  proof cases
    case 1
    then show ?thesis using "3.IH"(1) "3.prems" parsed_option [of prog rest b port] by (simp add: option_ok_def)
  next
    case 2
    then show ?thesis using stop port_of_textI [OF NUL] by (simp add: bad_option_def) fastforce
  next
    case 3
    then have "port_text b v" using port_of_textD [OF NUL] by simp
    then show ?thesis
      using "3.IH"(2) "3.prems" 3 parsed_option [of prog rest host v _ a b host port] by (auto simp: option_ok_def)
  next
    case 4
    then show ?thesis using stop by (simp add: bad_option_def)
  qed
qed

end
