(* ===== verification/Cache_Theorems.thy ===== *)
theory Cache_Theorems
  imports Cache_Example Cache_Main
begin

text \<open>
  The properties of the in-memory cache: first of the concurrent server as a whole, then of
  one connection, the protocol, the store, the sending of replies and the command line.
\<close>

section \<open>The concurrent server\<close>

text \<open>C1. Linearizability: in every execution, the replies computed in the critical sections
  are those of the abstract cache run on the same commands in the order of the critical sections, with
  non-decreasing times; from its last clock reading on, the store shows the map the abstract cache ends with.\<close>

theorem cache_linearizable:
  assumes "run_server (initial_server ts) es s" and "clock_ok ts"
  shows "replies_of es = map encode_reply (snd (spec_run STORE_CAP (commands_of es) Map.empty)) \<and>
    sorted (map fst (commands_of es)) \<and>
    (\<forall>t\<ge>ms_of (clock (shr s)). view (cells (shr s)) t = live (fst (spec_run STORE_CAP (commands_of es) Map.empty)) t)"
  using server_inv_run [OF assms] by (simp add: server_inv_def lin_inv_def abstract_run_def cstore.refines_def)

theorem cache_linearizable_witness:
  "replies_of demo_events = map encode_reply (snd (spec_run STORE_CAP (commands_of demo_events) Map.empty)) \<and>
   commands_of demo_events = [(0, Get ''k'')]"
  using cache_linearizable [OF demo_run demo_clock_ok]
  by (simp add: demo_events_def commands_of_def history_def cstr_def)

text \<open>C3. Every client gets the replies to its own lines, in order: the commands run for a
  connection are those of a prefix of the complete lines it has sent, and the bytes sent to it are a prefix of the
  replies to these lines (an error for a malformed line, else the reply of its critical section), followed at
  most by the error that closes the connection.\<close>

theorem connection_replies:
  assumes "run_server (initial_server ts) es s" and "clock_ok ts" and "conns s c = Some pc"
  shows "\<exists>ls. prefix ls (fst (lines_of (recvd c es))) \<and>
    map fst (executed c es) = List.map_filter decode_line ls \<and>
    prefix (sent_to c es) (concat (answers (map decode_line ls) (map snd (executed c es))) @ ERROR_reply)"
proof -
  have "conn_inv pc (recvd c es) (executed c es) (sent_to c es)"
    using server_inv_run [OF assms(1,2)] assms(3) by (auto simp: server_inv_def all_conns_def dest: spec [of _ c])
  from conn_inv_replies [OF this] obtain ls rest where ls: "whole_lines ls" "recvd c es = unlines ls @ rest"
    "answered ls (executed c es)" "prefix (sent_to c es) (so_far ls (executed c es) @ ERROR_reply)"
    by blast
  have "prefix ls (fst (lines_of (recvd c es)))" by (simp add: ls(2) lines_of_unlines [OF ls(1)])
  then show ?thesis using ls(3,4) unfolding answered_def so_far_def by blast
qed

theorem connection_replies_witness:
  "\<exists>ls. prefix ls (fst (lines_of (recvd 0 demo_events))) \<and>
    map fst (executed 0 demo_events) = List.map_filter decode_line ls \<and>
    prefix (sent_to 0 demo_events) (concat (answers (map decode_line ls) (map snd (executed 0 demo_events))) @ ERROR_reply)"
  by (rule connection_replies [OF demo_run demo_clock_ok]) (simp add: demo_final_def demo_server_def)

text \<open>C6. Mutual exclusion: \<open>store_mutex\<close> is held by a connection exactly when its thread is between lock and
  unlock, so it is free exactly when no thread is there, and two threads never are.\<close>

theorem store_mutual_exclusion:
  assumes "run_server (initial_server ts) es s" and "clock_ok ts"
  shows "(\<forall>c. holder (shr s) = Some c \<longleftrightarrow> (\<exists>pc. conns s c = Some pc \<and> in_section pc)) \<and>
    (holder (shr s) = None \<longleftrightarrow> (\<forall>c pc. conns s c = Some pc \<longrightarrow> \<not> in_section pc)) \<and>
    (\<forall>c d pc pc'. conns s c = Some pc \<and> in_section pc \<and> conns s d = Some pc' \<and> in_section pc' \<longrightarrow> c = d)"
proof -
  have holds: "holder (shr s) = Some d \<longleftrightarrow> (\<exists>pc. conns s d = Some pc \<and> in_section pc)" for d
    using server_inv_run [OF assms(1,2)] by (simp add: server_inv_def lock_inv_def)
  have "holder (shr s) = None \<longleftrightarrow> (\<forall>c. holder (shr s) \<noteq> Some c)" by simp
  then have "holder (shr s) = None \<longleftrightarrow> (\<forall>c pc. conns s c = Some pc \<longrightarrow> \<not> in_section pc)" unfolding holds by blast
  moreover have "c = d" if "conns s c = Some pc \<and> in_section pc \<and> conns s d = Some pc' \<and> in_section pc'" for c d pc pc'
    using holds [of c] holds [of d] that by simp
  ultimately show ?thesis using holds by blast
qed

theorem store_mutual_exclusion_witness:
  "holder (shr demo_inside) = Some 0 \<and> {d. \<exists>pc'. conns demo_inside d = Some pc' \<and> in_section pc'} = {0}"
proof -
  have pc: "conns demo_inside 0 = Some (T_crit (Get_req (''k'' @ [NUL])) (''GET k'' @ [LF]) 6 6)"
    by (simp add: demo_inside_def demo_server_def)
  have holds: "holder (shr demo_inside) = Some d \<longleftrightarrow> (\<exists>pc. conns demo_inside d = Some pc \<and> in_section pc)" for d
    using store_mutual_exclusion [OF demo_run_inside demo_clock_ok] by blast
  then have "holder (shr demo_inside) = Some 0" using pc by simp
  then show ?thesis unfolding holds [symmetric] by simp
qed

text \<open>C7. Client slots: \<open>active_clients\<close> is the number of connections that hold a slot (one
  per thread that has not released it and the one \<open>main\<close> is about to hand over), never above 32, and never
  decremented below zero.\<close>

theorem client_slots:
  assumes "run_server (initial_server ts) es s" and "clock_ok ts"
  shows "unat (active_clients (shr s)) = card {c. \<exists>pc. conns s c = Some pc \<and> pc \<noteq> T_done} + main_slot (main_pc s) \<and>
    unat (active_clients (shr s)) \<le> 32 \<and>
    ((\<exists>c. conns s c = Some T_release) \<or> (\<exists>c. main_pc s = M_release c) \<longrightarrow> 0 < unat (active_clients (shr s)))"
proof -
  have inv: "slots_inv s" "conns_inv s" using server_inv_run [OF assms] by (simp_all add: server_inv_def)
  have "0 < card (slot_conns s)" if "conns s c = Some T_release" for c
    using that finite_slot_conns [OF inv(2)] by (auto simp: card_gt_0_iff slot_conns_def holds_slot_def)
  then show ?thesis
    using inv(1) by (fastforce simp: slots_inv_def slots_def slot_conns_def holds_slot_def)
qed

theorem client_slots_witness:
  "unat (active_clients (shr demo_final)) = card {c. \<exists>pc. conns demo_final c = Some pc \<and> pc \<noteq> T_done} + main_slot (main_pc demo_final)"
  using client_slots [OF demo_run demo_clock_ok] by blast

text \<open>C5. Memory safety of the server: no execution reaches undefined behaviour in any thread
  (an access outside a buffer, a signed overflow), and the store is well formed at all times.\<close>

theorem server_safe:
  assumes "run_server (initial_server ts) es s" and "clock_ok ts"
  shows "conns s c \<noteq> Some T_undefined \<and> store_inv (cells (shr s))"
  using server_inv_run [OF assms] no_undefined lin_inv_store by (auto simp: server_inv_def)

theorem server_safe_witness: "conns demo_final 0 \<noteq> Some T_undefined \<and> store_inv (cells (shr demo_final))"
  by (rule server_safe [OF demo_run demo_clock_ok])

text \<open>C36. Connections without a thread. A client is refused exactly when all 32 slots are taken; a refused
  client never gets a thread, and when its connection is closed it has been sent exactly one error reply, unless the \<open>send\<close> failed. A
  client whose thread could not be created is sent nothing. No command is run for either, and both connections are closed before the
  server accepts the next one.\<close>

theorem refused_connection:
  assumes "run_server (initial_server ts) es s" and "clock_ok ts"
  shows "(main_pc s = M_reserve c \<longrightarrow> ((\<exists>s'. step s (Refused c) s') \<longleftrightarrow> unat (active_clients (shr s)) = 32)) \<and>
    (Refused c \<in> set es \<longrightarrow> conns s c = None \<and>
      (Closed c \<in> set es \<longrightarrow> sent_to c es = ERROR_reply \<or> Send_failed c \<in> set es)) \<and>
    (conns s c = None \<longrightarrow> executed c es = [] \<and> prefix (sent_to c es) ERROR_reply \<and>
      (Refused c \<notin> set es \<longrightarrow> sent_to c es = []) \<and>
      (c < next_conn s \<and> main_pc s = M_accept \<longrightarrow> Closed c \<in> set es))"
proof -
  have inv: "slots_inv s" "all_conns es s" "refuse_inv es s" using server_inv_run [OF assms] by (simp_all add: server_inv_def)
  have "unat (active_clients (shr s)) \<le> 32" using inv(1) by (simp add: slots_inv_def)
  then have "(\<exists>s'. step s (Refused c) s') \<longleftrightarrow> unat (active_clients (shr s)) = 32" if "main_pc s = M_reserve c"
    using refused_step [OF that] by simp
  moreover have "executed c es = [] \<and> main_sent (main_pc s) c (sent_to c es)" if "conns s c = None"
    using inv(2) that by (auto simp: all_conns_def dest: spec [of _ c])
  then have "executed c es = [] \<and> prefix (sent_to c es) ERROR_reply" if "conns s c = None" using that main_sent_prefix by blast
  moreover have "conns s c = None \<and> (Closed c \<in> set es \<longrightarrow> told es c)" if "Refused c \<in> set es"
    using refuse_invD [OF inv(3), of c] that refusing_conn [of "main_pc s" c] by blast
  moreover have "Closed c \<in> set es" if "conns s c = None" "c < next_conn s" "main_pc s = M_accept"
    using refuse_invD(5) [OF inv(3), of c] that by simp
  ultimately show ?thesis using refuse_invD(3) [OF inv(3), of c] unfolding told_def by blast
qed

theorem refused_connection_witness:
  "Refused 32 \<in> set demo_refused \<and> sent_to 32 demo_refused = ERROR_reply \<and> executed 32 demo_refused = [] \<and>
   Closed 32 \<in> set demo_refused \<and> conns ((crowd 32)\<lparr>next_conn := 33\<rparr>) 32 = None \<and>
   sent_to 0 [Tau, Tau, Tau, Tau, Closed 0] = [] \<and> executed 0 [Tau, Tau, Tau, Tau, Closed 0] = []"
proof -
  have "Refused 32 \<in> set demo_refused" "Closed 32 \<in> set demo_refused" "Send_failed 32 \<notin> set demo_refused"
    "conns ((crowd 0)\<lparr>next_conn := 1\<rparr>) 0 = None"
    by (auto simp: demo_refused_def crowd_def)
  then show ?thesis
    using refused_connection [OF demo_run_refused demo_clock_ok, of 32] refused_connection [OF demo_run_no_thread demo_clock_ok, of 0]
    by auto
qed

text \<open>C32. The store mutex cannot deadlock: a thread that waits for it takes it in its next step when it is
  free; otherwise another thread holds it, and for every reading of the clock that is not before the last one, the steps of that thread alone, at most
  two, run its critical section to the end with this reading (if it has not read the clock yet) and release the mutex, and then the
  waiting thread can take it.\<close>

theorem store_mutex_progress:
  assumes "run_server (initial_server ts) es s" and "clock_ok ts" and "conns s c = Some (T_lock rq p n q)"
    and "clock_ok u" and "ms_of (clock (shr s)) \<le> ms_of u"
  shows "case holder (shr s) of
      None \<Rightarrow> \<exists>s'. client_step c s Tau s' \<and> holder (shr s') = Some c \<and> conns s' c = Some (T_crit rq p n q)
    | Some d \<Rightarrow> d \<noteq> c \<and> (\<exists>pc es' s' s''. conns s d = Some pc \<and> runs (client_step d) s es' s' \<and> length es' \<le> 2 \<and>
        holder (shr s') = None \<and> clock (shr s') = (if before_clock pc then u else clock (shr s)) \<and>
        client_step c s' Tau s'' \<and> holder (shr s'') = Some c \<and> conns s'' c = Some (T_crit rq p n q))"
proof (cases "holder (shr s)")
  case None
  then show ?thesis using lock_step [OF assms(3)] by simp
next
  case (Some d)
  have holds: "holder (shr s) = Some d \<longleftrightarrow> (\<exists>pc. conns s d = Some pc \<and> in_section pc)" for d
    using server_inv_run [OF assms(1,2)] by (simp add: server_inv_def lock_inv_def)
  then obtain pc where pc: "conns s d = Some pc" "in_section pc" using Some by auto
  have d: "d \<noteq> c" using pc assms(3) by auto
  have "conn_inv pc (recvd d es) (executed d es) (sent_to d es)" "store_inv (cells (shr s))"
    using server_inv_run [OF assms(1,2)] pc(1) lin_inv_store
    by (auto simp: server_inv_def all_conns_def dest: spec [of _ d])
  from section_runs_out [OF pc this assms(4,5)] obtain es' s' where
    s': "runs (client_step d) s es' s'" "length es' \<le> 2" "unlocked d s (if before_clock pc then u else clock (shr s)) s'"
    by blast
  then have "conns s' c = Some (T_lock rq p n q)" "holder (shr s') = None" using d assms(3) by (simp_all add: unlocked_def)
  with lock_step obtain s'' where "client_step c s' Tau s''" "holder (shr s'') = Some c" "conns s'' c = Some (T_crit rq p n q)" by blast
  then have "\<exists>pc es' s' s''. conns s d = Some pc \<and> runs (client_step d) s es' s' \<and> length es' \<le> 2 \<and>
        holder (shr s') = None \<and> clock (shr s') = (if before_clock pc then u else clock (shr s)) \<and>
        client_step c s' Tau s'' \<and> holder (shr s'') = Some c \<and> conns s'' c = Some (T_crit rq p n q)"
    using pc(1) s' by (intro exI [of _ pc] exI [of _ es'] exI [of _ s'] exI [of _ s'']) (simp add: unlocked_def)
  then show ?thesis using Some d by simp
qed

theorem store_mutex_progress_witness:
  "\<exists>es' s' s''. runs (client_step 0) demo_both es' s' \<and> length es' \<le> 2 \<and> holder (shr s') = None \<and>
    clock (shr s') = \<lparr>tv_sec = 7, tv_nsec = 0\<rparr> \<and> client_step 1 s' Tau s'' \<and> holder (shr s'') = Some 1"
proof -
  obtain es where run: "run_server (initial_server demo_clock) es demo_both" using demo_run_both by blast
  have "clock_ok \<lparr>tv_sec = 7, tv_nsec = 0\<rparr>" "ms_of (clock (shr demo_both)) \<le> ms_of \<lparr>tv_sec = 7, tv_nsec = 0\<rparr>"
    by (simp_all add: clock_ok_def ms_of_def demo_both_def demo_shared_def demo_clock_def)
  then show ?thesis
    using store_mutex_progress [OF run demo_clock_ok, of 1] by (fastforce simp: demo_both_def before_clock_def)
qed

section \<open>Starting the server\<close>



end
