(* ===== verification/Cache_Line_Theorems.thy ===== *)
theory Cache_Line_Theorems
  imports Cache_Example
begin

text \<open>
  Properties of one connection, the text protocol, the store and the sending of replies.
  The witnesses use the empty store and a connection on which the client has sent
  one GET.
\<close>

definition demo_io :: io where
  "demo_io = \<lparr>tx = replicate 10 (Sent 1), clk = [demo_clock], out = []\<rparr>"

definition demo_long_io :: io where
  "demo_long_io = demo_io\<lparr>tx := replicate 16 (Sent 1)\<rparr>"

definition demo_chunk :: string where
  "demo_chunk = ''GET k'' @ [LF]"

lemma demo_lines: "lines_of demo_chunk = ([''GET k''], [])"
  using lines_of_LF [of "''GET k''" "[]"] by (simp add: demo_chunk_def lines_of_no_LF)

lemma demo_decode: "decode_line ''GET k'' = Some (Get ''k'')"
  by (simp add: decode_line_def strip_cr_def decode_def is_prefix_def key_ok_def KEY_MAX_def isspace_def)

lemma demo_in_step: "in_step 0 demo_io initial_store Map.empty"
  by (simp add: in_step_def refines_initial clocks_ok_def demo_io_def demo_clock_ok)
    (simp add: ms_of_def demo_clock_def)

lemma demo_replies: "replies demo_io [''GET k''] Map.empty = [NOT_FOUND_reply]"
  by (simp add: replies_def demo_io_def demo_decode live_def)

lemma demo_short: "short_lines demo_chunk" "\<forall>c\<in>set [demo_chunk]. c \<noteq> [] \<and> length c \<le> RECV_BUF"
  by (simp_all add: short_lines_def demo_lines RECV_BUF_def LINE_MAX_def) (simp add: demo_chunk_def)

section \<open>One connection\<close>

text \<open>C22. Memory safety of a connection: from a well-formed store, whatever bytes and errors the
  network delivers and however the kernel takes the replies, \<open>handle_client\<close> never leaves its buffers or
  overflows, and the store is well formed afterwards.\<close>

theorem handle_client_safe:
  assumes "store_inv st" and "clocks_ok w"
  shows "\<exists>w' st' r. handle_client rx w st = Some (w', st', r) \<and> store_inv st'"
  using client_spec_ok [OF assms] handle_client_eq [OF assms] by simp

theorem handle_client_safe_witness:
  "\<exists>w' st' r. handle_client [Received demo_chunk, Recv_error EIO] demo_io initial_store = Some (w', st', r) \<and> store_inv st'"
  by (rule handle_client_safe) (use in_step_store_inv [OF demo_in_step] in auto)

text \<open>C10. Refinement: on a connection whose lines, complete or not, have at most 61440 bytes (so that each fits the
  buffer with a whole chunk behind it), the client receives a prefix of the replies the abstract cache gives to the complete lines it has sent, in order and nothing else.\<close>

theorem session_refines:
  assumes "\<forall>c\<in>set cs. c \<noteq> [] \<and> length c \<le> RECV_BUF" and "short_lines (concat cs)" and "in_step t w st m"
  shows "\<exists>w' st' r n. handle_client (map Received cs) w st = Some (w', st', r) \<and>
    out w' = out w @ take n (concat (replies w (fst (lines_of (concat cs))) m)) \<and>
    (r = Returned () \<or> r = Blocked)"
proof -
  let ?ls = "fst (lines_of (concat cs))"
  note ok = in_step_store_inv [OF assms(3)]
  obtain w' st' r where run: "run_lines w st ?ls = Some (w', st', r)"
    by (rule run_lines_ok [of st w ?ls]) (use ok in auto)
  have "handle_client (map Received cs) w st = finish (run_lines w st ?ls)"
    using client_spec_chunks [OF assms(1), of "[]"] handle_client_eq ok assms(2) by simp
  moreover obtain n where "out w' = out w @ take n (concat (replies w ?ls m))"
    using run_lines_in_step [OF assms(3) run] by blast
  ultimately show ?thesis using run by (auto simp: finish_def)
qed

theorem session_refines_witness:
  "\<exists>w' st' r n. handle_client [Received demo_chunk] demo_io initial_store = Some (w', st', r) \<and>
    out w' = take n NOT_FOUND_reply \<and> (r = Returned () \<or> r = Blocked)"
  using session_refines [of "[demo_chunk]", OF demo_short(2) _ demo_in_step] demo_short(1)
  by (simp add: demo_lines demo_replies) (simp add: demo_io_def)

text \<open>C21. Completion: on a connection whose lines, complete or not, have at most 61440 bytes, if the clock answers every command and the socket keeps taking
  bytes, one or more at a time with any number of interruptions, every reply is sent in full, the connection
  goes back to waiting for input, and the store again matches the abstract cache after these commands.\<close>

theorem session_completes:
  assumes "\<forall>c\<in>set cs. c \<noteq> [] \<and> length c \<le> RECV_BUF" and "short_lines (concat cs)" and "in_step t w st m"
    and "commands (fst (lines_of (concat cs))) \<le> length (clk w)"
    and "can_send w (length (concat (replies w (fst (lines_of (concat cs))) m)))"
  shows "\<exists>w' st'. handle_client (map Received cs) w st = Some (w', st', Blocked) \<and>
    out w' = out w @ concat (replies w (fst (lines_of (concat cs))) m) \<and>
    (\<exists>t'. in_step t' w' st' (fst (session (map ms_of (clk w)) (map decode_line (fst (lines_of (concat cs)))) m)))"
proof -
  let ?ls = "fst (lines_of (concat cs))"
  note ok = in_step_store_inv [OF assms(3)]
  obtain w' st' where run: "run_lines w st ?ls = Some (w', st', Returned True)"
    using run_lines_completes [OF assms(3,4), of 0] assms(5) by auto
  have "handle_client (map Received cs) w st = finish (run_lines w st ?ls)"
    using client_spec_chunks [OF assms(1), of "[]"] handle_client_eq ok assms(2) by simp
  then show ?thesis using run run_lines_in_step [OF assms(3) run] by (auto simp: finish_def)
qed

theorem session_completes_witness:
  "\<exists>w' st'. handle_client [Received demo_chunk] demo_io initial_store = Some (w', st', Blocked) \<and>
    out w' = NOT_FOUND_reply"
proof -
  have "can_send demo_io (length (concat (replies demo_io (fst (lines_of (concat [demo_chunk]))) Map.empty)))"
    by (simp add: demo_lines demo_replies can_send_def) (simp add: demo_io_def progress_def numeral_eq_Suc)
  moreover have "commands (fst (lines_of (concat [demo_chunk]))) \<le> length (clk demo_io)"
    by (simp add: commands_def demo_lines demo_io_def)
  ultimately show ?thesis
    using session_completes [of "[demo_chunk]", OF demo_short(2) _ demo_in_step] demo_short(1)
    by (auto simp: demo_lines demo_replies) (simp add: demo_io_def)
qed

text \<open>C20. As long as no line, complete or not, is longer than 61440 bytes (so that each fits the buffer with a whole
  chunk behind it), the replies, the store and the end of the connection depend on the bytes received, not on the chunks in which they arrive.\<close>

theorem chunks_irrelevant:
  assumes "\<forall>c\<in>set (cs @ ds). c \<noteq> [] \<and> length c \<le> RECV_BUF" and "concat cs = concat ds"
    and "short_lines (concat cs)" and "store_inv st" and "clocks_ok w"
  shows "handle_client (map Received cs) w st = handle_client (map Received ds) w st"
  using client_spec_chunks [of cs "[]"] client_spec_chunks [of ds "[]"] handle_client_eq [OF assms(4,5)] assms(1-3)
  by simp

theorem chunks_irrelevant_witness:
  "handle_client (map Received [demo_chunk]) demo_io initial_store =
   handle_client (map Received [''GE'', ''T k'' @ [LF]]) demo_io initial_store"
proof (rule chunks_irrelevant)
  show "concat [demo_chunk] = concat [''GE'', ''T k'' @ [LF]]" by (simp add: demo_chunk_def)
  show "short_lines (concat [demo_chunk])" using demo_short(1) by simp
  show "\<forall>c\<in>set ([demo_chunk] @ [''GE'', ''T k'' @ [LF]]). c \<noteq> [] \<and> length c \<le> RECV_BUF"
    by (simp add: demo_chunk_def RECV_BUF_def)
qed (use in_step_store_inv [OF demo_in_step] in auto)

text \<open>C34. The limit on lines is enforced per received chunk. After any lines that fit, when an unfinished
  line and the next chunk together exceed 65536 bytes, the client is sent the replies to its earlier lines and then one
  error, in full whenever the socket keeps taking bytes and the clock answers; the connection is closed, even when the chunk
  completes the line within the limit, and neither that line nor anything else of the chunk is run.\<close>

theorem long_line_refused:
  assumes "\<forall>d\<in>set (xs @ ys @ [c]). d \<noteq> [] \<and> length d \<le> RECV_BUF" and "short_lines (concat xs)"
    and "LF \<notin> set (concat ys)" and "length (snd (lines_of (concat xs)) @ concat ys) \<le> LINE_MAX"
    and "length (snd (lines_of (concat xs)) @ concat ys) + length c > LINE_MAX" and "in_step t w st m"
  defines "ls \<equiv> fst (lines_of (concat xs))"
  shows "\<exists>w' st' r n. handle_client (map Received (xs @ ys @ [c]) @ rx) w st = Some (w', st', r) \<and>
    out w' = out w @ take n (concat (replies w ls m) @ ERROR_reply) \<and> (r = Returned () \<or> r = Blocked) \<and>
    (commands ls \<le> length (clk w) \<and> can_send w (length (concat (replies w ls m)) + 6) \<longrightarrow>
      r = Returned () \<and> out w' = out w @ concat (replies w ls m) @ ERROR_reply \<and>
      (\<exists>t'. in_step t' w' st' (fst (session (map ms_of (clk w)) (map decode_line ls) m))))"
proof -
  note ok = in_step_store_inv [OF assms(6)]
  obtain w1 st1 r1 where run: "run_lines w st ls = Some (w1, st1, r1)"
    by (rule run_lines_ok [of st w ls]) (use ok in auto)
  note eq = chunk_refused [OF assms(1-5) conjunct1 [OF ok] conjunct2 [OF ok] run [unfolded ls_def], of rx]
  obtain n where n: "out w1 = out w @ take n (concat (replies w ls m))"
    "r1 = Returned True \<Longrightarrow> out w1 = out w @ concat (replies w ls m) \<and>
       (\<exists>t'. in_step t' w1 st1 (fst (session (map ms_of (clk w)) (map decode_line ls) m)))"
    using run_lines_in_step [OF assms(6) run] by blast
  have complete: "r1 = Returned True \<and> can_send w1 6"
    if "commands ls \<le> length (clk w)" "can_send w (length (concat (replies w ls m)) + 6)"
    using run_lines_completes [OF assms(6) that] run by simp
  show ?thesis
  proof (cases "r1 = Returned True")
    case True
    obtain as k x where rep: "reply w1 st1 ERROR_reply = Some (w1\<lparr>tx := as, out := out w1 @ take k ERROR_reply\<rparr>, st1, x)"
      "x = Returned 0 \<longleftrightarrow> k = length ERROR_reply"
      using reply_Some [OF length_ERROR, of w1 st1] by blast
    have sent: "x = Returned 0 \<and> take k ERROR_reply = ERROR_reply" if "can_send w1 6"
      using reply_ERROR_sent [OF that rep(1)] rep(2) by simp
    let ?w = "w1\<lparr>tx := as, out := out w1 @ take k ERROR_reply\<rparr>"
    have step: "in_step u ?w st1 m' \<longleftrightarrow> in_step u w1 st1 m'" for u m' by (simp add: in_step_def clocks_ok_def)
    show ?thesis
    proof (intro exI [of _ ?w] exI [of _ st1] exI [of _ "if x = Blocked then Blocked else Returned ()"]
        exI [of _ "length (concat (replies w ls m)) + k"] conjI impI)
      show "handle_client (map Received (xs @ ys @ [c]) @ rx) w st = Some (?w, st1, if x = Blocked then Blocked else Returned ())"
        using eq True rep(1) by simp
    qed (use n(2) [OF True] sent complete step in auto)
  next
    case False
    then have "handle_client (map Received (xs @ ys @ [c]) @ rx) w st = Some (w1, st1, if r1 = Blocked then Blocked else Returned ())"
      using eq by (auto split: run.splits bool.splits)
    moreover have "out w1 = out w @ take (min n (length (concat (replies w ls m)))) (concat (replies w ls m) @ ERROR_reply)"
      using n(1) by (simp add: min_def)
    ultimately show ?thesis
      by (intro exI [of _ w1] exI [of _ st1] exI [of _ "if r1 = Blocked then Blocked else Returned ()"]
          exI [of _ "min n (length (concat (replies w ls m)))"] conjI impI) (use complete False in \<open>simp_all only: if_split, auto\<close>)
  qed
qed

theorem long_line_refused_witness:
  "\<exists>w' st' r n. handle_client (map Received ([demo_chunk] @ (replicate 15 (replicate 4096 CHR ''a'') @ [''a'']) @
      [LF # replicate 4095 CHR ''b'']) @ []) demo_long_io initial_store = Some (w', st', r) \<and>
    r = Returned () \<and> out w' = NOT_FOUND_reply @ ERROR_reply"
proof -
  have [simp]: "length (concat (replicate n xs)) = n * length xs" for n and xs :: string
    by (induction n) auto
  let ?w = "demo_long_io" and ?ys = "replicate 15 (replicate 4096 CHR ''a'') @ [''a'']"
  have step: "in_step 0 ?w initial_store Map.empty" using demo_in_step by (simp add: in_step_def clocks_ok_def demo_long_io_def)
  have rep: "replies ?w [''GET k''] Map.empty = [NOT_FOUND_reply]" using demo_replies by (simp add: replies_def demo_long_io_def)
  have "can_send ?w (length (concat (replies ?w (fst (lines_of (concat [demo_chunk]))) Map.empty)) + 6)"
    unfolding can_send_def by (simp add: demo_lines rep) (simp add: demo_long_io_def progress_def numeral_eq_Suc)
  moreover have "commands (fst (lines_of (concat [demo_chunk]))) \<le> length (clk ?w)"
    by (simp add: commands_def demo_lines demo_io_def demo_long_io_def)
  moreover have "\<forall>d\<in>set ([demo_chunk] @ ?ys @ [LF # replicate 4095 CHR ''b'']). d \<noteq> [] \<and> length d \<le> RECV_BUF"
    by (simp add: RECV_BUF_def demo_chunk_def)
  moreover have "short_lines (concat [demo_chunk])" using demo_short(1) by simp
  moreover have "length (snd (lines_of (concat [demo_chunk])) @ concat ?ys) \<le> LINE_MAX"
    "length (snd (lines_of (concat [demo_chunk])) @ concat ?ys) + length (LF # replicate 4095 CHR ''b'') > LINE_MAX"
    "LF \<notin> set (concat ?ys)"
    by (simp_all add: LINE_MAX_def demo_lines)
  moreover note long_line_refused [of "[demo_chunk]" ?ys "LF # replicate 4095 CHR ''b''", OF _ _ _ _ _ step, of "[]"]
  ultimately show ?thesis by (auto simp: demo_lines rep) (simp add: demo_io_def demo_long_io_def)
qed

section \<open>The protocol\<close>

text \<open>C12. \<open>handle_line\<close>, with its pointer arithmetic and fixed buffers, does for every line what
  the syntax of the protocol says: one error reply when the line is no command, else the command on the store and
  its reply.\<close>

theorem handle_line_protocol:
  assumes "store_inv st" and "terminated line" and "LF \<notin> set (cstr line)"
  shows "handle_line w st line =
    (case decode (cstr line) of
       None \<Rightarrow> reply w st ERROR_reply
     | Some c \<Rightarrow> at_now w st (\<lambda>w now. do {
         (st', r) \<leftarrow> exec_cmd store_get store_del store_set now c st;
         reply w st' (encode_reply r) }))"
  using handle_line_decode [OF assms] by (simp add: run_cmd_def)

theorem handle_line_protocol_witness:
  "handle_line demo_io initial_store (''PING'' @ [NUL]) = reply demo_io initial_store ERROR_reply"
proof -
  have "cstr (''PING'' @ [NUL]) = ''PING''" by (simp add: cstr_def)
  moreover have "decode ''PING'' = None" by (simp add: decode_def is_prefix_def)
  ultimately show ?thesis
    using handle_line_protocol [of initial_store "''PING'' @ [NUL]" demo_io] by (simp add: terminated_def)
qed

text \<open>C33. \<open>parse_ttl\<close> accepts exactly one to five digits whose value is at most 86400, and returns
  that value, without leaving its buffer of eight bytes.\<close>

theorem parse_ttl_correct:
  assumes "terminated b" and "n \<le> length (cstr b)"
  shows "parse_ttl b n =
    Some (let s = take n (cstr b) in
      if s \<noteq> [] \<and> length s \<le> 5 \<and> list_all isdigit s \<and> digits_val s \<le> 86400 then Some (digits_val s) else None)"
  unfolding parse_ttl_eq [OF assms] ttl_of_def TTL_MAX_def Let_def ..

theorem parse_ttl_correct_witness: "parse_ttl (''60 v'' @ [NUL]) 2 = Some (Some 60)"
proof -
  have "cstr (''60 v'' @ [NUL]) = ''60 v''" by (simp add: cstr_def)
  then show ?thesis
    using parse_ttl_correct [of "''60 v'' @ [NUL]" 2]
    by (simp add: terminated_def isdigit_def digits_val_def digit_val_def)
qed

text \<open>C8. The critical section of SET: it succeeds exactly when the key is live or fewer than 1024
  keys are, keeps the store well formed, and from then on the key shows the value until its time-to-live has
  passed and every other key shows what it did; a refused SET changes nothing a client can see.\<close>

theorem set_section_correct:
  assumes "store_inv st" and "terminated key" and "key_ok (cstr key)" and "klen = length (cstr key)"
    and "terminated value" and "value_ok (cstr value)" and "vl = length (cstr value)"
    and "ttl_ok ttl" and "time_ok now"
  shows "\<exists>st' ok. set_section now key klen ttl value vl st = Some (st', ok) \<and> store_inv st' \<and>
    (ok \<longleftrightarrow> view st now (cstr key) \<noteq> None \<or> card (dom (view st now)) < 1024) \<and>
    (\<forall>u\<ge>now. view st' u =
      (if ok then (view st u)(cstr key := if ttl \<noteq> 0 \<and> now + ttl * 1000 \<le> u then None else Some (cstr value))
       else view st u))"
  by (rule set_section_spec [OF assms]) (simp add: STORE_CAP_def)

lemma demo_buffers: "terminated (''k'' @ [NUL])" "cstr (''k'' @ [NUL]) = ''k''" "key_ok ''k''"
  "terminated (''v'' @ [NUL])" "cstr (''v'' @ [NUL]) = ''v''" "value_ok ''v''" "ttl_ok 60" "time_ok 0"
  by (simp_all add: terminated_def cstr_def key_ok_def value_ok_def KEY_MAX_def VALUE_MAX_def isspace_def
      ttl_ok_def time_ok_def TTL_MAX_def LONG_MAX_def)

theorem set_section_correct_witness:
  "\<exists>st' ok. set_section 0 (''k'' @ [NUL]) 1 60 (''v'' @ [NUL]) 1 initial_store = Some (st', ok) \<and> store_inv st' \<and> ok \<and>
    view st' 59999 ''k'' = Some ''v'' \<and> view st' 60000 ''k'' = None"
proof -
  have "view initial_store t = Map.empty" for t by (rule ext) simp
  then show ?thesis
    using set_section_correct [OF store_inv_initial, of "''k'' @ [NUL]" 1 "''v'' @ [NUL]" 1 60 0] demo_buffers
    by fastforce
qed

text \<open>C26. The critical section of GET returns the value a client can see under the key, copies it
  out without leaving its buffer, and changes nothing a client can see, though it may free an expired slot.\<close>

theorem get_section_correct:
  assumes "store_inv st" and "terminated key"
  shows "\<exists>st'. get_section now key st = Some (st', map_option (\<lambda>v. v @ [NUL]) (view st now (cstr key))) \<and>
    store_inv st' \<and> (\<forall>u\<ge>now. view st' u = view st u)"
  by (rule get_section_spec [OF assms, of now]) (auto simp: same_view_def)

theorem get_section_correct_witness:
  "\<exists>st'. get_section 0 (''k'' @ [NUL]) initial_store = Some (st', None) \<and> store_inv st'"
  using get_section_correct [OF store_inv_initial, of "''k'' @ [NUL]" 0] demo_buffers by auto

text \<open>C27. The critical section of DELETE says whether the key was live and removes it, and nothing
  else.\<close>

theorem delete_section_correct:
  assumes "store_inv st" and "terminated key"
  shows "\<exists>st'. delete_section now key st = Some (st', view st now (cstr key) \<noteq> None) \<and>
    store_inv st' \<and> (\<forall>u\<ge>now. view st' u = (view st u)(cstr key := None))"
  by (rule delete_section_spec [OF assms, of now]) blast

theorem delete_section_correct_witness:
  "\<exists>st'. delete_section 0 (''k'' @ [NUL]) initial_store = Some (st', False) \<and> store_inv st'"
  using delete_section_correct [OF store_inv_initial, of "''k'' @ [NUL]" 0] demo_buffers by auto

text \<open>C11. Round trip: after a SET the cache has stored, whatever commands on other keys follow at
  non-decreasing times, a GET returns the value until the time-to-live has passed and nothing afterwards.\<close>

theorem set_get_roundtrip:
  assumes "cstore.refines t st m" and "snd (spec_step STORE_CAP t (Set k ttl v) m) = Stored"
    and "sorted (t # map fst cs @ [u])" and "key_ok k" and "ttl_ok ttl" and "value_ok v" and "time_ok t" and "time_ok u"
    and "\<forall>(x, c)\<in>set cs. time_ok x \<and> cmd_ok key_ok ttl_ok value_ok c" and "\<forall>(x, c)\<in>set cs. writes c \<noteq> Some k"
  shows "\<exists>st' rs. exec_run store_get store_del store_set ((t, Set k ttl v) # cs @ [(u, Get k)]) st =
    Some (st', Stored # rs @ [if ttl \<noteq> 0 \<and> t + ttl * 1000 \<le> u then Not_Found else Value v])"
  by (rule cstore.set_roundtrip [OF assms])

theorem set_get_roundtrip_witness:
  "\<exists>st' rs. exec_run store_get store_del store_set [(0, Set ''k'' 60 ''v''), (5, Delete ''j''), (59999, Get ''k'')] initial_store =
    Some (st', Stored # rs @ [Value ''v''])"
proof -
  have "time_ok 5" "time_ok 59999" "key_ok ''j''"
    by (simp_all add: time_ok_def TTL_MAX_def LONG_MAX_def key_ok_def KEY_MAX_def isspace_def)
  moreover have "dom (live (Map.empty :: cache_map) 0) = {}" by (auto simp: live_def)
  ultimately show ?thesis
    using set_get_roundtrip [OF refines_initial, of 0 "''k''" 60 "''v''" "[(5, Delete ''j'')]" 59999] demo_buffers
    by (simp add: STORE_CAP_def)
qed

text \<open>C24. \<open>lookup\<close> returns the index of the one slot that holds the key, or -1 when there is none or
  its entry has expired; in the last case it frees the slot.\<close>

theorem lookup_correct:
  assumes "store_inv st" and "terminated key"
  shows "\<exists>st' i. lookup st key now = Some (st', i) \<and> store_inv st' \<and>
    (if \<exists>j<STORE_CAP. holds_key (cstr key) (st ! j) \<and> \<not> expired now (st ! j)
     then st' = st \<and> 0 \<le> i \<and> nat i < STORE_CAP \<and> holds_key (cstr key) (st ! nat i)
     else i = - 1 \<and> (\<forall>j<STORE_CAP. \<not> holds_key (cstr key) (st' ! j)))"
  by (rule lookup_found [OF assms])

theorem lookup_correct_witness: "\<exists>st'. lookup initial_store (''k'' @ [NUL]) 0 = Some (st', - 1) \<and> store_inv st'"
proof -
  have "\<not> (\<exists>j<STORE_CAP. holds_key (cstr (''k'' @ [NUL])) (initial_store ! j) \<and> \<not> expired 0 (initial_store ! j))"
    by (auto simp: holds_key_def initial_store_def zero_entry_def)
  then show ?thesis using lookup_correct [OF store_inv_initial demo_buffers(1), of 0] by auto
qed

text \<open>C25. \<open>free_slot\<close> fails only when 1024 keys are live; else it returns a slot in range that is free
  afterwards, without changing what a client can see.\<close>

theorem free_slot_correct:
  assumes "store_inv st"
  shows "\<exists>st' i. free_slot st now = Some (st', i) \<and> store_inv st' \<and> (\<forall>u\<ge>now. view st' u = view st u) \<and>
    (if card (dom (view st now)) = 1024 then i = - 1
     else 0 \<le> i \<and> nat i < STORE_CAP \<and> used (st' ! nat i) = 0)"
  using free_slot_total [OF assms, of now] by (simp add: STORE_CAP_def)

theorem free_slot_correct_witness:
  "\<exists>st' i. free_slot initial_store 0 = Some (st', i) \<and> 0 \<le> i \<and> used (st' ! nat i) = 0"
proof -
  have "view initial_store 0 = Map.empty" by (rule ext) simp
  then show ?thesis using free_slot_correct [OF store_inv_initial, of 0] by auto
qed

text \<open>C38. The clock: for every reading \<open>CLOCK_MONOTONIC\<close> can give, \<open>now_ms\<close> is the number of whole
  milliseconds, without overflow, and leaves room for the longest time-to-live.\<close>

theorem now_ms_correct:
  assumes "0 \<le> tv_sec ts" and "tv_sec ts \<le> 9 * 10 ^ 15" and "0 \<le> tv_nsec ts" and "tv_nsec ts < 10 ^ 9"
  shows "\<exists>t. now_ms ts = Some t \<and> t = (tv_sec ts * 10 ^ 9 + tv_nsec ts) div 10 ^ 6 \<and> t + TTL_MAX * 1000 \<le> LONG_MAX"
proof -
  have "(tv_sec ts * 10 ^ 9 + tv_nsec ts) div 10 ^ 6 = tv_sec ts * 1000 + tv_nsec ts div 1000000"
    using div_mult_self3 [of "10 ^ 6 :: int" "tv_sec ts * 1000" "tv_nsec ts"] by simp
  then show ?thesis using now_ms_clock_ok [of ts] assms by (auto simp: clock_ok_def time_ok_def)
qed

theorem now_ms_correct_witness: "\<exists>t. now_ms \<lparr>tv_sec = 12, tv_nsec = 345678901\<rparr> = Some t \<and> t = 12345"
  using now_ms_correct [of "\<lparr>tv_sec = 12, tv_nsec = 345678901\<rparr>"] by simp

section \<open>Sending\<close>

text \<open>C35. \<open>send_all\<close> reads only the buffer it was given and sends a prefix of it, in order; it reports
  success exactly when it has sent everything. When the socket takes at least one byte per call, apart from interruptions,
  it does send everything.\<close>

theorem send_all_delivers:
  assumes "len \<le> length b"
  shows "\<exists>w' r n. send_all w b len = Some (w', r) \<and> out w' = out w @ take n b \<and> n \<le> len \<and>
    (r = Returned 0 \<longleftrightarrow> n = len) \<and> (r = Returned 0 \<or> r = Returned (- 1) \<or> r = Blocked) \<and>
    (list_all (\<lambda>a. progress a \<or> a = Send_error EINTR) (tx w) \<and> len \<le> length (filter progress (tx w)) \<longrightarrow> n = len)"
proof -
  obtain w' r n where *: "send_all w b len = Some (w', r)" "out w' = out w @ take n b" "n \<le> len"
    "r = Returned 0 \<longleftrightarrow> n = len" "r = Returned 0 \<or> r = Returned (- 1) \<or> r = Blocked"
    by (rule send_all_spec [OF assms, of w]) fastforce
  moreover have "n = len" if "list_all (\<lambda>a. progress a \<or> a = Send_error EINTR) (tx w)" "len \<le> length (filter progress (tx w))"
    using send_loop_completes [of "tx w" len 0] assms that * by (auto simp: send_all_def list_all_iff)
  ultimately show ?thesis by blast
qed

theorem send_all_delivers_witness:
  "\<exists>w'. send_all \<lparr>tx = [Sent 2, Send_error EINTR, Sent 9, Sent 1], clk = [], out = []\<rparr> OK_reply 3 = Some (w', Returned 0) \<and>
    out w' = OK_reply"
  using send_all_delivers [of 3 OK_reply "\<lparr>tx = [Sent 2, Send_error EINTR, Sent 9, Sent 1], clk = [], out = []\<rparr>"]
  by (auto simp: progress_def)

end
