(* ===== verification/Syscalls.thy ===== *)
theory Syscalls
  imports Prelude
begin

text \<open>
  Programs that talk to the kernel, for the container runtime. A program takes the answers
  the kernel will give and returns the calls it made with their answers, the answers left,
  and how it ended. A call whose answer has not arrived leaves the program \<open>Waiting\<close>. So
  a program is a total function, and a statement for all lists of answers is a statement
  about every finite prefix of every behaviour of the kernel.

  \<open>all_runs p Q\<close> says that \<open>Q\<close> holds of every run of \<open>p\<close>; its rules for \<open>pbind\<close>, \<open>sys\<close> and
  \<open>must\<close> decompose a program into its calls.
\<close>

section \<open>Calls and answers\<close>

datatype flag =
    O_RDONLY | O_WRONLY | O_DIRECTORY | O_NOFOLLOW | O_CLOEXEC | O_PATH
  | MS_REC | MS_PRIVATE | MS_BIND | MS_NOSUID | MS_NODEV | MS_NOEXEC | MNT_DETACH
  | WNOHANG | CLONE_NEWUSER | CLONE_NEWNS | CLONE_NEWPID | CLONE_SIGCHLD

datatype disposition = Handler | SIG_DFL | SIG_IGN

datatype call =
    Close int | Read int nat | Write int string | Poll int
  | Open string "flag list" | Openat int string "flag list" | Fstat int | Stat string
  | Fcntl_getfd int | Realpath string | Pipe2 "flag list" | Close_range nat
  | Mount "string option" string "string option" "flag list"
  | Umount2 string "flag list" | Pivot_root string string | Fchdir int | Chdir string
  | Prctl_pdeathsig int | Capbset_read int | Capbset_drop int | Capset_empty | No_new_privs
  | Getuid | Geteuid | Getgid | Getegid | Getpid | Pidfd_open int
  | Setsid | Setpgid int int | Clone "flag list" | Fork | Execv string "string list"
  | Sigaction int disposition | Sig_block "int list" | Sig_unblock "int list"
  | Sigwaitinfo "int list" | Kill int int | Waitpid int "flag list" | Malloc int

text \<open>One record serves all calls; a call reads the fields it fills.\<close>

record answer =
  ret :: int
  err :: errno
  wstatus :: int
  st_dev :: nat
  st_ino :: nat
  data :: string
  fd0 :: int
  fd1 :: int

text \<open>Entries of a run: a call that returned, the call it waits in, a message on stderr, with
  \<open>errno\<close> when \<open>perror\<close> prints it, and a line on stdout.\<close>

datatype entry = Call call answer | Pending call | Message string "errno option" | Output string

datatype 'a outcome = Done 'a | Exited int | Replaced string "string list" | Waiting

type_synonym 'a prog = "answer list \<Rightarrow> entry list \<times> answer list \<times> 'a outcome"

section \<open>Combinators\<close>

definition preturn :: "'a \<Rightarrow> 'a prog" where
  "preturn x as = ([], as, Done x)"

fun sys :: "call \<Rightarrow> answer prog" where
  "sys c [] = ([Pending c], [], Waiting)"
| "sys c (a # as) = ([Call c a], as, Done a)"

text \<open>\<open>_exit\<close>, and \<open>execv\<close> that does not return.\<close>

definition exit_now :: "int \<Rightarrow> 'a prog" where
  "exit_now code as = ([], as, Exited code)"

definition replace :: "string \<Rightarrow> string list \<Rightarrow> 'a prog" where
  "replace path argv as = ([], as, Replaced path argv)"

definition perror :: "string \<Rightarrow> errno \<Rightarrow> unit prog" where
  "perror op e as = ([Message op (Some e)], as, Done ())"

definition eprint :: "string \<Rightarrow> unit prog" where
  "eprint line as = ([Message line None], as, Done ())"

definition pprint :: "string \<Rightarrow> unit prog" where
  "pprint line as = ([Output line], as, Done ())"

definition pbind :: "'a prog \<Rightarrow> ('a \<Rightarrow> 'b prog) \<Rightarrow> 'b prog" where
  "pbind p f as =
     (case p as of
        (t, as', Done x) \<Rightarrow> (let (t', as'', r) = f x as' in (t @ t', as'', r))
      | (t, as', Exited code) \<Rightarrow> (t, as', Exited code)
      | (t, as', Replaced path argv) \<Rightarrow> (t, as', Replaced path argv)
      | (t, as', Waiting) \<Rightarrow> (t, as', Waiting))"

section \<open>All runs of a program\<close>

definition all_runs :: "'a prog \<Rightarrow> (entry list \<Rightarrow> 'a outcome \<Rightarrow> bool) \<Rightarrow> bool" where
  "all_runs p Q \<longleftrightarrow> (\<forall>as. case p as of (t, as', r) \<Rightarrow> Q t r)"

lemma all_runsD: "all_runs p Q \<Longrightarrow> p as = (t, as', r) \<Longrightarrow> Q t r"
  by (auto simp: all_runs_def dest: spec [of _ as])

lemma all_runsI: "(\<And>as t as' r. p as = (t, as', r) \<Longrightarrow> Q t r) \<Longrightarrow> all_runs p Q"
  by (auto simp: all_runs_def split: prod.split)

lemma all_runs_mono: "all_runs p Q \<Longrightarrow> (\<And>t r. Q t r \<Longrightarrow> Q' t r) \<Longrightarrow> all_runs p Q'"
  by (simp add: all_runs_def split_beta)

lemma all_runs_conj: "all_runs p Q \<Longrightarrow> all_runs p Q' \<Longrightarrow> all_runs p (\<lambda>t r. Q t r \<and> Q' t r)"
  by (simp add: all_runs_def split_beta)

lemma all_runs_return [run_simps]: "all_runs (preturn x) Q \<longleftrightarrow> Q [] (Done x)"
  by (simp add: all_runs_def preturn_def)

lemma all_runs_exit [run_simps]: "all_runs (exit_now code) Q \<longleftrightarrow> Q [] (Exited code)"
  by (simp add: all_runs_def exit_now_def)

lemma all_runs_replace [run_simps]: "all_runs (replace path argv) Q \<longleftrightarrow> Q [] (Replaced path argv)"
  by (simp add: all_runs_def replace_def)

lemma all_runs_perror [run_simps]: "all_runs (perror op e) Q \<longleftrightarrow> Q [Message op (Some e)] (Done ())"
  by (simp add: all_runs_def perror_def)

lemma all_runs_eprint [run_simps]: "all_runs (eprint line) Q \<longleftrightarrow> Q [Message line None] (Done ())"
  by (simp add: all_runs_def eprint_def)

lemma all_runs_pprint [run_simps]: "all_runs (pprint line) Q \<longleftrightarrow> Q [Output line] (Done ())"
  by (simp add: all_runs_def pprint_def)

lemma all_runs_sys [run_simps]: "all_runs (sys c) Q \<longleftrightarrow> Q [Pending c] Waiting \<and> (\<forall>a. Q [Call c a] (Done a))"
proof
  assume *: "all_runs (sys c) Q"
  have "Q [Pending c] Waiting" using all_runsD [OF *, of "[]"] by simp
  moreover have "Q [Call c a] (Done a)" for a using all_runsD [OF *, of "[a]"] by simp
  ultimately show "Q [Pending c] Waiting \<and> (\<forall>a. Q [Call c a] (Done a))" by blast
next
  assume *: "Q [Pending c] Waiting \<and> (\<forall>a. Q [Call c a] (Done a))"
  show "all_runs (sys c) Q"
    unfolding all_runs_def
  proof
    fix as
    show "case sys c as of (t, as', r) \<Rightarrow> Q t r" using * by (cases as) auto
  qed
qed

lemma all_runs_bindI:
  assumes "all_runs p (\<lambda>t r. case r of
      Done x \<Rightarrow> all_runs (f x) (\<lambda>t'. Q (t @ t'))
    | Exited code \<Rightarrow> Q t (Exited code)
    | Replaced path argv \<Rightarrow> Q t (Replaced path argv)
    | Waiting \<Rightarrow> Q t Waiting)"
  shows "all_runs (pbind p f) Q"
  unfolding all_runs_def
proof
  fix as
  obtain t as' r where p: "p as = (t, as', r)" by (cases "p as")
  note * = all_runsD [OF assms p]
  show "case pbind p f as of (t, as', r) \<Rightarrow> Q t r"
  proof (cases r)
    case (Done x)
    obtain t2 as2 r2 where "f x as' = (t2, as2, r2)" by (cases "f x as'")
    then show ?thesis using * p Done by (auto simp: pbind_def dest: all_runsD)
  qed (use * p in \<open>simp_all add: pbind_def\<close>)
qed

text \<open>The calls of a run, and the messages.\<close>

fun call_of :: "entry \<Rightarrow> call list" where
  "call_of (Call c a) = [c]"
| "call_of (Pending c) = [c]"
| "call_of (Message op e) = []"
| "call_of (Output line) = []"

definition calls :: "entry list \<Rightarrow> call list" where
  "calls t = concat (map call_of t)"

lemma calls_simps [simp]: "calls [] = []" "calls (e # t) = call_of e @ calls t" "calls (s @ t) = calls s @ calls t"
  by (simp_all add: calls_def)

end
