(* ===== verification/Runtime.thy ===== *)
theory Runtime
  imports Syscalls C_Lib
begin

text \<open>
  The container launcher, \<^verbatim>\<open>container-runtime/runtime.c\<close>: the launcher's \<open>main\<close>, the
  namespace's PID 1 (\<open>run_container\<close>), the command child it forks, and the supervisor loop
  both of the former run. Each is a program of \<open>Syscalls\<close>; the processes communicate only
  through the kernel, whose answers are arguments. This theory has the definitions; the
  facts are in \<open>Runtime_Facts\<close>.
\<close>

unbundle bit_operations_syntax

definition RUNTIME_ERROR :: int where "RUNTIME_ERROR = 125"
definition STACK_SIZE :: int where "STACK_SIZE = 1024 * 1024"

text \<open>Signal numbers of Linux.\<close>

abbreviation (input) SIGHUP :: int where "SIGHUP \<equiv> 1"
abbreviation (input) SIGINT :: int where "SIGINT \<equiv> 2"
abbreviation (input) SIGQUIT :: int where "SIGQUIT \<equiv> 3"
abbreviation (input) SIGKILL :: int where "SIGKILL \<equiv> 9"
abbreviation (input) SIGPIPE :: int where "SIGPIPE \<equiv> 13"
abbreviation (input) SIGTERM :: int where "SIGTERM \<equiv> 15"
abbreviation (input) SIGCHLD :: int where "SIGCHLD \<equiv> 17"

definition forwarded_signals :: "int list" where
  "forwarded_signals = [SIGINT, SIGTERM, SIGHUP, SIGQUIT]"

definition wait_signals :: "int list" where
  "wait_signals = SIGCHLD # forwarded_signals"

record container =
  root_fd :: int
  root_path :: string
  parent_fd :: int
  ready0 :: int
  ready1 :: int
  command :: "string list"

definition fail :: "string \<Rightarrow> errno \<Rightarrow> 'a prog" where
  "fail operation e = pbind (perror operation e) (\<lambda>_. exit_now RUNTIME_ERROR)"

text \<open>\<^verbatim>\<open>if (call < 0) fail(operation)\<close>.\<close>

definition must :: "string \<Rightarrow> call \<Rightarrow> answer prog" where
  "must operation c = pbind (sys c) (\<lambda>a. if ret a < 0 then fail operation (err a) else preturn a)"

fun must_each :: "string \<Rightarrow> call list \<Rightarrow> unit prog" where
  "must_each operation [] = preturn ()"
| "must_each operation (c # cs) = pbind (must operation c) (\<lambda>_. must_each operation cs)"

section \<open>Wait statuses\<close>

definition WIFEXITED :: "int \<Rightarrow> bool" where "WIFEXITED status \<longleftrightarrow> status AND 127 = 0"
definition WEXITSTATUS :: "int \<Rightarrow> int" where "WEXITSTATUS status = drop_bit 8 (status AND 65280)"
definition WTERMSIG :: "int \<Rightarrow> int" where "WTERMSIG status = status AND 127"

definition exit_status :: "int \<Rightarrow> int" where
  "exit_status status = (if WIFEXITED status then WEXITSTATUS status else 128 + WTERMSIG status)"

section \<open>The supervisor\<close>

definition emit :: "entry \<Rightarrow> entry list \<times> answer list \<times> 'a outcome \<Rightarrow> entry list \<times> answer list \<times> 'a outcome" where
  "emit e r = (e # fst r, snd r)"

text \<open>The loop, cut at its three system calls.\<close>

fun sv_reap :: "int \<Rightarrow> bool \<Rightarrow> int prog"
  and sv_wait :: "int \<Rightarrow> bool \<Rightarrow> int prog"
  and sv_kill :: "int \<Rightarrow> bool \<Rightarrow> int \<Rightarrow> int prog" where
  "sv_reap child pg [] = ([Pending (Waitpid (- 1) [WNOHANG])], [], Waiting)"
| "sv_reap child pg (a # as) = emit (Call (Waitpid (- 1) [WNOHANG]) a)
     (if ret a > 0 then
        (if ret a = child then preturn (exit_status (wstatus a)) as else sv_reap child pg as)
      else if ret a < 0 \<and> err a \<noteq> EINTR then fail ''waitpid'' (err a) as
      else sv_wait child pg as)"
| "sv_wait child pg [] = ([Pending (Sigwaitinfo wait_signals)], [], Waiting)"
| "sv_wait child pg (a # as) = emit (Call (Sigwaitinfo wait_signals) a)
     (if ret a < 0 then
        (if err a = EINTR then sv_reap child pg as else fail ''sigwaitinfo'' (err a) as)
      else if ret a \<noteq> SIGCHLD then sv_kill child pg (ret a) as
      else sv_reap child pg as)"
| "sv_kill child pg sig [] = ([Pending (Kill (if pg then - child else child) sig)], [], Waiting)"
| "sv_kill child pg sig (a # as) = emit (Call (Kill (if pg then - child else child) sig) a)
     (if ret a < 0 \<and> err a \<noteq> ESRCH then fail ''forward signal'' (err a) as
      else sv_reap child pg as)"

definition supervise :: "int \<Rightarrow> bool \<Rightarrow> int prog" where
  "supervise child process_group = sv_reap child process_group"

section \<open>Dropping privileges\<close>

fun drop_bounding :: "int \<Rightarrow> unit prog" where
  "drop_bounding cap [] = ([Pending (Capbset_read cap)], [], Waiting)"
| "drop_bounding cap [a] = emit (Call (Capbset_read cap) a)
     (if ret a < 0 then
        (if err a = EINVAL then preturn () [] else fail ''read capability bounding set'' (err a) [])
      else ([Pending (Capbset_drop cap)], [], Waiting))"
| "drop_bounding cap (a # b # as) = emit (Call (Capbset_read cap) a)
     (if ret a < 0 then
        (if err a = EINVAL then preturn () (b # as) else fail ''read capability bounding set'' (err a) (b # as))
      else emit (Call (Capbset_drop cap) b)
        (if ret b < 0 then fail ''drop capability bounding set'' (err b) as
         else drop_bounding (cap + 1) as))"

definition drop_capabilities :: "unit prog" where
  "drop_capabilities =
     pbind (drop_bounding 0) (\<lambda>_.
     must_each ''drop process privileges'' [Capset_empty, No_new_privs])"

section \<open>PID 1 of the container\<close>

text \<open>Waiting until the launcher has written the user mappings.\<close>

definition await_parent :: "container \<Rightarrow> unit prog" where
  "await_parent c =
     pbind (sys (Close (ready1 c))) (\<lambda>_.
     pbind (must ''set parent death signal'' (Prctl_pdeathsig SIGKILL)) (\<lambda>_.
     pbind (sys (Poll (parent_fd c))) (\<lambda>polled.
     if ret polled \<noteq> 0 then exit_now RUNTIME_ERROR else
     pbind (sys (Close (parent_fd c))) (\<lambda>_.
     pbind (sys (Read (ready0 c) 1)) (\<lambda>byte.
     if ret byte \<noteq> 1 \<or> data byte \<noteq> ''1'' then exit_now RUNTIME_ERROR else
     pbind (sys (Close (ready0 c))) (\<lambda>_. preturn ()))))))"

definition same_file :: "answer \<Rightarrow> answer \<Rightarrow> bool" where
  "same_file a b \<longleftrightarrow> st_dev a = st_dev b \<and> st_ino a = st_ino b"

definition switch_root :: "container \<Rightarrow> unit prog" where
  "switch_root c =
     pbind (must ''setsid'' Setsid) (\<lambda>_.
     pbind (must ''make mounts private'' (Mount None ''/'' None [MS_REC, MS_PRIVATE])) (\<lambda>_.
     pbind (must ''reopen rootfs'' (Open (root_path c) [O_RDONLY, O_DIRECTORY, O_NOFOLLOW, O_CLOEXEC])) (\<lambda>root.
     pbind (must ''reopen rootfs'' (Fstat (ret root))) (\<lambda>current.
     pbind (must ''reopen rootfs'' (Fstat (root_fd c))) (\<lambda>expected.
     if \<not> same_file current expected then fail ''rootfs changed during startup'' ESTALE else
     pbind (must_each ''bind rootfs'' [Fchdir (ret root), Mount (Some ''.'') ''.'' None [MS_BIND]]) (\<lambda>_.
     pbind (must ''enter rootfs mount'' (Chdir (root_path c))) (\<lambda>_.
     pbind (must ''stat rootfs mount'' (Stat ''.'')) (\<lambda>current.
     if \<not> same_file current expected then fail ''rootfs changed before pivot'' ESTALE else
     pbind (must ''mount container proc'' (Mount (Some ''proc'') ''proc'' (Some ''proc'') [MS_NOSUID, MS_NODEV, MS_NOEXEC])) (\<lambda>_.
     pbind (must ''pivot rootfs'' (Pivot_root ''.'' ''.'')) (\<lambda>_.
     pbind (must_each ''detach old root'' [Umount2 ''.'' [MNT_DETACH], Chdir ''/'']) (\<lambda>_.
     pbind (must ''close inherited descriptors'' (Close_range 3)) (\<lambda>_. preturn ()))))))))))))"

text \<open>The child that becomes the command. A successful \<open>execv\<close> does not return.\<close>

definition command_child :: "container \<Rightarrow> 'a prog" where
  "command_child c =
     pbind (must ''set command process group'' (Setpgid 0 0)) (\<lambda>_.
     pbind (must_each ''reset signal handler'' (map (\<lambda>s. Sigaction s SIG_DFL) forwarded_signals)) (\<lambda>_.
     pbind (must_each ''reset command signals'' [Sigaction SIGPIPE SIG_DFL, Sig_unblock wait_signals]) (\<lambda>_.
     pbind (sys (Execv (hd (command c)) (command c))) (\<lambda>a.
     if ret a \<ge> 0 then replace (hd (command c)) (command c)
     else pbind (perror ''exec command'' (err a)) (\<lambda>_.
          exit_now (if err a = ENOENT then 127 else 126))))))"

definition container_setup :: "container \<Rightarrow> unit prog" where
  "container_setup c =
     pbind (await_parent c) (\<lambda>_.
     pbind (switch_root c) (\<lambda>_.
     drop_capabilities))"

definition start_command :: "container \<Rightarrow> int prog" where
  "start_command c =
     pbind (must ''fork command'' Fork) (\<lambda>a.
     let cmd = ret a in
     if cmd = 0 then command_child c
     else pbind (sys (Setpgid cmd cmd)) (\<lambda>b.
          if ret b < 0 \<and> err b \<noteq> EACCES then fail ''set command process group'' (err b)
          else supervise cmd True))"

definition run_container :: "container \<Rightarrow> int prog" where
  "run_container c = pbind (container_setup c) (\<lambda>_. start_command c)"

section \<open>The launcher\<close>

definition map_path :: "int \<Rightarrow> string \<Rightarrow> string" where
  "map_path child name = cstr (snprintf 64 (''/proc/'' @ show_int child @ ''/'' @ name))"

text \<open>\<open>Inl\<close> is the return value \<open>-1\<close> with \<open>errno\<close>.\<close>

definition write_map :: "int \<Rightarrow> string \<Rightarrow> string \<Rightarrow> (errno + unit) prog" where
  "write_map child name value =
     pbind (sys (Open (map_path child name) [O_WRONLY, O_CLOEXEC])) (\<lambda>a.
     if ret a < 0 then preturn (Inl (err a)) else
     pbind (sys (Write (ret a) value)) (\<lambda>b.
     pbind (sys (Close (ret a))) (\<lambda>_.
     if ret b \<noteq> int (length value) then preturn (Inl (if ret b < 0 then err b else EIO))
     else preturn (Inr ()))))"

definition id_map :: "nat \<Rightarrow> string" where
  "id_map i = cstr (snprintf 64 (''0 '' @ show_dec i @ '' 1'' @ [LF]))"

definition map_user :: "int \<Rightarrow> int \<Rightarrow> nat \<Rightarrow> nat \<Rightarrow> (errno + unit) prog" where
  "map_user child ready uid gid =
     pbind (write_map child ''setgroups'' ''deny'') (\<lambda>r. case r of Inl e \<Rightarrow> preturn (Inl e) | Inr _ \<Rightarrow>
     pbind (write_map child ''uid_map'' (id_map uid)) (\<lambda>r. case r of Inl e \<Rightarrow> preturn (Inl e) | Inr _ \<Rightarrow>
     pbind (write_map child ''gid_map'' (id_map gid)) (\<lambda>r. case r of Inl e \<Rightarrow> preturn (Inl e) | Inr _ \<Rightarrow>
     pbind (sys (Write ready ''1'')) (\<lambda>a.
     if ret a \<noteq> 1 then preturn (Inl (err a)) else preturn (Inr ())))))"

text \<open>\<^verbatim>\<open>while (waitpid(child, NULL, 0) < 0 && errno == EINTR) {}\<close>\<close>

fun wait_gone :: "int \<Rightarrow> unit prog" where
  "wait_gone child [] = ([Pending (Waitpid child [])], [], Waiting)"
| "wait_gone child (a # as) = emit (Call (Waitpid child []) a)
     (if ret a < 0 \<and> err a = EINTR then wait_gone child as else preturn () as)"

text \<open>From the clone on: \<open>child\<close> is the namespace's PID 1.\<close>

definition launch :: "container \<Rightarrow> int \<Rightarrow> int prog" where
  "launch c child =
     pbind (sys (Close (ready0 c))) (\<lambda>_.
     pbind (sys (Close (parent_fd c))) (\<lambda>_.
     pbind (sys (Close (root_fd c))) (\<lambda>_.
     pbind (sys Getuid) (\<lambda>uid.
     pbind (sys Getgid) (\<lambda>gid.
     pbind (map_user child (ready1 c) (nat (ret uid)) (nat (ret gid))) (\<lambda>r. case r of
       Inl e \<Rightarrow>
         pbind (perror ''map container user'' e) (\<lambda>_.
         pbind (sys (Kill child SIGKILL)) (\<lambda>_.
         pbind (wait_gone child) (\<lambda>_.
         pbind (sys (Close (ready1 c))) (\<lambda>_.
         preturn RUNTIME_ERROR))))
     | Inr _ \<Rightarrow>
         pbind (sys (Close (ready1 c))) (\<lambda>_.
         supervise child False)))))))"

definition setup_signals :: "unit prog" where
  "setup_signals =
     pbind (must ''block supervisor signals'' (Sig_block wait_signals)) (\<lambda>_.
     pbind (must_each ''set signal handler'' (map (\<lambda>s. Sigaction s Handler) forwarded_signals)) (\<lambda>_.
     pbind (must ''reset SIGCHLD'' (Sigaction SIGCHLD SIG_DFL)) (\<lambda>_.
     pbind (must ''ignore SIGPIPE'' (Sigaction SIGPIPE SIG_IGN)) (\<lambda>_. preturn ()))))"

text \<open>The rootfs: \<open>Inl\<close> is the early return when it is the host's own root.\<close>

definition open_rootfs :: "string \<Rightarrow> (unit + string \<times> int) prog" where
  "open_rootfs dir =
     pbind (sys (Realpath dir)) (\<lambda>p.
     if ret p = 0 then fail ''resolve rootfs'' (err p) else
     pbind (must ''open rootfs'' (Open (data p) [O_RDONLY, O_DIRECTORY, O_CLOEXEC])) (\<lambda>fd.
     pbind (must ''stat rootfs'' (Fstat (ret fd))) (\<lambda>rootfs.
     pbind (must ''stat rootfs'' (Stat ''/'')) (\<lambda>host_root.
     if same_file rootfs host_root then
       pbind (eprint (''rootfs must be a prepared directory other than /'' @ [LF])) (\<lambda>_. preturn (Inl ()))
     else
     pbind (must ''rootfs needs a real proc directory''
       (Openat (ret fd) ''proc'' [O_PATH, O_DIRECTORY, O_NOFOLLOW, O_CLOEXEC])) (\<lambda>proc.
     pbind (sys (Close (ret proc))) (\<lambda>_. preturn (Inr (data p, ret fd))))))))"

text \<open>\<^verbatim>\<open>getuid() == 0 || getuid() != geteuid() || getgid() != getegid()\<close>\<close>

definition privileged :: "bool prog" where
  "privileged =
     pbind (sys Getuid) (\<lambda>u. if ret u = 0 then preturn True else
     pbind (sys Getuid) (\<lambda>u. pbind (sys Geteuid) (\<lambda>e. if ret u \<noteq> ret e then preturn True else
     pbind (sys Getgid) (\<lambda>g. pbind (sys Getegid) (\<lambda>h. preturn (ret g \<noteq> ret h))))))"

text \<open>Signals, the pidfd, the pipe and the child's stack.\<close>

definition create_startup :: "string \<Rightarrow> int \<Rightarrow> string list \<Rightarrow> container prog" where
  "create_startup path fd cmd =
     pbind setup_signals (\<lambda>_.
     pbind (sys Getpid) (\<lambda>pid.
     pbind (must ''create startup descriptors'' (Pidfd_open (ret pid))) (\<lambda>pidfd.
     pbind (must ''create startup descriptors'' (Pipe2 [O_CLOEXEC])) (\<lambda>pipe.
     pbind (sys (Malloc STACK_SIZE)) (\<lambda>stack.
     if ret stack = 0 then fail ''allocate child stack'' (err stack) else
     preturn \<lparr>root_fd = fd, root_path = path, parent_fd = ret pidfd,
              ready0 = fd0 pipe, ready1 = fd1 pipe, command = cmd\<rparr>)))))"

definition runtime_usage :: "string list \<Rightarrow> string" where
  "runtime_usage argv = ''Usage: '' @ argv ! 0 @ '' ROOTFS /COMMAND [ARG ...]'' @ [LF]"

text \<open>Everything \<open>main\<close> does before the clone: \<open>Inl\<close> is an early return with that status.\<close>

definition prepare :: "string list \<Rightarrow> (int + container) prog" where
  "prepare argv =
     (if length argv = 2 \<and> argv ! 1 = ''--help'' then pbind (pprint (runtime_usage argv)) (\<lambda>_. preturn (Inl 0))
      else if length argv < 3 \<or> argv ! 2 = [] \<or> hd (argv ! 2) \<noteq> CHR ''/'' then
        pbind (eprint (runtime_usage argv)) (\<lambda>_. preturn (Inl RUNTIME_ERROR))
      else
        pbind privileged (\<lambda>bad.
        if bad then
          pbind (eprint (''run as an unprivileged user without setuid or setgid'' @ [LF])) (\<lambda>_. preturn (Inl RUNTIME_ERROR))
        else
        pbind (must_each ''standard descriptor must be open'' (map Fcntl_getfd [0, 1, 2])) (\<lambda>_.
        pbind (open_rootfs (argv ! 1)) (\<lambda>r. case r of
          Inl _ \<Rightarrow> preturn (Inl RUNTIME_ERROR)
        | Inr (path, fd) \<Rightarrow> pbind (create_startup path fd (drop 2 argv)) (\<lambda>c. preturn (Inr c))))))"

definition runtime_main :: "string list \<Rightarrow> int prog" where
  "runtime_main argv =
     pbind (prepare argv) (\<lambda>r. case r of
       Inl code \<Rightarrow> preturn code
     | Inr c \<Rightarrow>
         pbind (must ''create user, mount, and PID namespaces''
           (Clone [CLONE_NEWUSER, CLONE_NEWNS, CLONE_NEWPID, CLONE_SIGCHLD])) (\<lambda>child.
         launch c (ret child)))"

end
