(* ===== verification/Runtime_Facts.thy ===== *)
theory Runtime_Facts
  imports Runtime
begin

text \<open>
  Facts about the launcher's programs: exit statuses, the supervisor loop, the order of the
  container's setup, and that every failure before the command starts ends in exit code 125
  without a command.
\<close>

section \<open>Decomposing programs\<close>

lemma all_runs_fail [run_simps]: "all_runs (fail op e) Q \<longleftrightarrow> Q [Message op (Some e)] (Exited 125)"
  by (simp add: fail_def pbind_def perror_def exit_now_def all_runs_def RUNTIME_ERROR_def)

lemma all_runs_must [run_simps]:
  "all_runs (must op c) Q \<longleftrightarrow> Q [Pending c] Waiting \<and>
     (\<forall>a. if ret a < 0 then Q [Call c a, Message op (Some (err a))] (Exited 125) else Q [Call c a] (Done a))"
proof
  assume *: "all_runs (must op c) Q"
  have "Q [Pending c] Waiting"
    using all_runsD [OF *, of "[]"] by (simp add: must_def pbind_def)
  moreover have "if ret a < 0 then Q [Call c a, Message op (Some (err a))] (Exited 125) else Q [Call c a] (Done a)" for a
    using all_runsD [OF *, of "[a]"]
    by (simp add: must_def pbind_def preturn_def fail_def perror_def exit_now_def RUNTIME_ERROR_def split: if_splits)
  ultimately show "Q [Pending c] Waiting \<and>
     (\<forall>a. if ret a < 0 then Q [Call c a, Message op (Some (err a))] (Exited 125) else Q [Call c a] (Done a))"
    by blast
next
  assume "Q [Pending c] Waiting \<and>
     (\<forall>a. if ret a < 0 then Q [Call c a, Message op (Some (err a))] (Exited 125) else Q [Call c a] (Done a))"
  then show "all_runs (must op c) Q"
    unfolding must_def by (intro all_runs_bindI) (auto simp: run_simps split: if_splits)
qed

text \<open>
  \<open>safe p C\<close>: \<open>p\<close> ends normally, waits, or exits with 125, and makes calls satisfying \<open>C\<close>
  only. Closed under composition, so it is proved call by call.
\<close>

definition safe :: "'a prog \<Rightarrow> (call \<Rightarrow> bool) \<Rightarrow> bool" where
  "safe p C \<longleftrightarrow> all_runs p (\<lambda>t r. (\<forall>c\<in>set (calls t). C c) \<and> (r = Waiting \<or> r = Exited 125 \<or> (\<exists>x. r = Done x)))"

lemma safe_return [simp]: "safe (preturn x) C"
  by (simp add: safe_def run_simps)

lemma safe_exit [simp]: "safe (exit_now RUNTIME_ERROR) C"
  by (simp add: safe_def run_simps RUNTIME_ERROR_def)

lemma safe_fail [simp]: "safe (fail op e) C"
  by (simp add: safe_def run_simps)

lemma safe_sys [simp]: "safe (sys c) C \<longleftrightarrow> C c"
  by (simp add: safe_def run_simps)

lemma safe_must [simp]: "safe (must op c) C \<longleftrightarrow> C c"
  by (auto simp: safe_def run_simps)

lemma safe_print [simp]: "safe (perror op e) C" "safe (eprint line) C" "safe (pprint line) C"
  by (simp_all add: safe_def run_simps)

lemma safe_bind [simp, intro]:
  assumes "safe p C" and "\<And>x. safe (f x) C"
  shows "safe (pbind p f) C"
  unfolding safe_def
proof (rule all_runs_bindI, rule all_runs_mono [OF assms(1) [unfolded safe_def]])
  fix t and r :: "'a outcome"
  assume *: "(\<forall>c\<in>set (calls t). C c) \<and> (r = Waiting \<or> r = Exited 125 \<or> (\<exists>x. r = Done x))"
  show "case r of
      Done x \<Rightarrow> all_runs (f x) (\<lambda>t' r. (\<forall>c\<in>set (calls (t @ t')). C c) \<and> (r = Waiting \<or> r = Exited 125 \<or> (\<exists>x. r = Done x)))
    | Exited code \<Rightarrow> (\<forall>c\<in>set (calls t). C c) \<and> ((Exited code :: 'b outcome) = Waiting \<or> Exited code = (Exited 125 :: 'b outcome) \<or> (\<exists>x :: 'b. Exited code = Done x))
    | Replaced path argv \<Rightarrow> (\<forall>c\<in>set (calls t). C c) \<and> ((Replaced path argv :: 'b outcome) = Waiting \<or> Replaced path argv = (Exited 125 :: 'b outcome) \<or> (\<exists>x :: 'b. Replaced path argv = Done x))
    | Waiting \<Rightarrow> (\<forall>c\<in>set (calls t). C c) \<and> ((Waiting :: 'b outcome) = Waiting \<or> Waiting = (Exited 125 :: 'b outcome) \<or> (\<exists>x :: 'b. Waiting = Done x))"
    using * by (cases r) (auto intro: all_runs_mono [OF assms(2) [unfolded safe_def]])
qed

lemma safe_must_each [simp]: "\<forall>c\<in>set cs. C c \<Longrightarrow> safe (must_each op cs) C"
  by (induction cs) auto

lemma safeD: "safe p C \<Longrightarrow> p as = (t, as', r) \<Longrightarrow>
  (\<forall>c\<in>set (calls t). C c) \<and> (r = Waiting \<or> r = Exited 125 \<or> (\<exists>x. r = Done x))"
  by (auto simp: safe_def dest: all_runsD)

section \<open>Exit statuses\<close>

lemma and_127: "(s :: int) AND 127 = s mod 128"
  using take_bit_eq_mask [of 7 s] by (simp add: take_bit_eq_mod mask_eq_exp_minus_1)

lemma and_255: "(s :: int) AND 255 = s mod 256"
  using take_bit_eq_mask [of 8 s] by (simp add: take_bit_eq_mod mask_eq_exp_minus_1)

lemma WEXITSTATUS_eq: "WEXITSTATUS s = (s div 256) mod 256"
  unfolding WEXITSTATUS_def drop_bit_and by (simp add: drop_bit_eq_div [of 8 s] and_255)

lemma exit_status_eq:
  "exit_status s = (if s mod 128 = 0 then (s div 256) mod 256 else 128 + s mod 128)"
  by (simp add: exit_status_def WIFEXITED_def WTERMSIG_def WEXITSTATUS_eq and_127)

lemma exit_status_bounds: "0 \<le> exit_status s \<and> exit_status s \<le> 255"
proof -
  have "s mod 128 < 128" "s div 256 mod 256 < 256" by simp_all
  then have "s mod 128 \<le> 127" "s div 256 mod 256 \<le> 255" by linarith+
  then show ?thesis by (simp add: exit_status_eq)
qed

text \<open>The status the kernel reports for a process that exited with \<open>code\<close>, or was killed by a signal;
  bit 7 of it says whether the process left a core dump.\<close>

definition W_EXITCODE :: "int \<Rightarrow> int \<Rightarrow> int" where
  "W_EXITCODE code sig = (push_bit 8 (code AND 255)) OR sig"

lemma exit_status_exited: "exit_status (W_EXITCODE code 0) = code mod 256"
  by (simp add: exit_status_eq W_EXITCODE_def push_bit_eq_mult and_255)

lemma exit_status_killed:
  "0 < sig \<Longrightarrow> sig < 128 \<Longrightarrow> exit_status (W_EXITCODE 0 (sig + (if core then 128 else 0))) = 128 + sig"
  by (simp add: exit_status_eq W_EXITCODE_def)

text \<open>One supervisor passes the other's result on unchanged.\<close>

lemma exit_status_relayed: "exit_status (W_EXITCODE (exit_status s) 0) = exit_status s"
  using exit_status_bounds [of s] by (simp add: exit_status_exited)

section \<open>The supervisor\<close>

text \<open>
  The signals a run has received and the ones it has sent on; a signal it is about to send
  counts as sent.
\<close>

fun received_of :: "entry \<Rightarrow> int list" where
  "received_of (Call (Sigwaitinfo s) a) = (if ret a < 0 \<or> ret a = SIGCHLD then [] else [ret a])"
| "received_of _ = []"

fun killed_of :: "entry \<Rightarrow> (int \<times> int) list" where
  "killed_of (Call (Kill pid sig) a) = [(pid, sig)]"
| "killed_of (Pending (Kill pid sig)) = [(pid, sig)]"
| "killed_of _ = []"

definition received :: "entry list \<Rightarrow> int list" where "received t = concat (map received_of t)"
definition killed :: "entry list \<Rightarrow> (int \<times> int) list" where "killed t = concat (map killed_of t)"

lemma received_simps [simp]: "received [] = []" "received (e # t) = received_of e @ received t"
  "killed [] = []" "killed (e # t) = killed_of e @ killed t"
  by (simp_all add: received_def killed_def)

lemma emit_eq [simp]: "emit e (t, as, r) = (e # t, as, r)"
  by (simp add: emit_def)

lemma emit_conv: "emit e x = (t, as, r) \<longleftrightarrow> (\<exists>t'. t = e # t' \<and> x = (t', as, r))"
  by (cases x) (auto simp: emit_def)

lemma fail_eq [simp]: "fail op e as = ([Message op (Some e)], as, Exited 125)"
  by (simp add: fail_def pbind_def perror_def exit_now_def RUNTIME_ERROR_def)

lemma preturn_eq [simp]: "preturn x as = ([], as, Done x)"
  by (simp add: preturn_def)

text \<open>Every signal received is sent on, in order, to the child or to its process group.\<close>

lemma sv_forwards:
  "sv_reap child pg as = (t, as', r) \<Longrightarrow> killed t = map (Pair (if pg then - child else child)) (received t)"
  "sv_wait child pg as = (t, as', r) \<Longrightarrow> killed t = map (Pair (if pg then - child else child)) (received t)"
  "sv_kill child pg sig as = (t, as', r) \<Longrightarrow> killed t = map (Pair (if pg then - child else child)) (sig # received t)"
  by (induction child pg as and child pg as and child pg sig as arbitrary: t and t and t
      rule: sv_reap_sv_wait_sv_kill.induct) (auto simp: emit_conv split: if_splits)

text \<open>
  A returned status is the one \<open>waitpid\<close> reported for the child, and nothing was reported
  for the child before; otherwise the supervisor still waits or has failed.
\<close>

definition reaps :: "int \<Rightarrow> entry \<Rightarrow> bool" where
  "reaps child e \<longleftrightarrow> (\<exists>a. e = Call (Waitpid (- 1) [WNOHANG]) a \<and> ret a = child)"

text \<open>The answers that end the supervisor with an error.\<close>

fun sv_fatal :: "entry \<Rightarrow> bool" where
  "sv_fatal (Call (Waitpid p opts) a) \<longleftrightarrow> ret a < 0 \<and> err a \<noteq> EINTR"
| "sv_fatal (Call (Sigwaitinfo sigs) a) \<longleftrightarrow> ret a < 0 \<and> err a \<noteq> EINTR"
| "sv_fatal (Call (Kill p sig) a) \<longleftrightarrow> ret a < 0 \<and> err a \<noteq> ESRCH"
| "sv_fatal _ \<longleftrightarrow> False"

definition sv_result :: "int \<Rightarrow> entry list \<Rightarrow> int outcome \<Rightarrow> bool" where
  "sv_result child t r \<longleftrightarrow>
     (case r of
        Done code \<Rightarrow> \<exists>t' a. t = t' @ [Call (Waitpid (- 1) [WNOHANG]) a] \<and> ret a = child \<and>
          code = exit_status (wstatus a) \<and> (\<forall>e\<in>set t'. \<not> reaps child e \<and> \<not> sv_fatal e)
      | Exited code \<Rightarrow> code = 125 \<and> (\<forall>e\<in>set t. \<not> reaps child e) \<and>
          (\<exists>t' x a op. t = t' @ [Call x a, Message op (Some (err a))] \<and> sv_fatal (Call x a) \<and> (\<forall>e\<in>set t'. \<not> sv_fatal e))
      | Replaced path argv \<Rightarrow> False
      | Waiting \<Rightarrow> (\<forall>e\<in>set t. \<not> reaps child e \<and> \<not> sv_fatal e) \<and> (\<exists>t' c. t = t' @ [Pending c]))"

lemma reaps_simps [simp]:
  "reaps child (Call (Waitpid (- 1) [WNOHANG]) a) \<longleftrightarrow> ret a = child"
  "\<not> reaps child (Call (Sigwaitinfo s) a)" "\<not> reaps child (Call (Kill p sig) a)"
  "\<not> reaps child (Pending c)" "\<not> reaps child (Message op e)" "\<not> reaps child (Output line)"
  by (auto simp: reaps_def)

lemma sv_result_Cons:
  assumes "sv_result child t r" and "\<not> reaps child e" and "\<not> sv_fatal e"
  shows "sv_result child (e # t) r"
proof (cases r)
  case (Exited code)
  then obtain t' x a op where "t = t' @ [Call x a, Message op (Some (err a))]" "sv_fatal (Call x a)" "\<forall>e\<in>set t'. \<not> sv_fatal e"
    using assms(1) by (auto simp: sv_result_def)
  then show ?thesis using assms Exited by (auto simp: sv_result_def intro!: exI [of _ "e # t'"])
qed (use assms in \<open>fastforce simp: sv_result_def\<close>)+

lemma sv_result_base [simp]:
  "ret a = child \<Longrightarrow> sv_result child [Call (Waitpid (- 1) [WNOHANG]) a] (Done (exit_status (wstatus a)))"
  "sv_fatal (Call x a) \<Longrightarrow> \<not> reaps child (Call x a) \<Longrightarrow> sv_result child [Call x a, Message op (Some (err a))] (Exited 125)"
  "sv_result child [Pending c] Waiting"
  by (auto simp: sv_result_def)

lemma sv_results:
  "0 < child \<Longrightarrow> sv_reap child pg as = (t, as', r) \<Longrightarrow> sv_result child t r"
  "0 < child \<Longrightarrow> sv_wait child pg as = (t, as', r) \<Longrightarrow> sv_result child t r"
  "0 < child \<Longrightarrow> sv_kill child pg sig as = (t, as', r) \<Longrightarrow> sv_result child t r"
  by (induction child pg as and child pg as and child pg sig as arbitrary: t and t and t
      rule: sv_reap_sv_wait_sv_kill.induct) (auto simp: emit_conv sv_result_Cons split: if_splits)

lemma sv_result_Done:
  "sv_result child t (Done code) \<Longrightarrow>
   \<exists>a. Call (Waitpid (- 1) [WNOHANG]) a \<in> set t \<and> ret a = child \<and> code = exit_status (wstatus a)"
  by (fastforce simp: sv_result_def)

end
