(* ===== verification/Runtime_Setup.thy ===== *)
theory Runtime_Setup
  imports Runtime_Facts
begin

text \<open>
  The launcher's straight-line parts: the order of the calls that confine the container, the
  child that becomes the command, the user mapping, and the launcher itself. The simp rules
  of the first section evaluate \<open>all_runs\<close> through a sequence of calls.
\<close>

section \<open>Evaluating sequences of calls\<close>

lemma all_runs_bind_sys [run_simps]:
  "all_runs (pbind (sys c) f) Q \<longleftrightarrow> Q [Pending c] Waiting \<and> (\<forall>a. all_runs (f a) (\<lambda>t. Q (Call c a # t)))"
proof
  assume *: "all_runs (pbind (sys c) f) Q"
  have "Q [Pending c] Waiting" using all_runsD [OF *, of "[]"] by (simp add: pbind_def)
  moreover have "Q (Call c a # t) r" if "f a as = (t, as', r)" for a as t as' r
    using all_runsD [OF *, of "a # as"] that by (simp add: pbind_def)
  then have "all_runs (f a) (\<lambda>t. Q (Call c a # t))" for a
    by (auto simp: all_runs_def split: prod.split)
  ultimately show "Q [Pending c] Waiting \<and> (\<forall>a. all_runs (f a) (\<lambda>t. Q (Call c a # t)))" by blast
next
  assume "Q [Pending c] Waiting \<and> (\<forall>a. all_runs (f a) (\<lambda>t. Q (Call c a # t)))"
  then show "all_runs (pbind (sys c) f) Q" by (intro all_runs_bindI) (simp add: run_simps)
qed

lemma pbind_assoc [run_simps]: "pbind (pbind p f) g = pbind p (\<lambda>x. pbind (f x) g)"
proof
  fix as
  obtain t as' r where p: "p as = (t, as', r)" by (cases "p as")
  show "pbind (pbind p f) g as = pbind p (\<lambda>x. pbind (f x) g) as"
  proof (cases r)
    case (Done x)
    obtain t2 as2 r2 where "f x as' = (t2, as2, r2)" by (cases "f x as'")
    then show ?thesis using p Done by (cases r2) (simp_all add: pbind_def split: prod.split)
  qed (use p in \<open>simp_all add: pbind_def\<close>)
qed

lemma pbind_preturn [simp]: "pbind (preturn x) f = f x"
  by (rule ext) (simp add: pbind_def)

lemma pbind_fail [simp]: "pbind (fail op e) f = fail op e"
  by (rule ext) (simp add: pbind_def)

lemma pbind_exit [simp]: "pbind (exit_now code) f = exit_now code"
  by (rule ext) (simp add: pbind_def exit_now_def)

lemma all_runs_bind_print [run_simps]:
  "all_runs (pbind (perror op e) f) Q \<longleftrightarrow> all_runs (f ()) (\<lambda>t. Q (Message op (Some e) # t))"
  "all_runs (pbind (eprint line) f) Q \<longleftrightarrow> all_runs (f ()) (\<lambda>t. Q (Message line None # t))"
  "all_runs (pbind (pprint line) f) Q \<longleftrightarrow> all_runs (f ()) (\<lambda>t. Q (Output line # t))"
  by (simp_all add: all_runs_def pbind_def perror_def eprint_def pprint_def split_beta)

lemma pbind_if: "pbind (if b then p else q) f = (if b then pbind p f else pbind q f)"
  by simp

lemma all_runs_if [run_simps]:
  "all_runs (if b then p else q) Q \<longleftrightarrow> (b \<longrightarrow> all_runs p Q) \<and> (\<not> b \<longrightarrow> all_runs q Q)"
  by simp

lemma all_runs_bind_must [run_simps]:
  "all_runs (pbind (must op c) f) Q \<longleftrightarrow> Q [Pending c] Waiting \<and>
     (\<forall>a. (ret a < 0 \<longrightarrow> Q [Call c a, Message op (Some (err a))] (Exited 125)) \<and>
          (0 \<le> ret a \<longrightarrow> all_runs (f a) (\<lambda>t. Q (Call c a # t))))"
  by (auto simp: must_def pbind_assoc pbind_if run_simps split: if_splits)

lemma must_each_bind [run_simps]:
  "pbind (must_each op []) f = f ()"
  "pbind (must_each op (c # cs)) f = pbind (must op c) (\<lambda>_. pbind (must_each op cs) f)"
  by (simp_all add: pbind_assoc)

section \<open>The bounding set\<close>

definition cap_calls :: "int \<Rightarrow> nat \<Rightarrow> call list" where
  "cap_calls cap n =
     concat (map (\<lambda>i. [Capbset_read (cap + int i), Capbset_drop (cap + int i)]) [0..<n]) @ [Capbset_read (cap + int n)]"

lemma cap_calls_Suc: "cap_calls cap (Suc n) = Capbset_read cap # Capbset_drop cap # cap_calls (cap + 1) n"
proof -
  have "[0..<Suc n] = 0 # map Suc [0..<n]" by (simp add: map_Suc_upt upt_conv_Cons)
  then show ?thesis by (simp add: cap_calls_def comp_def algebra_simps del: upt_Suc)
qed

text \<open>
  When the loop ends, it has dropped the capabilities from the first one on, each
  successfully, up to the first one the kernel does not know.
\<close>

definition bounding_done :: "int \<Rightarrow> entry list \<Rightarrow> bool" where
  "bounding_done cap t \<longleftrightarrow> (\<exists>n. calls t = cap_calls cap n \<and>
     (\<forall>i<n. \<exists>a b. Call (Capbset_read (cap + int i)) a \<in> set t \<and> 0 \<le> ret a \<and>
        Call (Capbset_drop (cap + int i)) b \<in> set t \<and> 0 \<le> ret b) \<and>
     (\<exists>a. Call (Capbset_read (cap + int n)) a \<in> set t \<and> ret a < 0 \<and> err a = EINVAL))"

lemma bounding_done_Cons:
  assumes t: "bounding_done (cap + 1) t" and a: "0 \<le> ret a" "0 \<le> ret b"
  shows "bounding_done cap (Call (Capbset_read cap) a # Call (Capbset_drop cap) b # t)"
proof -
  let ?t = "Call (Capbset_read cap) a # Call (Capbset_drop cap) b # t"
  obtain n where n: "calls t = cap_calls (cap + 1) n"
    "\<forall>i<n. \<exists>a b. Call (Capbset_read (cap + 1 + int i)) a \<in> set t \<and> 0 \<le> ret a \<and>
        Call (Capbset_drop (cap + 1 + int i)) b \<in> set t \<and> 0 \<le> ret b"
    "\<exists>a. Call (Capbset_read (cap + 1 + int n)) a \<in> set t \<and> ret a < 0 \<and> err a = EINVAL"
    using t unfolding bounding_done_def by blast
  have "\<exists>a b. Call (Capbset_read (cap + int i)) a \<in> set ?t \<and> 0 \<le> ret a \<and>
        Call (Capbset_drop (cap + int i)) b \<in> set ?t \<and> 0 \<le> ret b" if "i < Suc n" for i
  proof (cases i)
    case 0
    then show ?thesis using a by auto
  next
    case (Suc j)
    then have "j < n" "cap + int i = cap + 1 + int j" using that by auto
    then obtain x y where "Call (Capbset_read (cap + int i)) x \<in> set t" "0 \<le> ret x"
      "Call (Capbset_drop (cap + int i)) y \<in> set t" "0 \<le> ret y"
      using n(2) by fastforce
    then show ?thesis by auto
  qed
  moreover have "\<exists>a. Call (Capbset_read (cap + int (Suc n))) a \<in> set ?t \<and> ret a < 0 \<and> err a = EINVAL"
    using n(3) by (auto simp: algebra_simps)
  moreover have "calls ?t = cap_calls cap (Suc n)" using n(1) by (simp add: cap_calls_Suc)
  ultimately show ?thesis unfolding bounding_done_def by blast
qed

lemma bounding_done_stop:
  "ret a < 0 \<Longrightarrow> err a = EINVAL \<Longrightarrow> bounding_done cap [Call (Capbset_read cap) a]"
  unfolding bounding_done_def by (intro exI [of _ "0 :: nat"]) (simp add: cap_calls_def)

lemma drop_bounding_run:
  "drop_bounding cap as = (t, as', r) \<Longrightarrow>
   (\<forall>c\<in>set (calls t). \<exists>i. c = Capbset_read i \<or> c = Capbset_drop i) \<and>
   (r = Waiting \<or> r = Exited 125 \<or> r = Done () \<and> bounding_done cap t)"
proof (induction cap as arbitrary: t rule: drop_bounding.induct)
  case (2 cap a)
  then show ?case by (auto simp: bounding_done_stop split: if_splits)
next
  case (3 cap a b as)
  show ?case
  proof (cases "ret a < 0 \<or> ret b < 0")
    case True
    then show ?thesis using "3.prems" by (auto simp: bounding_done_stop split: if_splits)
  next
    case False
    then obtain t2 where t2: "drop_bounding (cap + 1) as = (t2, as', r)"
      "t = Call (Capbset_read cap) a # Call (Capbset_drop cap) b # t2"
      using "3.prems" by (auto simp: emit_conv)
    from "3.IH" [OF _ _ t2(1)] False have "(\<forall>c\<in>set (calls t2). \<exists>i. c = Capbset_read i \<or> c = Capbset_drop i) \<and>
      (r = Waiting \<or> r = Exited 125 \<or> r = Done () \<and> bounding_done (cap + 1) t2)" by simp
    then show ?thesis using bounding_done_Cons [of cap t2 a b] False t2(2) by auto
  qed
qed auto

section \<open>The container's setup\<close>

text \<open>
  \<open>ends p P\<close>: every run of \<open>p\<close> waits, exits with 125, or returns a value with calls that
  satisfy \<open>P\<close>. Sequential composition concatenates the calls.
\<close>

definition ends :: "'a prog \<Rightarrow> (entry list \<Rightarrow> 'a \<Rightarrow> bool) \<Rightarrow> bool" where
  "ends p P \<longleftrightarrow> all_runs p (\<lambda>t r. r = Waiting \<or> r = Exited 125 \<or> (\<exists>x. r = Done x \<and> P t x))"

lemma ends_bind:
  assumes "ends p P" and "\<And>t x. P t x \<Longrightarrow> ends (f x) (\<lambda>t'. R (t @ t'))"
  shows "ends (pbind p f) R"
  unfolding ends_def
proof (rule all_runs_bindI, rule all_runs_mono [OF assms(1) [unfolded ends_def]])
  fix t r
  assume "r = Waiting \<or> r = Exited 125 \<or> (\<exists>x. r = Done x \<and> P t x)"
  then show "case r of
      Done x \<Rightarrow> all_runs (f x) (\<lambda>t' r. r = Waiting \<or> r = Exited 125 \<or> (\<exists>x. r = Done x \<and> R (t @ t') x))
    | Exited code \<Rightarrow> Exited code = Waiting \<or> Exited code = Exited 125 \<or> (\<exists>x. Exited code = Done x \<and> R t x)
    | Replaced path argv \<Rightarrow> Replaced path argv = Waiting \<or> Replaced path argv = Exited 125 \<or> (\<exists>x. Replaced path argv = Done x \<and> R t x)
    | Waiting \<Rightarrow> Waiting = Waiting \<or> Waiting = Exited 125 \<or> (\<exists>x. Waiting = Done x \<and> R t x)"
    using assms(2) by (auto simp: ends_def)
qed

lemma ends_mono: "ends p P \<Longrightarrow> (\<And>t x. P t x \<Longrightarrow> R t x) \<Longrightarrow> ends p R"
  unfolding ends_def by (erule all_runs_mono) blast

lemma endsD: "ends p P \<Longrightarrow> p as = (t, as', r) \<Longrightarrow> r = Waiting \<or> r = Exited 125 \<or> (\<exists>x. r = Done x \<and> P t x)"
  by (auto simp: ends_def dest: all_runsD)

definition await_calls :: "container \<Rightarrow> call list" where
  "await_calls c = [Close (ready1 c), Prctl_pdeathsig SIGKILL, Poll (parent_fd c), Close (parent_fd c),
     Read (ready0 c) 1, Close (ready0 c)]"

text \<open>The parent's death kills this process, the parent was still alive then, and it gave the signal.\<close>

definition released :: "container \<Rightarrow> entry list \<Rightarrow> bool" where
  "released c t \<longleftrightarrow> calls t = await_calls c \<and> (\<exists>p q a.
     Call (Prctl_pdeathsig SIGKILL) p \<in> set t \<and> 0 \<le> ret p \<and>
     Call (Poll (parent_fd c)) q \<in> set t \<and> ret q = 0 \<and>
     Call (Read (ready0 c) 1) a \<in> set t \<and> ret a = 1 \<and> data a = ''1'')"

lemma await_parent_ends: "ends (await_parent c) (\<lambda>t _. released c t)"
  by (auto simp: ends_def await_parent_def run_simps RUNTIME_ERROR_def await_calls_def released_def)

definition root_calls :: "container \<Rightarrow> int \<Rightarrow> call list" where
  "root_calls c root =
     [Setsid,
      Mount None ''/'' None [MS_REC, MS_PRIVATE],
      Open (root_path c) [O_RDONLY, O_DIRECTORY, O_NOFOLLOW, O_CLOEXEC],
      Fstat root, Fstat (root_fd c),
      Fchdir root, Mount (Some ''.'') ''.'' None [MS_BIND],
      Chdir (root_path c), Stat ''.'',
      Mount (Some ''proc'') ''proc'' (Some ''proc'') [MS_NOSUID, MS_NODEV, MS_NOEXEC],
      Pivot_root ''.'' ''.'',
      Umount2 ''.'' [MNT_DETACH], Chdir ''/'',
      Close_range 3]"

text \<open>The answers of the calls that must succeed did, and the rootfs is the one the launcher opened.\<close>

definition all_ok :: "entry list \<Rightarrow> bool" where
  "all_ok t \<longleftrightarrow> (\<forall>e\<in>set t. \<exists>c a. e = Call c a \<and> 0 \<le> ret a)"

definition root_verified :: "container \<Rightarrow> int \<Rightarrow> entry list \<Rightarrow> bool" where
  "root_verified c root t \<longleftrightarrow> (\<exists>reopened launched mounted.
     Call (Fstat root) reopened \<in> set t \<and> Call (Fstat (root_fd c)) launched \<in> set t \<and>
     Call (Stat ''.'') mounted \<in> set t \<and> same_file reopened launched \<and> same_file mounted launched)"

lemma switch_root_ends:
  "ends (switch_root c) (\<lambda>t _. all_ok t \<and> (\<exists>root. calls t = root_calls c root \<and> root_verified c root t))"
  by (auto simp: ends_def switch_root_def run_simps root_calls_def root_verified_def all_ok_def)

lemma drop_capabilities_ends:
  "ends drop_capabilities (\<lambda>t _. \<exists>u v. t = u @ v \<and> bounding_done 0 u \<and> all_ok v \<and> calls v = [Capset_empty, No_new_privs])"
  unfolding drop_capabilities_def
proof (rule ends_bind)
  show "ends (drop_bounding 0) (\<lambda>t _. bounding_done 0 t)"
    unfolding ends_def all_runs_def by (auto dest: drop_bounding_run)
  have privs: "ends (must_each ''drop process privileges'' [Capset_empty, No_new_privs])
      (\<lambda>v _. all_ok v \<and> calls v = [Capset_empty, No_new_privs])"
    by (auto simp: ends_def run_simps all_ok_def)
  show "ends (must_each ''drop process privileges'' [Capset_empty, No_new_privs])
      (\<lambda>t' _. \<exists>u v. t @ t' = u @ v \<and> bounding_done 0 u \<and> all_ok v \<and> calls v = [Capset_empty, No_new_privs])"
    if "bounding_done 0 t" for t
    using that by (intro ends_mono [OF privs]) blast
qed

text \<open>What has happened when the setup of the container is complete.\<close>

definition confined :: "container \<Rightarrow> entry list \<Rightarrow> bool" where
  "confined c t \<longleftrightarrow> (\<exists>s u v w root.
     t = s @ u @ v @ w \<and>
     released c s \<and>
     all_ok u \<and> calls u = root_calls c root \<and> root_verified c root u \<and>
     bounding_done 0 v \<and>
     all_ok w \<and> calls w = [Capset_empty, No_new_privs])"

lemma container_setup_ends: "ends (container_setup c) (\<lambda>t _. confined c t)"
  unfolding container_setup_def
proof (rule ends_bind [OF await_parent_ends], rule ends_bind [OF switch_root_ends],
    rule ends_mono [OF drop_capabilities_ends])
  fix s u t x x' x''
  assume "released c s"
    and "all_ok u \<and> (\<exists>root. calls u = root_calls c root \<and> root_verified c root u)"
    and "\<exists>v w. t = v @ w \<and> bounding_done 0 v \<and> all_ok w \<and> calls w = [Capset_empty, No_new_privs]"
  then show "confined c (s @ u @ t)" unfolding confined_def by blast
qed

end
