(* ===== verification/Runtime_Launch.thy ===== *)
theory Runtime_Launch
  imports Runtime_Setup
begin

text \<open>
  The processes of the launcher from start to end: PID 1 of the container
  (\<open>run_container\<close>), the command it starts, and the launcher's \<open>main\<close>.
\<close>

section \<open>PID 1\<close>

definition starts_process :: "call \<Rightarrow> bool" where
  "starts_process c \<longleftrightarrow> c = Fork \<or> (\<exists>path argv. c = Execv path argv) \<or> (\<exists>f. c = Clone f)"

lemma drop_bounding_safe: "safe (drop_bounding 0) (\<lambda>c. \<not> starts_process c)"
proof -
  have "(\<forall>c\<in>set (calls t). \<not> starts_process c) \<and> (r = Waiting \<or> r = Exited 125 \<or> (\<exists>x. r = Done x))"
    if "drop_bounding 0 as = (t, as', r)" for as t as' r
    using drop_bounding_run [OF that] by (auto simp: starts_process_def)
  then show ?thesis unfolding safe_def all_runs_def by (auto split: prod.split)
qed

lemma container_setup_safe: "safe (container_setup c) (\<lambda>c. \<not> starts_process c)"
proof -
  have "safe (await_parent c) (\<lambda>c. \<not> starts_process c)"
    by (simp add: await_parent_def safe_bind starts_process_def)
  moreover have "safe (switch_root c) (\<lambda>c. \<not> starts_process c)"
    by (simp add: switch_root_def safe_bind starts_process_def)
  moreover have "safe drop_capabilities (\<lambda>c. \<not> starts_process c)"
    unfolding drop_capabilities_def using drop_bounding_safe
    by (intro safe_bind safe_must_each) (auto simp: starts_process_def)
  ultimately show ?thesis by (simp add: container_setup_def safe_bind)
qed

subsection \<open>The command child\<close>

definition child_calls :: "container \<Rightarrow> call list" where
  "child_calls c = Setpgid 0 0 # map (\<lambda>s. Sigaction s SIG_DFL) forwarded_signals @
     [Sigaction SIGPIPE SIG_DFL, Sig_unblock wait_signals, Execv (hd (command c)) (command c)]"

fun succeeded :: "entry \<Rightarrow> bool" where
  "succeeded (Call x a) \<longleftrightarrow> 0 \<le> ret a"
| "succeeded _ \<longleftrightarrow> False"

definition child_result :: "container \<Rightarrow> entry list \<Rightarrow> 'a outcome \<Rightarrow> bool" where
  "child_result c t r \<longleftrightarrow>
     calls t = take (length (calls t)) (child_calls c) \<and>
     (case r of
        Done x \<Rightarrow> False
      | Exited code \<Rightarrow> list_all succeeded (take (length t - 2) t) \<and>
          (\<exists>x a op. drop (length t - 2) t = [Call x a, Message op (Some (err a))] \<and> ret a < 0 \<and>
             code = (if x \<noteq> Execv (hd (command c)) (command c) then 125 else if err a = ENOENT then 127 else 126))
      | Replaced path argv \<Rightarrow> calls t = child_calls c \<and> list_all succeeded t \<and> path = hd (command c) \<and> argv = command c
      | Waiting \<Rightarrow> list_all succeeded (butlast t) \<and> (\<exists>x. drop (length t - 1) t = [Pending x]))"

lemma command_child_run: "all_runs (command_child c) (child_result c)"
  by (simp add: command_child_def child_result_def run_simps forwarded_signals_def child_calls_def not_less)

subsection \<open>From the fork to the result\<close>

definition command_phase :: "container \<Rightarrow> entry list \<Rightarrow> int outcome \<Rightarrow> bool" where
  "command_phase c t r \<longleftrightarrow>
     t = [Pending Fork] \<and> r = Waiting \<or>
     (\<exists>a u. t = Call Fork a # u \<and>
        (ret a < 0 \<and> r = Exited 125 \<or>
         ret a = 0 \<and> child_result c u r \<or>
         0 < ret a \<and> (r = Waiting \<or> r = Exited 125 \<or>
           (\<exists>b v. u = Call (Setpgid (ret a) (ret a)) b # v \<and> sv_result (ret a) v r \<and> (\<exists>code. r = Done code)))))"

lemma supervise_run: "0 < child \<Longrightarrow> all_runs (supervise child pg) (sv_result child)"
  unfolding all_runs_def supervise_def by (auto dest: sv_results)

lemma sv_result_cases: "sv_result child t r \<Longrightarrow> r = Waiting \<or> r = Exited 125 \<or> (\<exists>code. r = Done code)"
  by (cases r) (auto simp: sv_result_def)

lemma start_command_run: "all_runs (start_command c) (command_phase c)"
proof -
  have child: "all_runs (command_child c) (\<lambda>u. command_phase c (Call Fork a # u))" if "ret a = 0" for a
    by (rule all_runs_mono [OF command_child_run]) (use that in \<open>auto simp: command_phase_def\<close>)
  have parent: "all_runs (supervise (ret a) True)
      (\<lambda>v. command_phase c (Call Fork a # Call (Setpgid (ret a) (ret a)) b # v))" if "0 < ret a" for a b
    by (rule all_runs_mono [OF supervise_run [OF that]])
      (use that sv_result_cases in \<open>fastforce simp: command_phase_def\<close>)
  show ?thesis
    using child parent by (auto simp: start_command_def Let_def run_simps) (auto simp: command_phase_def)
qed

text \<open>A command is started only in a confined process, and every other end is exit code 125.\<close>

lemma run_container_run:
  "all_runs (run_container c) (\<lambda>t r.
     (\<exists>s u. t = s @ u \<and> confined c s \<and> (\<forall>x\<in>set (calls s). \<not> starts_process x) \<and> command_phase c u r) \<or>
     (\<forall>x\<in>set (calls t). \<not> starts_process x) \<and> (r = Waiting \<or> r = Exited 125))"
  unfolding run_container_def
proof (rule all_runs_bindI, rule all_runs_mono [OF all_runs_conj [OF
        container_setup_ends [unfolded ends_def] container_setup_safe [unfolded safe_def]]])
  let ?Q = "\<lambda>t r. (\<exists>s u. t = s @ u \<and> confined c s \<and> (\<forall>x\<in>set (calls s). \<not> starts_process x) \<and> command_phase c u r) \<or>
     (\<forall>x\<in>set (calls t). \<not> starts_process x) \<and> (r = Waiting \<or> r = Exited 125)"
  fix t and r :: "unit outcome"
  assume *: "(r = Waiting \<or> r = Exited 125 \<or> (\<exists>x. r = Done x \<and> confined c t)) \<and>
    (\<forall>c\<in>set (calls t). \<not> starts_process c) \<and> (r = Waiting \<or> r = Exited 125 \<or> (\<exists>x. r = Done x))"
  have "all_runs (start_command c) (\<lambda>t'. ?Q (t @ t'))" if "confined c t"
    by (rule all_runs_mono [OF start_command_run]) (use * that in blast)
  then show "case r of
      Done x \<Rightarrow> all_runs (start_command c) (\<lambda>t'. ?Q (t @ t'))
    | Exited code \<Rightarrow> ?Q t (Exited code)
    | Replaced path argv \<Rightarrow> ?Q t (Replaced path argv)
    | Waiting \<Rightarrow> ?Q t Waiting"
    using * by auto
qed

section \<open>The user mapping\<close>

text \<open>Neither the path nor the map is cut by its buffer of 64 bytes.\<close>

lemma cstr_snprintf: "length s < n \<Longrightarrow> NUL \<notin> set s \<Longrightarrow> cstr (snprintf n s) = s"
  using cstr_append_NUL [of s] by (simp add: snprintf_def)

lemma map_path_eq:
  assumes "0 < child" and "child < 2 ^ 31" and "length name \<le> 32" and "NUL \<notin> set name"
  shows "map_path child name = ''/proc/'' @ show_dec (nat child) @ ''/'' @ name"
proof -
  have "nat child < 10 ^ 10" using assms(1,2) by simp
  then have "length (show_dec (nat child)) \<le> 10" using length_show_dec [of "nat child" 10] by simp
  then show ?thesis
    unfolding map_path_def using assms by (subst cstr_snprintf) (simp_all add: show_int_def)
qed

lemma id_map_eq:
  assumes "i < 2 ^ 64"
  shows "id_map i = ''0 '' @ show_dec i @ '' 1'' @ [LF]"
proof -
  have "i < 10 ^ 20" using assms by simp
  then have "length (show_dec i) \<le> 20" using length_show_dec [of i 20] by simp
  then show ?thesis unfolding id_map_def by (subst cstr_snprintf) simp_all
qed

lemma id_map_not_ready: "id_map i \<noteq> ''1''"
  by (simp add: id_map_def snprintf_def cstr_def)

text \<open>One map file, opened, written in full and closed.\<close>

definition map_written :: "int \<Rightarrow> string \<Rightarrow> string \<Rightarrow> entry list \<Rightarrow> bool" where
  "map_written child name val t \<longleftrightarrow> (\<exists>a b x.
     t = [Call (Open (map_path child name) [O_WRONLY, O_CLOEXEC]) a, Call (Write (ret a) val) b, Call (Close (ret a)) x] \<and>
     0 \<le> ret a \<and> ret b = int (length val))"

definition mapped :: "int \<Rightarrow> int \<Rightarrow> nat \<Rightarrow> nat \<Rightarrow> entry list \<Rightarrow> bool" where
  "mapped child ready uid gid t \<longleftrightarrow> (\<exists>m1 m2 m3 e. t = m1 @ m2 @ m3 @ [e] \<and>
     map_written child ''setgroups'' ''deny'' m1 \<and>
     map_written child ''uid_map'' (id_map uid) m2 \<and>
     map_written child ''gid_map'' (id_map gid) m3 \<and> call_of e = [Write ready ''1''])"

text \<open>
  The byte that releases the container is written only after all three maps, and the
  mapping succeeds only when that byte was written.
\<close>

definition map_result :: "int \<Rightarrow> int \<Rightarrow> nat \<Rightarrow> nat \<Rightarrow> entry list \<Rightarrow> (errno + unit) outcome \<Rightarrow> bool" where
  "map_result child ready uid gid t r \<longleftrightarrow>
     (r = Waiting \<or> (\<exists>x. r = Done x)) \<and>
     (Write ready ''1'' \<in> set (calls t) \<longrightarrow> mapped child ready uid gid t) \<and>
     (r = Done (Inr ()) \<longrightarrow> mapped child ready uid gid t \<and> (\<exists>a. last t = Call (Write ready ''1'') a \<and> ret a = 1))"

lemma map_written_cons:
  "0 \<le> ret a \<Longrightarrow> ret b = int (length val) \<Longrightarrow>
   map_written child name val [Call (Open (map_path child name) [O_WRONLY, O_CLOEXEC]) a, Call (Write (ret a) val) b, Call (Close (ret a)) x]"
  by (auto simp: map_written_def)

lemma write_map_run:
  "all_runs (write_map child name val) (\<lambda>t r.
     (r = Waiting \<or> (\<exists>e. r = Done (Inl e)) \<or> r = Done (Inr ()) \<and> map_written child name val t) \<and>
     (\<forall>fd s. Write fd s \<in> set (calls t) \<longrightarrow> s = val))"
  by (auto simp: write_map_def run_simps map_written_cons)

lemma map_then:
  assumes ok: "\<And>m. map_written child name val m \<Longrightarrow> (\<forall>fd s. Write fd s \<in> set (calls m) \<longrightarrow> s = val) \<Longrightarrow>
      all_runs k (\<lambda>t. Q (m @ t))"
    and bad: "\<And>t r. (\<forall>fd s. Write fd s \<in> set (calls t) \<longrightarrow> s = val) \<Longrightarrow> r = Waiting \<or> (\<exists>e. r = Done (Inl e)) \<Longrightarrow> Q t r"
  shows "all_runs (pbind (write_map child name val) (\<lambda>r. case r of Inl e \<Rightarrow> preturn (Inl e) | Inr _ \<Rightarrow> k)) Q"
proof (rule all_runs_bindI, rule all_runs_mono [OF write_map_run])
  fix t and r :: "(errno + unit) outcome"
  assume *: "(r = Waiting \<or> (\<exists>e. r = Done (Inl e)) \<or> r = Done (Inr ()) \<and> map_written child name val t) \<and>
    (\<forall>fd s. Write fd s \<in> set (calls t) \<longrightarrow> s = val)"
  then show "case r of
      Done x \<Rightarrow> all_runs (case x of Inl e \<Rightarrow> preturn (Inl e) | Inr _ \<Rightarrow> k) (\<lambda>t'. Q (t @ t'))
    | Exited code \<Rightarrow> Q t (Exited code)
    | Replaced path argv \<Rightarrow> Q t (Replaced path argv)
    | Waiting \<Rightarrow> Q t Waiting"
    using ok [of t] bad [of t] by (auto simp: run_simps)
qed

lemma no_ready: "\<forall>fd s. Write fd s \<in> set (calls t) \<longrightarrow> s = val \<Longrightarrow> val \<noteq> ''1'' \<Longrightarrow> Write fd ''1'' \<notin> set (calls t)"
  by blast

lemma map_user_run: "all_runs (map_user child ready uid gid) (map_result child ready uid gid)"
  unfolding map_user_def
proof (rule map_then, goal_cases)
  case 1: (1 m1)
  show ?case
  proof (rule map_then, goal_cases)
    case 2: (1 m2)
    show ?case
    proof (rule map_then, goal_cases)
      case 3: (1 m3)
      have m: "mapped child ready uid gid (m1 @ m2 @ m3 @ [e])" if "call_of e = [Write ready ''1'']" for e
        unfolding mapped_def using 1(1) 2(1) 3(1) that by blast
      show ?case using m by (simp add: run_simps map_result_def)
    next
      case (2 t r)
      then show ?case
        using no_ready [OF 1(2)] no_ready [OF \<open>\<forall>fd s. Write fd s \<in> set (calls m2) \<longrightarrow> s = id_map uid\<close> id_map_not_ready]
          no_ready [OF 2(1) id_map_not_ready]
        by (auto simp: map_result_def)
    qed
  next
    case (2 t r)
    then show ?case using no_ready [OF 1(2)] no_ready [OF 2(1) id_map_not_ready] by (auto simp: map_result_def)
  qed
next
  case (2 t r)
  then show ?case by (auto simp: map_result_def)
qed

section \<open>The launcher after the clone\<close>

lemma wait_gone_run:
  "all_runs (wait_gone child) (\<lambda>t r. (r = Waiting \<or> r = Done ()) \<and> calls t \<noteq> [] \<and> set (calls t) = {Waitpid child []})"
proof -
  have "(r = Waiting \<or> r = Done ()) \<and> calls t \<noteq> [] \<and> set (calls t) = {Waitpid child []}"
    if "wait_gone child as = (t, as', r)" for as t as' r
    using that by (induction child as arbitrary: t rule: wait_gone.induct) (auto simp: emit_conv split: if_splits)
  then show ?thesis unfolding all_runs_def by (auto split: prod.split)
qed

text \<open>The supervisor's calls.\<close>

definition sv_call_ok :: "int \<Rightarrow> call \<Rightarrow> bool" where
  "sv_call_ok target c \<longleftrightarrow> c = Waitpid (- 1) [WNOHANG] \<or> c = Sigwaitinfo wait_signals \<or> (\<exists>s. c = Kill target s)"

lemma sv_call_ok_simps [simp]:
  "sv_call_ok target (Waitpid (- 1) [WNOHANG])" "sv_call_ok target (Sigwaitinfo wait_signals)"
  "sv_call_ok target (Kill target sig)" "\<not> sv_call_ok target (Write fd text)"
  by (simp_all add: sv_call_ok_def)

lemma sv_calls_sv:
  "sv_reap child pg as = (t, as', r) \<Longrightarrow> \<forall>c\<in>set (calls t). sv_call_ok (if pg then - child else child) c"
  "sv_wait child pg as = (t, as', r) \<Longrightarrow> \<forall>c\<in>set (calls t). sv_call_ok (if pg then - child else child) c"
  "sv_kill child pg sig as = (t, as', r) \<Longrightarrow> \<forall>c\<in>set (calls t). sv_call_ok (if pg then - child else child) c"
  by (induction child pg as and child pg as and child pg sig as arbitrary: t and t and t
      rule: sv_reap_sv_wait_sv_kill.induct) (auto simp: emit_conv split: if_splits)

lemma supervise_calls:
  "all_runs (supervise child pg) (\<lambda>t r. \<forall>c\<in>set (calls t). sv_call_ok (if pg then - child else child) c)"
  unfolding supervise_def by (rule all_runsI) (rule sv_calls_sv(1))

text \<open>
  How the launcher can end after the clone: with the child's exit status as the supervisor
  saw it, once the mapping is complete; or, when the mapping fails, with 125 after killing
  and reaping the child. The byte that releases the child comes after the maps.
\<close>

definition launch_result :: "container \<Rightarrow> int \<Rightarrow> entry list \<Rightarrow> int outcome \<Rightarrow> bool" where
  "launch_result c child t r \<longleftrightarrow>
     (Write (ready1 c) ''1'' \<in> set (calls t) \<longrightarrow>
        (\<exists>s m u x y. t = s @ m @ u \<and> Call Getuid x \<in> set s \<and> Call Getgid y \<in> set s \<and>
           mapped child (ready1 c) (nat (ret x)) (nat (ret y)) m \<and> Write (ready1 c) ''1'' \<notin> set (calls s))) \<and>
     (case r of
        Done code \<Rightarrow>
          (\<exists>s u a. t = s @ u \<and> Call (Write (ready1 c) ''1'') a \<in> set s \<and> ret a = 1 \<and> sv_result child u (Done code)) \<or>
          code = 125 \<and> Kill child SIGKILL \<in> set (calls t) \<and> Waitpid child [] \<in> set (calls t)
      | Exited code \<Rightarrow> code = 125
      | Replaced path argv \<Rightarrow> False
      | Waiting \<Rightarrow> True)"

text \<open>The two branches after the mapping.\<close>

definition abandon :: "container \<Rightarrow> int \<Rightarrow> errno \<Rightarrow> int prog" where
  "abandon c child e =
     pbind (perror ''map container user'' e) (\<lambda>_.
     pbind (sys (Kill child SIGKILL)) (\<lambda>_.
     pbind (wait_gone child) (\<lambda>_.
     pbind (sys (Close (ready1 c))) (\<lambda>_.
     preturn RUNTIME_ERROR))))"

lemma abandon_run:
  "all_runs (abandon c child e) (\<lambda>t r. (\<forall>fd s. Write fd s \<notin> set (calls t)) \<and>
     (r = Waiting \<or> r = Done 125 \<and> Kill child SIGKILL \<in> set (calls t) \<and> Waitpid child [] \<in> set (calls t)))"
  (is "all_runs _ ?Q")
proof -
  define T where "T a = [Message ''map container user'' (Some e), Call (Kill child SIGKILL) a]" for a
  have "all_runs (pbind (wait_gone child) (\<lambda>_. pbind (sys (Close (ready1 c))) (\<lambda>_. preturn RUNTIME_ERROR)))
    (\<lambda>t. ?Q (T a @ t))" for a
  proof (rule all_runs_bindI, rule all_runs_mono [OF wait_gone_run])
    fix t and r :: "unit outcome"
    assume *: "(r = Waiting \<or> r = Done ()) \<and> calls t \<noteq> [] \<and> set (calls t) = {Waitpid child []}"
    show "case r of
        Done x \<Rightarrow> all_runs (pbind (sys (Close (ready1 c))) (\<lambda>_. preturn RUNTIME_ERROR)) (\<lambda>t'. ?Q (T a @ t @ t'))
      | Exited code \<Rightarrow> ?Q (T a @ t) (Exited code)
      | Replaced path argv \<Rightarrow> ?Q (T a @ t) (Replaced path argv)
      | Waiting \<Rightarrow> ?Q (T a @ t) Waiting"
      using * by (elim conjE disjE) (simp_all add: T_def run_simps RUNTIME_ERROR_def)
  qed
  then show ?thesis by (simp add: abandon_def run_simps T_def)
qed

lemma launch_supervised:
  assumes "0 < child"
  shows "all_runs (pbind (sys (Close fd)) (\<lambda>_. supervise child False)) (\<lambda>t r.
    (\<forall>fd s. Write fd s \<notin> set (calls t)) \<and>
    (r = Waiting \<or> r = Exited 125 \<or> (\<exists>code e u. r = Done code \<and> t = e # u \<and> sv_result child u r)))"
proof -
  have "all_runs (supervise child False) (\<lambda>t r. (\<forall>fd s. Write fd s \<notin> set (calls (Call (Close fd) a # t))) \<and>
    (r = Waiting \<or> r = Exited 125 \<or> (\<exists>code e u. r = Done code \<and> Call (Close fd) a # t = e # u \<and> sv_result child u r)))" for a
    by (rule all_runs_mono [OF all_runs_conj [OF supervise_run [OF assms] supervise_calls]])
      (use sv_result_cases in \<open>fastforce\<close>)
  then show ?thesis by (simp add: run_simps)
qed

text \<open>The mapping is complete and the byte that releases the child has been taken.\<close>

lemma launch_ok:
  assumes child: "0 < child" and m: "mapped child (ready1 c) (nat (ret x)) (nat (ret y)) m"
      "Call (Write (ready1 c) ''1'') a \<in> set m" "ret a = 1"
    and s: "Write (ready1 c) ''1'' \<notin> set (calls s)" "Call Getuid x \<in> set s" "Call Getgid y \<in> set s"
  shows "all_runs (pbind (sys (Close (ready1 c))) (\<lambda>_. supervise child False)) (\<lambda>t. launch_result c child (s @ m @ t))"
proof (rule all_runs_mono [OF launch_supervised [OF child]])
  fix t and r :: "int outcome"
  assume *: "(\<forall>fd x. Write fd x \<notin> set (calls t)) \<and>
    (r = Waiting \<or> r = Exited 125 \<or> (\<exists>code e u. r = Done code \<and> t = e # u \<and> sv_result child u r))"
  have "\<exists>v u a. s @ m @ t = v @ u \<and> Call (Write (ready1 c) ''1'') a \<in> set v \<and> ret a = 1 \<and> sv_result child u (Done code)"
    if "r = Done code" for code
  proof -
    note r = that
    obtain e u where "t = e # u" "sv_result child u r" using * r by auto
    then show ?thesis using m r by (intro exI [of _ "s @ m @ [e]"] exI [of _ u] exI [of _ a]) auto
  qed
  moreover have "\<exists>s' m' u x y. s @ m @ t = s' @ m' @ u \<and> Call Getuid x \<in> set s' \<and> Call Getgid y \<in> set s' \<and>
      mapped child (ready1 c) (nat (ret x)) (nat (ret y)) m' \<and> Write (ready1 c) ''1'' \<notin> set (calls s')"
    using m(1) s by blast
  ultimately show "launch_result c child (s @ m @ t) r"
    using * by (cases r) (auto simp: launch_result_def)
qed

lemma launch_mapped:
  assumes child: "0 < child" and s: "\<forall>fd x. Write fd x \<notin> set (calls s)"
    and ids: "Call Getuid x \<in> set s" "Call Getgid y \<in> set s"
  shows "all_runs (pbind (map_user child (ready1 c) (nat (ret x)) (nat (ret y))) (\<lambda>r. case r of
      Inl e \<Rightarrow> abandon c child e
    | Inr _ \<Rightarrow> pbind (sys (Close (ready1 c))) (\<lambda>_. supervise child False)))
    (\<lambda>t. launch_result c child (s @ t))"
proof (rule all_runs_bindI, rule all_runs_mono [OF map_user_run])
  fix m and r :: "(errno + unit) outcome"
  assume m: "map_result child (ready1 c) (nat (ret x)) (nat (ret y)) m r"
  let ?ready = "Write (ready1 c) ''1''"
  have order: "\<exists>s' m' u x y. s @ m @ t = s' @ m' @ u \<and> Call Getuid x \<in> set s' \<and> Call Getgid y \<in> set s' \<and>
      mapped child (ready1 c) (nat (ret x)) (nat (ret y)) m' \<and> ?ready \<notin> set (calls s')"
    if "?ready \<in> set (calls m)" for t
    using m that s ids by (intro exI [of _ s] exI [of _ m] exI [of _ t] exI [of _ x] exI [of _ y]) (auto simp: map_result_def)
  have bad: "all_runs (abandon c child e) (\<lambda>t'. launch_result c child (s @ m @ t'))" for e
    by (rule all_runs_mono [OF abandon_run]) (use order s in \<open>auto simp: launch_result_def\<close>)
  have ok: "all_runs (pbind (sys (Close (ready1 c))) (\<lambda>_. supervise child False)) (\<lambda>t'. launch_result c child (s @ m @ t'))"
    if r: "r = Done (Inr ())"
  proof -
    obtain a where "last m = Call ?ready a" "ret a = 1" "mapped child (ready1 c) (nat (ret x)) (nat (ret y)) m"
      using m r by (auto simp: map_result_def)
    moreover then have "m \<noteq> []" by (auto simp: mapped_def)
    ultimately show ?thesis using launch_ok [OF child, of c x y m a s] s ids last_in_set [of m] by simp
  qed
  show "case r of
      Done x \<Rightarrow> all_runs (case x of Inl e \<Rightarrow> abandon c child e
        | Inr _ \<Rightarrow> pbind (sys (Close (ready1 c))) (\<lambda>_. supervise child False)) (\<lambda>t'. launch_result c child (s @ m @ t'))
    | Exited code \<Rightarrow> launch_result c child (s @ m) (Exited code)
    | Replaced path argv \<Rightarrow> launch_result c child (s @ m) (Replaced path argv)
    | Waiting \<Rightarrow> launch_result c child (s @ m) Waiting"
    using m bad ok order [of "[]"] s
    by (cases r) (auto simp: map_result_def launch_result_def split: sum.split)
qed

lemma launch_run:
  assumes child: "0 < child"
  shows "all_runs (launch c child) (launch_result c child)"
proof -
  have ready: "launch_result c child t Waiting" if "\<forall>fd x. Write fd x \<notin> set (calls t)" for t
    using that by (simp add: launch_result_def)
  have "all_runs (pbind (map_user child (ready1 c) (nat (ret a4)) (nat (ret a5))) (\<lambda>r. case r of
      Inl e \<Rightarrow> abandon c child e
    | Inr _ \<Rightarrow> pbind (sys (Close (ready1 c))) (\<lambda>_. supervise child False)))
    (\<lambda>t. launch_result c child (Call (Close (ready0 c)) a1 # Call (Close (parent_fd c)) a2 # Call (Close (root_fd c)) a3 #
       Call Getuid a4 # Call Getgid a5 # t))" for a1 a2 a3 a4 a5
    using launch_mapped [OF child, where s = "[Call (Close (ready0 c)) a1, Call (Close (parent_fd c)) a2, Call (Close (root_fd c)) a3,
       Call Getuid a4, Call Getgid a5]" and x = a4 and y = a5] by simp
  then show ?thesis
    unfolding launch_def abandon_def [symmetric] by (simp add: run_simps ready)
qed

section \<open>The launcher before the clone\<close>

definition check_calls :: "string \<Rightarrow> string \<Rightarrow> int \<Rightarrow> int \<Rightarrow> call list" where
  "check_calls dir path fd proc =
     [Getuid, Getuid, Geteuid, Getgid, Getegid, Fcntl_getfd 0, Fcntl_getfd 1, Fcntl_getfd 2,
      Realpath dir, Open path [O_RDONLY, O_DIRECTORY, O_CLOEXEC], Fstat fd, Stat ''/'',
      Openat fd ''proc'' [O_PATH, O_DIRECTORY, O_NOFOLLOW, O_CLOEXEC], Close proc]"

definition startup_calls :: "int \<Rightarrow> call list" where
  "startup_calls pid =
     Sig_block wait_signals # map (\<lambda>s. Sigaction s Handler) forwarded_signals @
     [Sigaction SIGCHLD SIG_DFL, Sigaction SIGPIPE SIG_IGN,
      Getpid, Pidfd_open pid, Pipe2 [O_CLOEXEC], Malloc STACK_SIZE]"

definition started_up :: "int \<Rightarrow> entry list \<Rightarrow> bool" where
  "started_up pid t \<longleftrightarrow> calls t = startup_calls pid \<and>
     (\<forall>x r. Call x r \<in> set t \<and> x \<noteq> Getpid \<and> x \<noteq> Malloc STACK_SIZE \<longrightarrow> 0 \<le> ret r)"

text \<open>The three checks that can refuse a user or a root.\<close>

definition unprivileged :: "entry list \<Rightarrow> bool" where
  "unprivileged t \<longleftrightarrow> (\<exists>u v e g h. t = [Call Getuid u, Call Getuid v, Call Geteuid e, Call Getgid g, Call Getegid h] \<and>
     ret u \<noteq> 0 \<and> ret v = ret e \<and> ret g = ret h)"

lemma privileged_ends: "ends privileged (\<lambda>t bad. \<not> bad \<longrightarrow> unprivileged t)"
  by (auto simp: ends_def privileged_def run_simps unprivileged_def)

definition root_checked :: "string \<Rightarrow> string \<times> int \<Rightarrow> entry list \<Rightarrow> bool" where
  "root_checked dir pf t \<longleftrightarrow> (\<exists>a b proc.
     calls t = [Realpath dir, Open (fst pf) [O_RDONLY, O_DIRECTORY, O_CLOEXEC], Fstat (snd pf), Stat ''/'',
       Openat (snd pf) ''proc'' [O_PATH, O_DIRECTORY, O_NOFOLLOW, O_CLOEXEC], Close proc] \<and>
     Call (Fstat (snd pf)) a \<in> set t \<and> Call (Stat ''/'') b \<in> set t \<and> \<not> same_file a b \<and>
     (\<forall>x r. Call x r \<in> set t \<and> x \<noteq> Realpath dir \<and> x \<noteq> Close proc \<longrightarrow> 0 \<le> ret r) \<and>
     (\<forall>r. Call (Realpath dir) r \<in> set t \<longrightarrow> ret r \<noteq> 0))"

lemma open_rootfs_ends: "ends (open_rootfs dir) (\<lambda>t r. \<forall>pf. r = Inr pf \<longrightarrow> root_checked dir pf t)"
  by (auto simp: ends_def open_rootfs_def run_simps root_checked_def)

lemma create_startup_ends:
  "ends (create_startup path fd cmd) (\<lambda>t c. root_fd c = fd \<and> root_path c = path \<and> command c = cmd \<and>
     (\<exists>pid. started_up pid t))"
  by (auto simp: ends_def create_startup_def setup_signals_def run_simps started_up_def startup_calls_def forwarded_signals_def)

text \<open>What the launcher has checked and set up when it creates the container.\<close>

definition prepared :: "string list \<Rightarrow> container \<Rightarrow> entry list \<Rightarrow> bool" where
  "prepared argv c t \<longleftrightarrow>
     3 \<le> length argv \<and> (\<exists>rest. argv ! 2 = CHR ''/'' # rest) \<and> command c = drop 2 argv \<and>
     (\<exists>s f u v pid. t = s @ f @ u @ v \<and> unprivileged s \<and>
        calls f = map Fcntl_getfd [0, 1, 2] \<and> all_ok f \<and>
        root_checked (argv ! 1) (root_path c, root_fd c) u \<and>
        started_up pid v)"

definition prepare_result :: "string list \<Rightarrow> entry list \<Rightarrow> int + container \<Rightarrow> bool" where
  "prepare_result argv t r \<longleftrightarrow>
     (case r of
        Inl code \<Rightarrow> code = 125 \<or> code = 0 \<and> argv ! 1 = ''--help''
      | Inr c \<Rightarrow> prepared argv c t)"

lemma prepare_refused:
  "ends (preturn (Inl RUNTIME_ERROR)) (\<lambda>t'. prepare_result argv (t @ t'))"
  "ends (pbind (eprint line) (\<lambda>_. preturn (Inl RUNTIME_ERROR))) (\<lambda>t'. prepare_result argv (t @ t'))"
  by (simp_all add: ends_def run_simps RUNTIME_ERROR_def prepare_result_def)

definition usage_ok :: "string list \<Rightarrow> bool" where
  "usage_ok argv \<longleftrightarrow> 3 \<le> length argv \<and> (\<exists>rest. argv ! 2 = CHR ''/'' # rest)"

lemma prepare_startup:
  assumes "usage_ok argv" and "unprivileged s" and "calls f = map Fcntl_getfd [0, 1, 2] \<and> all_ok f"
    and "root_checked (argv ! 1) (path, fd) u"
  shows "ends (pbind (create_startup path fd (drop 2 argv)) (\<lambda>c. preturn (Inr c))) (\<lambda>t'. prepare_result argv (s @ f @ u @ t'))"
proof (rule ends_bind [OF create_startup_ends])
  fix v and c :: container
  assume "root_fd c = fd \<and> root_path c = path \<and> command c = drop 2 argv \<and> (\<exists>pid. started_up pid v)"
  then have "prepared argv c (s @ f @ u @ v)" unfolding prepared_def using assms [unfolded usage_ok_def] by blast
  then show "ends (preturn (Inr c)) (\<lambda>t'. prepare_result argv (s @ f @ u @ v @ t'))"
    by (simp add: ends_def run_simps prepare_result_def)
qed

lemma prepare_root:
  assumes "usage_ok argv" and "unprivileged s" and "calls f = map Fcntl_getfd [0, 1, 2] \<and> all_ok f"
  shows "ends (pbind (open_rootfs (argv ! 1)) (\<lambda>r. case r of
        Inl _ \<Rightarrow> preturn (Inl RUNTIME_ERROR)
      | Inr (path, fd) \<Rightarrow> pbind (create_startup path fd (drop 2 argv)) (\<lambda>c. preturn (Inr c))))
    (\<lambda>t'. prepare_result argv (s @ f @ t'))"
proof (rule ends_bind [OF open_rootfs_ends])
  fix u and r :: "unit + string \<times> int"
  assume "\<forall>pf. r = Inr pf \<longrightarrow> root_checked (argv ! 1) pf u"
  then show "ends (case r of
        Inl _ \<Rightarrow> preturn (Inl RUNTIME_ERROR)
      | Inr (path, fd) \<Rightarrow> pbind (create_startup path fd (drop 2 argv)) (\<lambda>c. preturn (Inr c)))
    (\<lambda>t'. prepare_result argv (s @ f @ u @ t'))"
    using prepare_startup [OF assms] prepare_refused(1) [of argv "s @ f @ u"] by (auto split: sum.split)
qed

lemma prepare_checked:
  assumes "usage_ok argv"
  shows "ends (prepare argv) (prepare_result argv)"
proof -
  have fds: "ends (must_each ''standard descriptor must be open'' (map Fcntl_getfd [0, 1, 2]))
      (\<lambda>f _. calls f = map Fcntl_getfd [0, 1, 2] \<and> all_ok f)"
    by (auto simp: ends_def run_simps all_ok_def)
  have no: "\<not> (length argv = 2 \<and> argv ! 1 = ''--help'')"
    "\<not> (length argv < 3 \<or> argv ! 2 = [] \<or> hd (argv ! 2) \<noteq> CHR ''/'')"
    using assms by (auto simp: usage_ok_def)
  show ?thesis
    unfolding prepare_def if_not_P [OF no(1)] if_not_P [OF no(2)]
  proof (rule ends_bind [OF privileged_ends], split if_split, intro conjI impI)
    fix s bad
    assume "\<not> bad \<longrightarrow> unprivileged s" "\<not> bad"
    then show "ends (pbind (must_each ''standard descriptor must be open'' (map Fcntl_getfd [0, 1, 2])) (\<lambda>_.
        pbind (open_rootfs (argv ! 1)) (\<lambda>r. case r of
          Inl _ \<Rightarrow> preturn (Inl RUNTIME_ERROR)
        | Inr (path, fd) \<Rightarrow> pbind (create_startup path fd (drop 2 argv)) (\<lambda>c. preturn (Inr c)))))
      (\<lambda>t'. prepare_result argv (s @ t'))"
      by (intro ends_bind [OF fds] prepare_root [OF assms]) simp
  qed (rule prepare_refused)
qed

lemma prepare_ends: "ends (prepare argv) (prepare_result argv)"
proof (cases "usage_ok argv")
  case False
  then have "length argv < 3 \<or> argv ! 2 = [] \<or> hd (argv ! 2) \<noteq> CHR ''/''"
    by (cases "argv ! 2") (auto simp: usage_ok_def)
  then show ?thesis
    by (auto simp: prepare_def ends_def run_simps RUNTIME_ERROR_def prepare_result_def)
qed (rule prepare_checked)

text \<open>No process is created before the launcher is prepared.\<close>

lemma prepare_safe: "safe (prepare argv) (\<lambda>c. \<not> starts_process c)"
proof -
  have "safe privileged (\<lambda>c. \<not> starts_process c)"
    by (simp add: privileged_def safe_bind starts_process_def)
  moreover have "safe (open_rootfs dir) (\<lambda>c. \<not> starts_process c)" for dir
    by (simp add: open_rootfs_def safe_bind starts_process_def)
  moreover have "safe (create_startup path fd cmd) (\<lambda>c. \<not> starts_process c)" for path fd cmd
    by (simp add: create_startup_def setup_signals_def safe_bind starts_process_def)
  ultimately show ?thesis
    unfolding prepare_def by (auto intro!: safe_bind safe_must_each simp: starts_process_def split: sum.split prod.split)
qed

text \<open>The whole launcher.\<close>

definition main_result :: "string list \<Rightarrow> entry list \<Rightarrow> int outcome \<Rightarrow> bool" where
  "main_result argv t r \<longleftrightarrow>
     (\<forall>c\<in>set (calls t). \<not> starts_process c) \<and>
       (r = Waiting \<or> r = Exited 125 \<or> r = Done 125 \<or> r = Done 0 \<and> argv ! 1 = ''--help'') \<or>
     (\<exists>s e u c. t = s @ e # u \<and> prepared argv c s \<and> (\<forall>c\<in>set (calls s). \<not> starts_process c) \<and>
        call_of e = [Clone [CLONE_NEWUSER, CLONE_NEWNS, CLONE_NEWPID, CLONE_SIGCHLD]] \<and>
        (\<forall>a. e = Call (Clone [CLONE_NEWUSER, CLONE_NEWNS, CLONE_NEWPID, CLONE_SIGCHLD]) a \<longrightarrow>
           (ret a < 0 \<longrightarrow> r = Exited 125) \<and> (0 < ret a \<longrightarrow> launch_result c (ret a) u r)))"

lemma main_refused:
  "\<forall>c\<in>set (calls t). \<not> starts_process c \<Longrightarrow>
   r = Waiting \<or> r = Exited 125 \<or> r = Done 125 \<or> r = Done 0 \<and> argv ! 1 = ''--help'' \<Longrightarrow> main_result argv t r"
  unfolding main_result_def by blast

lemma runtime_main_run: "all_runs (runtime_main argv) (main_result argv)"
  unfolding runtime_main_def
proof (rule all_runs_bindI, rule all_runs_mono [OF all_runs_conj [OF prepare_ends [unfolded ends_def] prepare_safe [unfolded safe_def]]])
  fix t and r :: "(int + container) outcome"
  let ?clone = "Clone [CLONE_NEWUSER, CLONE_NEWNS, CLONE_NEWPID, CLONE_SIGCHLD]"
  let ?k = "\<lambda>c. pbind (must ''create user, mount, and PID namespaces'' ?clone) (\<lambda>child. launch c (ret child))"
  assume *: "(r = Waiting \<or> r = Exited 125 \<or> (\<exists>x. r = Done x \<and> prepare_result argv t x)) \<and>
    (\<forall>c\<in>set (calls t). \<not> starts_process c) \<and> (r = Waiting \<or> r = Exited 125 \<or> (\<exists>x. r = Done x))"
  have go: "all_runs (?k c) (\<lambda>t'. main_result argv (t @ t'))" if c: "prepared argv c t" for c
  proof -
    have split: "main_result argv (t @ e # u) r"
      if "call_of e = [?clone]" "\<And>a. e = Call ?clone a \<Longrightarrow> (ret a < 0 \<longrightarrow> r = Exited 125) \<and> (0 < ret a \<longrightarrow> launch_result c (ret a) u r)"
      for e u r
      unfolding main_result_def using c * that by blast
    have "all_runs (launch c (ret a)) (\<lambda>u. main_result argv (t @ Call ?clone a # u))" if "0 \<le> ret a" for a
    proof (cases "ret a = 0")
      case True
      then show ?thesis by (auto intro!: all_runsI split)
    next
      case False
      then have pos: "0 < ret a" using that by simp
      show ?thesis by (rule all_runs_mono [OF launch_run [OF pos, of c]]) (rule split, use pos in auto)
    qed
    then show ?thesis by (auto simp: run_simps intro!: split)
  qed
  have x: "all_runs (case x of Inl code \<Rightarrow> preturn code | Inr c \<Rightarrow> ?k c) (\<lambda>t'. main_result argv (t @ t'))"
    if r: "r = Done x" for x
  proof (cases x)
    case (Inl code)
    then have "main_result argv t (Done code)" using * r by (intro main_refused) (auto simp: prepare_result_def)
    then show ?thesis by (simp add: Inl run_simps)
  next
    case (Inr c)
    then have "prepared argv c t" using * r by (auto simp: prepare_result_def)
    from go [OF this] show ?thesis by (simp add: Inr)
  qed
  show "case r of
      Done x \<Rightarrow> all_runs (case x of Inl code \<Rightarrow> preturn code | Inr c \<Rightarrow> ?k c) (\<lambda>t'. main_result argv (t @ t'))
    | Exited code \<Rightarrow> main_result argv t (Exited code)
    | Replaced path av \<Rightarrow> main_result argv t (Replaced path av)
    | Waiting \<Rightarrow> main_result argv t Waiting"
    using * x by (cases r) (auto intro: main_refused)
qed

end
