(* ===== verification/Runtime_Process.thy ===== *)
theory Runtime_Process
  imports Runtime_Launch
begin

text \<open>
  Programs as processes. The programs of \<open>Runtime\<close> are functions of the answers they get; here each is shown
  to be \<open>prompt\<close>: it uses its answers one by one, so a process is the list of its answers so far, its next
  call is the one it waits in, and one more answer extends what it has done by that call.
\<close>

section \<open>Programs as processes\<close>

fun answered_of :: "entry \<Rightarrow> (call \<times> answer) list" where
  "answered_of (Call c a) = [(c, a)]"
| "answered_of _ = []"

definition answered :: "entry list \<Rightarrow> (call \<times> answer) list" where
  "answered t = concat (map answered_of t)"

lemma answered_simps [simp]: "answered [] = []" "answered (e # t) = answered_of e @ answered t"
  "answered (s @ t) = answered s @ answered t"
  by (simp_all add: answered_def)

lemma in_answered: "(c, a) \<in> set (answered t) \<longleftrightarrow> Call c a \<in> set t"
proof (induction t)
  case (Cons e t)
  then show ?case by (cases e) auto
qed simp

text \<open>
  A program is prompt when it uses its answers in order and nothing else: a further answer is the result
  of the call it waits in, and once it has ended, further answers are left over.
\<close>

definition prompt_at :: "'a prog \<Rightarrow> answer list \<Rightarrow> bool" where
  "prompt_at p as \<longleftrightarrow> (case p as of (t, as', r) \<Rightarrow> as = map snd (answered t) @ as' \<and>
     (if r = Waiting then as' = [] \<and> (\<exists>t' c. t = t' @ [Pending c] \<and> (\<forall>bs. bs \<noteq> [] \<longrightarrow>
        (\<exists>u x. p (as @ bs) = (t' @ Call c (hd bs) # u, x))))
      else (\<forall>bs. p (as @ bs) = (t, as' @ bs, r))))"

definition prompt :: "'a prog \<Rightarrow> bool" where
  "prompt p \<longleftrightarrow> (\<forall>as. prompt_at p as)"

lemma prompt_atD:
  assumes "prompt_at p as" and "p as = (t, as', r)"
  shows "as = map snd (answered t) @ as'"
    and "r = Waiting \<Longrightarrow> as' = [] \<and> (\<exists>t' c. t = t' @ [Pending c] \<and>
      (\<forall>bs. bs \<noteq> [] \<longrightarrow> (\<exists>u x. p (as @ bs) = (t' @ Call c (hd bs) # u, x))))"
    and "r \<noteq> Waiting \<Longrightarrow> p (as @ bs) = (t, as' @ bs, r)"
  using assms(1) unfolding prompt_at_def assms(2) prod.case by (blast, metis, metis)

named_theorems prompt_intros

lemma prompt_ends [prompt_intros]:
  "prompt (preturn x)" "prompt (exit_now code)" "prompt (replace path argv)" "prompt (perror op e)"
  "prompt (eprint line)" "prompt (pprint line)"
  by (simp_all add: prompt_def prompt_at_def exit_now_def replace_def perror_def eprint_def pprint_def)

lemma prompt_sys [prompt_intros]: "prompt (sys c)"
  unfolding prompt_def
proof
  fix as
  have "\<exists>u x. sys c bs = (Call c (hd bs) # u, x)" if "bs \<noteq> []" for bs using that by (cases bs) auto
  then show "prompt_at (sys c) as" by (cases as) (auto simp: prompt_at_def)
qed

lemma pbind_prefix: "p as = (t, x) \<Longrightarrow> \<exists>u y. pbind p f as = (t @ u, y)"
  by (cases x, cases "snd x") (auto simp: pbind_def split: prod.split)

lemma prompt_at_bind:
  assumes p: "prompt_at p as" and f: "\<And>t as1 x. p as = (t, as1, Done x) \<Longrightarrow> prompt_at (f x) as1"
  shows "prompt_at (pbind p f) as"
proof -
  obtain t as' r where *: "pbind p f as = (t, as', r)" by (cases "pbind p f as")
  obtain t1 as1 q where 1: "p as = (t1, as1, q)" by (cases "p as")
  note P = prompt_atD [OF p 1]
  have "as = map snd (answered t) @ as' \<and>
    (if r = Waiting then as' = [] \<and> (\<exists>t' c. t = t' @ [Pending c] \<and> (\<forall>bs. bs \<noteq> [] \<longrightarrow>
        (\<exists>u x. pbind p f (as @ bs) = (t' @ Call c (hd bs) # u, x))))
      else (\<forall>bs. pbind p f (as @ bs) = (t, as' @ bs, r)))"
  proof (cases q)
    case (Done x)
    obtain t2 where 2: "f x as1 = (t2, as', r)" "t = t1 @ t2"
      using * 1 Done by (cases "f x as1") (auto simp: pbind_def)
    note F = prompt_atD [OF f [OF 1 [unfolded Done]] 2(1)]
    have go: "pbind p f (as @ bs) = (t1 @ fst (f x (as1 @ bs)), snd (f x (as1 @ bs)))" for bs
      using P(3) [of bs] Done by (simp add: pbind_def split: prod.split)
    show ?thesis using P(1) F 2(2) go by (auto split: if_splits) (metis append_assoc fst_conv)+
  next
    case Waiting
    then have r: "r = Waiting" "t = t1" "as' = as1" using * 1 by (auto simp: pbind_def)
    obtain t' c where t': "as1 = []" "t1 = t' @ [Pending c]"
      "\<And>bs. bs \<noteq> [] \<Longrightarrow> \<exists>u x. p (as @ bs) = (t' @ Call c (hd bs) # u, x)"
      using P(2) [OF Waiting] by blast
    have "\<exists>u x. pbind p f (as @ bs) = (t' @ Call c (hd bs) # u, x)" if "bs \<noteq> []" for bs
      using t'(3) [OF that] pbind_prefix [of p "as @ bs"] by fastforce
    then show ?thesis using r t' P(1) by auto
  next
    case (Exited code)
    then show ?thesis using * 1 P(1) P(3) by (auto simp: pbind_def)
  next
    case (Replaced path argv)
    then show ?thesis using * 1 P(1) P(3) by (auto simp: pbind_def)
  qed
  then show ?thesis unfolding prompt_at_def * prod.case .
qed

lemma prompt_bind [prompt_intros]: "prompt p \<Longrightarrow> (\<And>x. prompt (f x)) \<Longrightarrow> prompt (pbind p f)"
  by (simp add: prompt_def prompt_at_bind)

text \<open>A loop is prompt if each round is a call and what follows it is prompt on the remaining answers.\<close>

lemma prompt_at_call:
  assumes "p = pbind (sys c) f" and "as \<noteq> [] \<Longrightarrow> prompt_at (f (hd as)) (tl as)"
  shows "prompt_at p as"
  unfolding assms(1)
  by (rule prompt_at_bind) (use prompt_sys assms(2) in \<open>cases as; auto simp: prompt_def\<close>)+

lemma prompt_atI: "prompt p \<Longrightarrow> prompt_at p as"
  by (simp add: prompt_def)

lemma prompt_fail [prompt_intros]: "prompt (fail op e)"
  by (simp add: fail_def prompt_intros)

lemma prompt_must [prompt_intros]: "prompt (must op c)"
  unfolding must_def by (intro prompt_intros) (simp add: prompt_intros)

lemma prompt_must_each [prompt_intros]: "prompt (must_each op cs)"
  by (induction cs) (simp_all only: must_each.simps prompt_intros)

lemma sv_unfold:
  "sv_reap child pg = pbind (sys (Waitpid (- 1) [WNOHANG])) (\<lambda>a.
     if ret a > 0 then (if ret a = child then preturn (exit_status (wstatus a)) else sv_reap child pg)
     else if ret a < 0 \<and> err a \<noteq> EINTR then fail ''waitpid'' (err a)
     else sv_wait child pg)"
  "sv_wait child pg = pbind (sys (Sigwaitinfo wait_signals)) (\<lambda>a.
     if ret a < 0 then (if err a = EINTR then sv_reap child pg else fail ''sigwaitinfo'' (err a))
     else if ret a \<noteq> SIGCHLD then sv_kill child pg (ret a)
     else sv_reap child pg)"
  "sv_kill child pg sig = pbind (sys (Kill (if pg then - child else child) sig)) (\<lambda>a.
     if ret a < 0 \<and> err a \<noteq> ESRCH then fail ''forward signal'' (err a) else sv_reap child pg)"
proof -
  have bind: "pbind (sys c) f [] = ([Pending c], [], Waiting)" "pbind (sys c) f (a # as) = emit (Call c a) (f a as)" for c f a as
    by (auto simp: pbind_def emit_def split: prod.split)
  show "sv_reap child pg = pbind (sys (Waitpid (- 1) [WNOHANG])) (\<lambda>a.
     if ret a > 0 then (if ret a = child then preturn (exit_status (wstatus a)) else sv_reap child pg)
     else if ret a < 0 \<and> err a \<noteq> EINTR then fail ''waitpid'' (err a)
     else sv_wait child pg)" (is "_ = ?f")
  proof
    show "sv_reap child pg as = ?f as" for as by (cases as) (simp_all add: bind)
  qed
  show "sv_wait child pg = pbind (sys (Sigwaitinfo wait_signals)) (\<lambda>a.
     if ret a < 0 then (if err a = EINTR then sv_reap child pg else fail ''sigwaitinfo'' (err a))
     else if ret a \<noteq> SIGCHLD then sv_kill child pg (ret a)
     else sv_reap child pg)" (is "_ = ?f")
  proof
    show "sv_wait child pg as = ?f as" for as by (cases as) (simp_all add: bind)
  qed
  show "sv_kill child pg sig = pbind (sys (Kill (if pg then - child else child) sig)) (\<lambda>a.
     if ret a < 0 \<and> err a \<noteq> ESRCH then fail ''forward signal'' (err a) else sv_reap child pg)" (is "_ = ?f")
  proof
    show "sv_kill child pg sig as = ?f as" for as by (cases as) (simp_all add: bind)
  qed
qed

lemma prompt_at_sv:
  "prompt_at (sv_reap child pg) as \<and> prompt_at (sv_wait child pg) as \<and> (\<forall>sig. prompt_at (sv_kill child pg sig) as)"
proof (induction "length as" arbitrary: as rule: less_induct)
  case less
  have rest: "prompt_at (sv_reap child pg) (tl as)" "prompt_at (sv_wait child pg) (tl as)" "prompt_at (sv_kill child pg sig) (tl as)"
    if "as \<noteq> []" for sig
    using less [of "tl as"] that by simp_all
  have ended: "prompt_at (fail op e :: int prog) bs" "prompt_at (preturn (x :: int)) bs" for op e x bs
    by (rule prompt_atI, rule prompt_intros)+
  show ?case
    by (intro conjI allI prompt_at_call [OF sv_unfold(1)] prompt_at_call [OF sv_unfold(2)] prompt_at_call [OF sv_unfold(3)])
      (use rest in \<open>simp_all only: ended split: if_split, simp_all\<close>)
qed

lemma prompt_supervise [prompt_intros]: "prompt (supervise child pg)"
  by (simp add: supervise_def prompt_def prompt_at_sv)

lemma drop_bounding_unfold:
  "drop_bounding cap = pbind (sys (Capbset_read cap)) (\<lambda>a.
     if ret a < 0 then
       (if err a = EINVAL then preturn () else fail ''read capability bounding set'' (err a))
     else pbind (must ''drop capability bounding set'' (Capbset_drop cap)) (\<lambda>_. drop_bounding (cap + 1)))" (is "_ = ?f")
proof
  have sys: "pbind (sys c) f [] = ([Pending c], [], Waiting)" "pbind (sys c) f (a # as) = emit (Call c a) (f a as)"
    for c a as and f :: "answer \<Rightarrow> 'b prog"
    by (auto simp: pbind_def emit_def split: prod.split)
  show "drop_bounding cap as = ?f as" for as
    by (cases "(cap, as)" rule: drop_bounding.cases) (simp_all add: sys must_def pbind_assoc pbind_if del: must_each_bind)
qed

lemma prompt_drop_bounding [prompt_intros]: "prompt (drop_bounding cap)"
  unfolding prompt_def
proof
  fix as
  show "prompt_at (drop_bounding cap) as"
  proof (induction "length as" arbitrary: as cap rule: less_induct)
    case less
    have "prompt_at (pbind (must op c) (\<lambda>_. drop_bounding (cap + 1))) (tl as)" if "as \<noteq> []" for op c
    proof (rule prompt_at_bind [OF prompt_atI [OF prompt_must]])
      fix t as1 x
      assume "must op c (tl as) = (t, as1, Done x)"
      then have "length as1 \<le> length (tl as)" using prompt_atD(1) [OF prompt_atI [OF prompt_must]] by fastforce
      then show "prompt_at (drop_bounding (cap + 1)) as1" using less [of as1] that by (cases as) auto
    qed
    then show ?case
      by (intro prompt_at_call [OF drop_bounding_unfold])
        (simp_all only: prompt_atI prompt_intros split: if_split, simp)
  qed
qed

lemma wait_gone_unfold:
  "wait_gone child = pbind (sys (Waitpid child [])) (\<lambda>a.
     if ret a < 0 \<and> err a = EINTR then wait_gone child else preturn ())" (is "_ = ?f")
proof
  show "wait_gone child as = ?f as" for as
    by (cases as) (auto simp: pbind_def emit_def split: prod.split)
qed

lemma prompt_wait_gone [prompt_intros]: "prompt (wait_gone child)"
  unfolding prompt_def
proof
  fix as
  show "prompt_at (wait_gone child) as"
  proof (induction "length as" arbitrary: as rule: less_induct)
    case less
    have "prompt_at (wait_gone child) (tl as)" if "as \<noteq> []" using less [of "tl as"] that by simp
    then show ?case
      by (intro prompt_at_call [OF wait_gone_unfold])
        (simp_all only: prompt_atI prompt_intros split: if_split, simp)
  qed
qed

text \<open>The two programs.\<close>

lemma prompt_if [prompt_intros]: "prompt p \<Longrightarrow> prompt q \<Longrightarrow> prompt (if b then p else q)"
  by simp

lemma prompt_sum [prompt_intros]: "(\<And>e. prompt (p e)) \<Longrightarrow> (\<And>y. prompt (q y)) \<Longrightarrow> prompt (case x of Inl e \<Rightarrow> p e | Inr y \<Rightarrow> q y)"
  by (cases x) simp_all

lemma prompt_write_map [prompt_intros]: "prompt (write_map child name val)"
  unfolding write_map_def by (intro prompt_intros)

lemma prompt_launch: "prompt (launch c child)"
  unfolding launch_def map_user_def by (intro prompt_intros)

lemma prompt_run_container: "prompt (run_container c)"
  unfolding run_container_def container_setup_def await_parent_def switch_root_def drop_capabilities_def
    start_command_def command_child_def Let_def
  by (intro prompt_intros)

section \<open>Steps of a process\<close>

definition next_call :: "'a prog \<Rightarrow> answer list \<Rightarrow> call option" where
  "next_call p as =
     (case p as of (t, as', r) \<Rightarrow>
        if r = Waiting then (case last t of Pending c \<Rightarrow> Some c | _ \<Rightarrow> None) else None)"

definition done_calls :: "'a prog \<Rightarrow> answer list \<Rightarrow> (call \<times> answer) list" where
  "done_calls p as = answered (fst (p as))"

lemma done_calls_Nil: "prompt p \<Longrightarrow> done_calls p [] = []"
  using prompt_atD(1) [OF prompt_atI, of p "[]"] by (cases "p []") (simp add: done_calls_def)

lemma done_calls_step:
  assumes p: "prompt p" and c: "next_call p as = Some c"
  shows "done_calls p (as @ [a]) = done_calls p as @ [(c, a)]"
proof -
  obtain t as' where t: "p as = (t, as', Waiting)"
    using c by (cases "p as") (auto simp: next_call_def split: if_splits)
  obtain t' d where t': "as' = []" "t = t' @ [Pending d]" "\<exists>u x. p (as @ [a]) = (t' @ Call d a # u, x)"
    using prompt_atD(2) [OF prompt_atI [OF p] t refl] by fastforce
  have d: "d = c" using c t t'(2) by (simp add: next_call_def)
  obtain u as2 r where u: "p (as @ [a]) = (t' @ Call c a # u, as2, r)" using t'(3) d by (metis prod.collapse)
  have "as = map snd (answered t')" using prompt_atD(1) [OF prompt_atI [OF p] t] t' by simp
  moreover have "as @ [a] = map snd (answered t') @ a # map snd (answered u) @ as2"
    using prompt_atD(1) [OF prompt_atI [OF p] u] by simp
  ultimately have "answered u = []" by simp
  then show ?thesis using t t'(2) u by (simp add: done_calls_def)
qed

text \<open>What holds of all runs holds of a process at every point.\<close>

lemma process_run: "all_runs p Q \<Longrightarrow> Q (fst (p as)) (snd (snd (p as)))"
  by (simp add: all_runs_def split_beta)

lemma in_done_calls: "(c, a) \<in> set (done_calls p as) \<longleftrightarrow> Call c a \<in> set (fst (p as))"
  by (simp add: done_calls_def in_answered)

lemma done_call_made: "(c, a) \<in> set (done_calls p as) \<Longrightarrow> c \<in> set (calls (fst (p as)))"
  by (force simp: in_done_calls calls_def)

end
