(* ===== verification/Runtime_System.thy ===== *)
theory Runtime_System
  imports Runtime_Process Transition
begin

text \<open>
  The launcher (from the clone on) and PID 1 of the container as two interleaved processes over the part of the kernel
  they share: the start-up pipe, the launcher's pidfd, the parent-death signal and \<open>kill\<close>. Either process may be killed
  at any moment. The state keeps the answers each process has got; the code run is \<open>launch\<close> and \<open>run_container\<close>.
\<close>

datatype who = Launcher | Pid1

record pair_state =
  l_answers :: "answer list"
  p_answers :: "answer list"
  pipe_bytes :: string
  l_alive :: bool
  p_alive :: bool
  deathsig :: bool

definition pair_init :: pair_state where
  "pair_init = \<lparr>l_answers = [], p_answers = [], pipe_bytes = [], l_alive = True, p_alive = True, deathsig = False\<rparr>"

text \<open>
  The answers the manual pages allow. \<open>open\<close> does not return a descriptor in use; \<open>write\<close> takes at most what it is given;
  \<open>read\<close> takes bytes from the front of the pipe, and from an empty pipe it reports the end or an error (or it
  blocks, which is no step); \<open>poll\<close> on a pidfd with no timeout returns 0 only while the process runs; \<open>fork\<close> in the parent
  does not return 0. Every other call may answer anything.
\<close>

fun kernel_allows :: "container \<Rightarrow> pair_state \<Rightarrow> who \<Rightarrow> call \<Rightarrow> answer \<Rightarrow> bool" where
  "kernel_allows c s Launcher (Open path flags) a \<longleftrightarrow> ret a \<noteq> ready1 c"
| "kernel_allows c s Launcher (Write fd x) a \<longleftrightarrow> ret a \<le> int (length x)"
| "kernel_allows c s Pid1 (Read fd n) a \<longleftrightarrow> (fd = ready0 c \<longrightarrow> ret a \<le> 0 \<or>
     ret a = int (min n (length (pipe_bytes s))) \<and> data a = take n (pipe_bytes s))"
| "kernel_allows c s Pid1 (Poll fd) a \<longleftrightarrow> (fd = parent_fd c \<and> ret a = 0 \<longrightarrow> l_alive s)"
| "kernel_allows c s Pid1 Fork a \<longleftrightarrow> ret a \<noteq> 0"
| "kernel_allows c s _ _ a \<longleftrightarrow> True"

text \<open>\<open>child\<close> is the process id of PID 1 as the launcher sees it.\<close>

fun kernel_effect :: "container \<Rightarrow> int \<Rightarrow> who \<Rightarrow> call \<Rightarrow> answer \<Rightarrow> pair_state \<Rightarrow> pair_state" where
  "kernel_effect c child Launcher (Write fd x) a s =
     (if fd = ready1 c then s\<lparr>pipe_bytes := pipe_bytes s @ take (nat (ret a)) x\<rparr> else s)"
| "kernel_effect c child Launcher (Kill pid sig) a s =
     (if pid = child \<and> sig = SIGKILL \<and> 0 \<le> ret a then s\<lparr>p_alive := False\<rparr> else s)"
| "kernel_effect c child Pid1 (Read fd n) a s =
     (if fd = ready0 c then s\<lparr>pipe_bytes := drop (nat (ret a)) (pipe_bytes s)\<rparr> else s)"
| "kernel_effect c child Pid1 (Prctl_pdeathsig sig) a s =
     (if 0 \<le> ret a then s\<lparr>deathsig := (sig = SIGKILL)\<rparr> else s)"
| "kernel_effect c child _ _ a s = s"

datatype pair_event = Did who call answer | Dies who

text \<open>The parent-death signal is sent when the parent dies, to a child that has asked for it by then.\<close>

inductive pair_step :: "container \<Rightarrow> int \<Rightarrow> pair_state \<Rightarrow> pair_event \<Rightarrow> pair_state \<Rightarrow> bool"
  for c :: container and child :: int where
  launcher: "l_alive s \<Longrightarrow> next_call (launch c child) (l_answers s) = Some x \<Longrightarrow> kernel_allows c s Launcher x a \<Longrightarrow>
    pair_step c child s (Did Launcher x a) ((kernel_effect c child Launcher x a s)\<lparr>l_answers := l_answers s @ [a]\<rparr>)"
| pid1: "p_alive s \<Longrightarrow> next_call (run_container c) (p_answers s) = Some x \<Longrightarrow> kernel_allows c s Pid1 x a \<Longrightarrow>
    pair_step c child s (Did Pid1 x a) ((kernel_effect c child Pid1 x a s)\<lparr>p_answers := p_answers s @ [a]\<rparr>)"
| launcher_dies: "l_alive s \<Longrightarrow>
    pair_step c child s (Dies Launcher) (s\<lparr>l_alive := False, p_alive := p_alive s \<and> \<not> deathsig s\<rparr>)"
| pid1_dies: "p_alive s \<Longrightarrow> pair_step c child s (Dies Pid1) (s\<lparr>p_alive := False\<rparr>)"

text \<open>What a process has done in an execution.\<close>

fun did_of :: "who \<Rightarrow> pair_event \<Rightarrow> (call \<times> answer) list" where
  "did_of w (Did v x a) = (if v = w then [(x, a)] else [])"
| "did_of w (Dies v) = []"

definition did :: "who \<Rightarrow> pair_event list \<Rightarrow> (call \<times> answer) list" where
  "did w es = concat (map (did_of w) es)"

lemma did_simps [simp]: "did w [] = []" "did w (es @ fs) = did w es @ did w fs" "did w (e # es) = did_of w e @ did w es"
  by (simp_all add: did_def)

lemma in_did: "(x, a) \<in> set (did w es) \<longleftrightarrow> Did w x a \<in> set es"
proof (induction es)
  case (Cons e es)
  then show ?case by (cases e) auto
qed simp

section \<open>Facts about the two programs\<close>

text \<open>A property of traces that composes.\<close>

lemma all_runs_closed:
  assumes p: "all_runs p (\<lambda>t r. P t)" and f: "\<And>x. all_runs (f x) (\<lambda>t r. P t)"
    and app: "\<And>s t. P s \<Longrightarrow> P t \<Longrightarrow> P (s @ t)"
  shows "all_runs (pbind p f) (\<lambda>t r. P t)"
  by (rule all_runs_bindI, rule all_runs_mono [OF p]) (auto split: outcome.split intro: all_runs_mono [OF f] app)

text \<open>The launcher writes the releasing byte to the pipe, and everything else to files it has opened.\<close>

definition writes_apart :: "container \<Rightarrow> entry list \<Rightarrow> bool" where
  "writes_apart c t \<longleftrightarrow> (\<forall>fd x. Write fd x \<in> set (calls t) \<longrightarrow>
     fd = ready1 c \<and> x = ''1'' \<or> (\<exists>path flags a. Call (Open path flags) a \<in> set t \<and> ret a = fd))"

lemma writes_apart_append: "writes_apart c s \<Longrightarrow> writes_apart c t \<Longrightarrow> writes_apart c (s @ t)"
  unfolding writes_apart_def by fastforce

lemmas all_runs_writes = all_runs_closed [where P = "writes_apart c" for c, OF _ _ writes_apart_append]

lemma writes_apart_none: "(\<And>fd x. Write fd x \<notin> set (calls t)) \<Longrightarrow> writes_apart c t"
  by (simp add: writes_apart_def)

lemma write_map_apart: "all_runs (write_map child name val) (\<lambda>t r. writes_apart c t)"
  by (auto simp: write_map_def run_simps writes_apart_def)

lemma launch_writes: "all_runs (launch c child) (\<lambda>t r. writes_apart c t)"
proof -
  have sup: "all_runs (supervise child False) (\<lambda>t r. writes_apart c t)"
    by (rule all_runs_mono [OF supervise_calls]) (auto intro!: writes_apart_none)
  have gone: "all_runs (wait_gone child) (\<lambda>t r. writes_apart c t)"
    by (rule all_runs_mono [OF wait_gone_run]) (auto intro!: writes_apart_none)
  have sys: "all_runs (sys x) (\<lambda>t r. writes_apart c t)" if "\<forall>fd s. x \<noteq> Write fd s" for x
    using that by (auto simp: run_simps writes_apart_def)
  have ready: "all_runs (sys (Write (ready1 c) ''1'')) (\<lambda>t r. writes_apart c t)"
    by (simp add: run_simps writes_apart_def)
  have ret: "all_runs (preturn y) (\<lambda>t r. writes_apart c t)" "all_runs (perror op e) (\<lambda>t r. writes_apart c t)" for y op e
    by (simp_all add: run_simps writes_apart_none)
  show ?thesis
    unfolding launch_def map_user_def
    by (intro all_runs_writes write_map_apart sys ready ret sup gone | simp split: sum.split | intro conjI allI impI)+
qed

text \<open>
  PID 1 before it is released: it asks for the parent-death signal before it polls the launcher, it goes on only if
  the launcher was alive then, and it leaves the start-up calls only with the byte from the pipe.
\<close>

definition startup_only :: "container \<Rightarrow> entry list \<Rightarrow> 'a outcome \<Rightarrow> bool" where
  "startup_only c t r \<longleftrightarrow> set (calls t) \<subseteq> {Close (ready1 c), Prctl_pdeathsig SIGKILL, Poll (parent_fd c)} \<and>
     length (answered t) \<le> 3 \<and> (r = Waiting \<or> r = Exited 125) \<and> (length (answered t) = 3 \<longrightarrow> r = Exited 125)"

definition startup_order :: "container \<Rightarrow> entry list \<Rightarrow> 'a outcome \<Rightarrow> bool" where
  "startup_order c t r \<longleftrightarrow>
     ((\<exists>a. Call (Poll (parent_fd c)) a \<in> set t) \<longrightarrow> (\<exists>b. Call (Prctl_pdeathsig SIGKILL) b \<in> set t \<and> 0 \<le> ret b)) \<and>
     ((\<exists>a. Call (Poll (parent_fd c)) a \<in> set t \<and> ret a = 0) \<or> startup_only c t r) \<and>
     ((\<exists>x\<in>set (calls t). x \<notin> set (await_calls c)) \<longrightarrow>
       (\<exists>a. Call (Read (ready0 c) 1) a \<in> set t \<and> ret a = 1 \<and> data a = ''1''))"

lemma await_order: "all_runs (await_parent c) (startup_order c)"
  by (auto simp: await_parent_def run_simps startup_order_def startup_only_def await_calls_def RUNTIME_ERROR_def)

lemma run_container_order: "all_runs (run_container c) (startup_order c)"
proof -
  have split: "run_container c = pbind (await_parent c) (\<lambda>_. pbind (pbind (switch_root c) (\<lambda>_. drop_capabilities)) (\<lambda>_. start_command c))"
    by (simp add: run_container_def container_setup_def pbind_assoc)
  have go: "startup_order c (t @ t') q" if "released c t" for t t' and q :: "int outcome"
    using that unfolding released_def startup_order_def by auto
  show ?thesis
    unfolding split
  proof (rule all_runs_bindI, rule all_runs_mono [OF all_runs_conj [OF await_order await_parent_ends [unfolded ends_def]]])
    fix t and r :: "unit outcome"
    assume *: "startup_order c t r \<and> (r = Waiting \<or> r = Exited 125 \<or> (\<exists>x. r = Done x \<and> released c t))"
    then show "case r of
        Done x \<Rightarrow> all_runs (pbind (pbind (switch_root c) (\<lambda>_. drop_capabilities)) (\<lambda>_. start_command c)) (\<lambda>t'. startup_order c (t @ t'))
      | Exited code \<Rightarrow> startup_order c t (Exited code)
      | Replaced path argv \<Rightarrow> startup_order c t (Replaced path argv)
      | Waiting \<Rightarrow> startup_order c t Waiting"
      by (cases r) (auto simp: startup_order_def startup_only_def intro!: all_runsI go)
  qed
qed

text \<open>PID 1 asks for no other parent-death signal.\<close>

definition deathsig_kept :: "entry list \<Rightarrow> bool" where
  "deathsig_kept t \<longleftrightarrow> (\<forall>sig. Prctl_pdeathsig sig \<in> set (calls t) \<longrightarrow> sig = SIGKILL)"

lemma deathsig_kept_simps [simp]: "deathsig_kept []" "deathsig_kept (s @ t) \<longleftrightarrow> deathsig_kept s \<and> deathsig_kept t"
  "deathsig_kept (e # t) \<longleftrightarrow> (\<forall>sig. Prctl_pdeathsig sig \<in> set (call_of e) \<longrightarrow> sig = SIGKILL) \<and> deathsig_kept t"
  by (auto simp: deathsig_kept_def)

lemma run_container_deathsig: "all_runs (run_container c) (\<lambda>t r. deathsig_kept t)"
proof -
  have bind: "all_runs p (\<lambda>t r. deathsig_kept t) \<Longrightarrow> (\<And>x. all_runs (f x) (\<lambda>t r. deathsig_kept t)) \<Longrightarrow>
      all_runs (pbind p f) (\<lambda>t r. deathsig_kept t)" for p :: "unit prog" and f :: "unit \<Rightarrow> 'b prog"
    by (rule all_runs_closed) simp_all
  have drop: "all_runs (drop_bounding cap) (\<lambda>t r. deathsig_kept t)" for cap
  proof (rule all_runsI)
    show "drop_bounding cap as = (t, as', r) \<Longrightarrow> deathsig_kept t" for as t as' r
      by (induction cap as arbitrary: t rule: drop_bounding.induct) (auto simp: emit_conv split: if_splits)
  qed
  have sup: "all_runs (supervise child pg) (\<lambda>t r. deathsig_kept t)" for child pg
    by (rule all_runs_mono [OF supervise_calls]) (auto simp: deathsig_kept_def sv_call_ok_def)
  have "all_runs (await_parent c) (\<lambda>t r. deathsig_kept t)" by (simp add: await_parent_def run_simps)
  moreover have "all_runs (switch_root c) (\<lambda>t r. deathsig_kept t)" by (simp add: switch_root_def run_simps)
  moreover have "all_runs drop_capabilities (\<lambda>t r. deathsig_kept t)"
    unfolding drop_capabilities_def by (rule bind [OF drop]) (simp add: run_simps)
  moreover have "all_runs (start_command c) (\<lambda>t r. deathsig_kept t)"
    using sup by (simp add: start_command_def command_child_def Let_def forwarded_signals_def run_simps)
  ultimately show ?thesis unfolding run_container_def container_setup_def by (intro bind)
qed

section \<open>The invariant of the pair\<close>

definition pair_inv :: "container \<Rightarrow> int \<Rightarrow> pair_event list \<Rightarrow> pair_state \<Rightarrow> bool" where
  "pair_inv c child es s \<longleftrightarrow>
     done_calls (launch c child) (l_answers s) = did Launcher es \<and>
     done_calls (run_container c) (p_answers s) = did Pid1 es \<and>
     (\<forall>path flags a. (Open path flags, a) \<in> set (did Launcher es) \<longrightarrow> ret a \<noteq> ready1 c) \<and>
     (pipe_bytes s \<noteq> [] \<longrightarrow> (\<exists>a. (Write (ready1 c) ''1'', a) \<in> set (did Launcher es))) \<and>
     ((\<exists>a. (Prctl_pdeathsig SIGKILL, a) \<in> set (did Pid1 es) \<and> 0 \<le> ret a) \<longrightarrow> deathsig s) \<and>
     (\<not> l_alive s \<and> p_alive s \<longrightarrow> (\<forall>a. (Poll (parent_fd c), a) \<in> set (did Pid1 es) \<longrightarrow> ret a \<noteq> 0))"

lemma pair_inv_init: "pair_inv c child [] pair_init"
  by (simp add: pair_inv_def pair_init_def done_calls_Nil prompt_launch prompt_run_container)

text \<open>What a call of either process leaves alone.\<close>

lemma kernel_effect_Launcher:
  "l_answers (kernel_effect c child Launcher x a s) = l_answers s"
  "p_answers (kernel_effect c child Launcher x a s) = p_answers s"
  "l_alive (kernel_effect c child Launcher x a s) = l_alive s"
  "deathsig (kernel_effect c child Launcher x a s) = deathsig s"
  "p_alive (kernel_effect c child Launcher x a s) \<Longrightarrow> p_alive s"
  "pipe_bytes (kernel_effect c child Launcher x a s) \<noteq> [] \<Longrightarrow> pipe_bytes s \<noteq> [] \<or> (\<exists>y. x = Write (ready1 c) y)"
  by (cases x; auto split: if_splits)+

lemma kernel_effect_Pid1:
  "l_answers (kernel_effect c child Pid1 x a s) = l_answers s"
  "p_answers (kernel_effect c child Pid1 x a s) = p_answers s"
  "l_alive (kernel_effect c child Pid1 x a s) = l_alive s"
  "p_alive (kernel_effect c child Pid1 x a s) = p_alive s"
  "pipe_bytes (kernel_effect c child Pid1 x a s) \<noteq> [] \<Longrightarrow> pipe_bytes s \<noteq> []"
  "deathsig s \<Longrightarrow> (\<And>sig. x = Prctl_pdeathsig sig \<Longrightarrow> sig = SIGKILL) \<Longrightarrow> deathsig (kernel_effect c child Pid1 x a s)"
  by (cases x; auto split: if_splits)+

lemma pair_inv_launcher:
  assumes inv: "pair_inv c child es s" and x: "next_call (launch c child) (l_answers s) = Some x"
    and a: "kernel_allows c s Launcher x a"
  shows "pair_inv c child (es @ [Did Launcher x a]) ((kernel_effect c child Launcher x a s)\<lparr>l_answers := l_answers s @ [a]\<rparr>)"
proof -
  let ?d = "done_calls (launch c child) (l_answers s @ [a])"
  have d: "?d = did Launcher es @ [(x, a)]"
    using inv done_calls_step [OF prompt_launch x] by (simp add: pair_inv_def)
  have opens: "ret b \<noteq> ready1 c" if "(Open path flags, b) \<in> set ?d" for path flags b
    using inv a that by (auto simp: pair_inv_def d)
  have byte: "\<exists>b. (Write (ready1 c) ''1'', b) \<in> set ?d" if "x = Write (ready1 c) y" for y
  proof -
    have "Write (ready1 c) y \<in> set (calls (fst (launch c child (l_answers s @ [a]))))"
      using d that by (intro done_call_made [of _ a]) simp
    then have "y = ''1''"
      using process_run [OF launch_writes, of c child "l_answers s @ [a]"] opens
      unfolding writes_apart_def in_done_calls by blast
    then show ?thesis using d that by auto
  qed
  have "\<exists>b. (Write (ready1 c) ''1'', b) \<in> set ?d" if "pipe_bytes (kernel_effect c child Launcher x a s) \<noteq> []"
  proof (cases "pipe_bytes s = []")
    case True
    then show ?thesis using kernel_effect_Launcher(6) [OF that] byte by blast
  next
    case False
    then show ?thesis using inv by (auto simp: pair_inv_def d)
  qed
  then show ?thesis
    using inv opens kernel_effect_Launcher(5) [of c child x a s]
    by (simp add: pair_inv_def d kernel_effect_Launcher(1-4))
qed

lemma pair_inv_pid1:
  assumes inv: "pair_inv c child es s" and x: "next_call (run_container c) (p_answers s) = Some x"
    and a: "kernel_allows c s Pid1 x a"
  shows "pair_inv c child (es @ [Did Pid1 x a]) ((kernel_effect c child Pid1 x a s)\<lparr>p_answers := p_answers s @ [a]\<rparr>)"
proof -
  let ?d = "done_calls (run_container c) (p_answers s @ [a])"
  have d: "?d = did Pid1 es @ [(x, a)]"
    using inv done_calls_step [OF prompt_run_container x] by (simp add: pair_inv_def)
  have sig: "sig = SIGKILL" if "x = Prctl_pdeathsig sig" for sig
  proof -
    have "x \<in> set (calls (fst (run_container c (p_answers s @ [a]))))"
      using d by (intro done_call_made [of _ a]) simp
    then show ?thesis using process_run [OF run_container_deathsig] that unfolding deathsig_kept_def by blast
  qed
  have "deathsig (kernel_effect c child Pid1 x a s)" if "(Prctl_pdeathsig SIGKILL, b) \<in> set ?d" "0 \<le> ret b" for b
  proof (cases "x = Prctl_pdeathsig SIGKILL \<and> b = a")
    case True
    then show ?thesis using that(2) by simp
  next
    case False
    then have "deathsig s" using inv that d by (auto simp: pair_inv_def)
    then show ?thesis using kernel_effect_Pid1(6) sig by blast
  qed
  then show ?thesis
    using inv a kernel_effect_Pid1(5) [of c child x a s]
    by (auto simp: pair_inv_def d kernel_effect_Pid1(1-4))
qed

lemma pair_inv_step:
  assumes inv: "pair_inv c child es s" and "pair_step c child s e s'"
  shows "pair_inv c child (es @ [e]) s'"
  using assms(2)
proof (cases rule: pair_step.cases)
  case launcher_dies
  have "\<not> deathsig s \<longrightarrow> (\<forall>a. (Poll (parent_fd c), a) \<notin> set (did Pid1 es))"
    using inv process_run [OF run_container_order, of c "p_answers s"]
    unfolding pair_inv_def startup_order_def by (metis in_done_calls)
  then show ?thesis using inv launcher_dies by (auto simp: pair_inv_def)
next
  case pid1_dies
  then show ?thesis using inv by (simp add: pair_inv_def)
qed (use pair_inv_launcher [OF inv] pair_inv_pid1 [OF inv] in auto)

interpretation pair: traced_system "\<lambda>s. s = pair_init" "pair_step c child" "pair_inv c child" for c child
  by unfold_locales (auto intro: pair_inv_init pair_inv_step)

section \<open>Consequences\<close>

text \<open>Without the launcher, PID 1 gets no further than its start-up check.\<close>

lemma orphan_stays:
  assumes "runs (pair_step c child) pair_init es s" and "\<not> l_alive s" and "p_alive s"
  shows "startup_only c (fst (run_container c (p_answers s))) (snd (snd (run_container c (p_answers s))))"
  using pair.inv_runs [OF assms(1) refl] assms(2,3) process_run [OF run_container_order, of c "p_answers s"]
  unfolding pair_inv_def startup_order_def in_done_calls [symmetric] by (metis (no_types, lifting))

text \<open>One map file in the launcher's log.\<close>

definition map_done :: "int \<Rightarrow> string \<Rightarrow> string \<Rightarrow> (call \<times> answer) list \<Rightarrow> bool" where
  "map_done child name val l \<longleftrightarrow> (\<exists>a b x.
     l = [(Open (map_path child name) [O_WRONLY, O_CLOEXEC], a), (Write (ret a) val, b), (Close (ret a), x)] \<and>
     0 \<le> ret a \<and> ret b = int (length val))"

lemma map_written_done: "map_written child name val t \<Longrightarrow> map_done child name val (answered t)"
  by (auto simp: map_written_def map_done_def)

lemma launcher_maps:
  assumes "pair_inv c child es s" and "0 < child" and "pipe_bytes s \<noteq> []"
  obtains l m1 m2 m3 k x y where "did Launcher es = l @ m1 @ m2 @ m3 @ k"
    and "(Getuid, x) \<in> set l" and "(Getgid, y) \<in> set l"
    and "map_done child ''setgroups'' ''deny'' m1" and "map_done child ''uid_map'' (id_map (nat (ret x))) m2"
    and "map_done child ''gid_map'' (id_map (nat (ret y))) m3"
proof -
  have d: "done_calls (launch c child) (l_answers s) = did Launcher es" using assms(1) by (simp add: pair_inv_def)
  obtain a where "(Write (ready1 c) ''1'', a) \<in> set (done_calls (launch c child) (l_answers s))"
    using assms(1,3) by (auto simp: pair_inv_def)
  then have "Write (ready1 c) ''1'' \<in> set (calls (fst (launch c child (l_answers s))))" by (rule done_call_made)
  then obtain t m u x y where t: "fst (launch c child (l_answers s)) = t @ m @ u" "Call Getuid x \<in> set t" "Call Getgid y \<in> set t"
    "mapped child (ready1 c) (nat (ret x)) (nat (ret y)) m"
    using process_run [OF launch_run [OF assms(2)], of c "l_answers s"] unfolding launch_result_def by blast
  then obtain n1 n2 n3 e where n: "m = n1 @ n2 @ n3 @ [e]" "map_written child ''setgroups'' ''deny'' n1"
    "map_written child ''uid_map'' (id_map (nat (ret x))) n2" "map_written child ''gid_map'' (id_map (nat (ret y))) n3"
    unfolding mapped_def by blast
  show thesis
  proof (rule that)
    show "did Launcher es = answered t @ answered n1 @ answered n2 @ answered n3 @ answered ([e] @ u)"
      using d t(1) n(1) by (simp add: done_calls_def)
    show "map_done child ''setgroups'' ''deny'' (answered n1)" by (rule map_written_done [OF n(2)])
    show "map_done child ''uid_map'' (id_map (nat (ret x))) (answered n2)" by (rule map_written_done [OF n(3)])
    show "map_done child ''gid_map'' (id_map (nat (ret y))) (answered n3)" by (rule map_written_done [OF n(4)])
  qed (use t in \<open>simp_all add: in_answered\<close>)
qed

text \<open>PID 1 leaves its start-up only with the byte, and the byte is in the pipe only after the maps.\<close>

lemma handshake:
  assumes run: "runs (pair_step c child) pair_init es s" and child: "0 < child"
    and x: "Did Pid1 x a \<in> set es" "x \<notin> set (await_calls c)"
  obtains es1 es2 u where "es = es1 @ es2" and "runs (pair_step c child) pair_init es1 u" and "pipe_bytes u \<noteq> []"
    and "\<And>y b. Did Pid1 y b \<in> set es1 \<Longrightarrow> y \<in> set (await_calls c)"
proof -
  let ?got = "\<lambda>e. \<exists>r. e = Did Pid1 (Read (ready0 c) 1) r \<and> ret r = 1 \<and> data r = ''1''"
  have got: "\<exists>e\<in>set fs. ?got e"
    if "runs (pair_step c child) pair_init fs v" "Did Pid1 y b \<in> set fs" "y \<notin> set (await_calls c)" for fs v y b
  proof -
    note fs = that
    have d: "done_calls (run_container c) (p_answers v) = did Pid1 fs"
      using pair.inv_runs [OF fs(1) refl] by (simp add: pair_inv_def)
    then have "y \<in> set (calls (fst (run_container c (p_answers v))))"
      using fs(2) by (intro done_call_made [of _ b]) (simp add: in_did)
    then obtain r where "Call (Read (ready0 c) 1) r \<in> set (fst (run_container c (p_answers v)))" "ret r = 1" "data r = ''1''"
      using process_run [OF run_container_order, of c "p_answers v"] fs(3) unfolding startup_order_def by blast
    then show ?thesis using d by (metis in_did in_done_calls)
  qed
  obtain es1 e es2 where es: "es = es1 @ e # es2" "?got e" "\<forall>e\<in>set es1. \<not> ?got e"
    using split_list_first_prop [OF got [OF run x]] by blast
  obtain u where u: "runs (pair_step c child) pair_init es1 u" "runs (pair_step c child) u (e # es2) s"
    using runs_split [of "pair_step c child" pair_init es1 "e # es2" s] run es(1) by auto
  obtain v where "pair_step c child u e v" using runs_split [of "pair_step c child" u "[e]" es2 s] u(2) by (auto dest: runs_single)
  then have "pipe_bytes u \<noteq> []" using es(2) by (cases rule: pair_step.cases) auto
  moreover have "y \<in> set (await_calls c)" if "Did Pid1 y b \<in> set es1" for y b
    using got [OF u(1) that] es(3) by blast
  ultimately show thesis using that es(1) u(1) by blast
qed

section \<open>Running a schedule\<close>

text \<open>A schedule names the process that moves next and the answer it gets; \<open>None\<close> kills it.\<close>

fun run_schedule :: "container \<Rightarrow> int \<Rightarrow> (who \<times> answer option) list \<Rightarrow> pair_state \<Rightarrow> (pair_event list \<times> pair_state) option" where
  "run_schedule c child [] s = Some ([], s)"
| "run_schedule c child ((Launcher, Some a) # ws) s =
     (case next_call (launch c child) (l_answers s) of
        None \<Rightarrow> None
      | Some x \<Rightarrow>
          if l_alive s \<and> kernel_allows c s Launcher x a
          then map_option (\<lambda>(es, s'). (Did Launcher x a # es, s'))
                 (run_schedule c child ws ((kernel_effect c child Launcher x a s)\<lparr>l_answers := l_answers s @ [a]\<rparr>))
          else None)"
| "run_schedule c child ((Pid1, Some a) # ws) s =
     (case next_call (run_container c) (p_answers s) of
        None \<Rightarrow> None
      | Some x \<Rightarrow>
          if p_alive s \<and> kernel_allows c s Pid1 x a
          then map_option (\<lambda>(es, s'). (Did Pid1 x a # es, s'))
                 (run_schedule c child ws ((kernel_effect c child Pid1 x a s)\<lparr>p_answers := p_answers s @ [a]\<rparr>))
          else None)"
| "run_schedule c child ((Launcher, None) # ws) s =
     (if l_alive s
      then map_option (\<lambda>(es, s'). (Dies Launcher # es, s'))
             (run_schedule c child ws (s\<lparr>l_alive := False, p_alive := p_alive s \<and> \<not> deathsig s\<rparr>))
      else None)"
| "run_schedule c child ((Pid1, None) # ws) s =
     (if p_alive s
      then map_option (\<lambda>(es, s'). (Dies Pid1 # es, s')) (run_schedule c child ws (s\<lparr>p_alive := False\<rparr>))
      else None)"

lemma run_schedule_runs: "run_schedule c child ws s = Some (es, s') \<Longrightarrow> runs (pair_step c child) s es s'"
proof (induction c child ws s arbitrary: es rule: run_schedule.induct)
  case (1 c child s)
  then show ?case by (simp add: runs.start)
qed (auto split: option.splits if_splits intro: runs_Cons [of "pair_step c child" for c child] pair_step.intros)

end
