(* ===== verification/Runtime_Supervisor.thy ===== *)
theory Runtime_Supervisor
  imports Runtime_Facts Transition
begin

text \<open>
  The supervisor loop beside the kernel. The loop of \<open>supervise\<close> is cut into steps, one per
  system call, and run against the part of the kernel it uses: the children that are alive,
  the ones that have exited and wait to be reaped, and the pending signals, which do not
  queue. Children exit and signals arrive at any moment between two calls. The theorems
  show that no exit is ever missed.
\<close>

section \<open>The loop as a machine\<close>

datatype svpc = At_waitpid | At_sigwait | At_kill int | Finished int | Died

fun sv_call :: "int \<Rightarrow> bool \<Rightarrow> svpc \<Rightarrow> call option" where
  "sv_call child pg At_waitpid = Some (Waitpid (- 1) [WNOHANG])"
| "sv_call child pg At_sigwait = Some (Sigwaitinfo wait_signals)"
| "sv_call child pg (At_kill sig) = Some (Kill (if pg then - child else child) sig)"
| "sv_call child pg _ = None"

fun sv_next :: "int \<Rightarrow> svpc \<Rightarrow> answer \<Rightarrow> svpc" where
  "sv_next child At_waitpid a =
     (if ret a > 0 then (if ret a = child then Finished (exit_status (wstatus a)) else At_waitpid)
      else if ret a < 0 \<and> err a \<noteq> EINTR then Died
      else At_sigwait)"
| "sv_next child At_sigwait a =
     (if ret a < 0 then (if err a = EINTR then At_waitpid else Died)
      else if ret a \<noteq> SIGCHLD then At_kill (ret a)
      else At_waitpid)"
| "sv_next child (At_kill sig) a = (if ret a < 0 \<and> err a \<noteq> ESRCH then Died else At_waitpid)"
| "sv_next child pc a = pc"

text \<open>The machine is the program: where it stands after the answers given so far.\<close>

fun sv_pc :: "int \<Rightarrow> svpc \<Rightarrow> answer list \<Rightarrow> svpc" where
  "sv_pc child pc [] = pc"
| "sv_pc child pc (a # as) = sv_pc child (sv_next child pc a) as"

fun sv_outcome :: "svpc \<Rightarrow> int outcome" where
  "sv_outcome (Finished code) = Done code"
| "sv_outcome Died = Exited 125"
| "sv_outcome _ = Waiting"

lemma sv_pc_final [simp]: "sv_pc child (Finished code) as = Finished code" "sv_pc child Died as = Died"
  by (induction as) auto

lemma snd_emit [simp]: "snd (emit e x) = snd x"
  by (simp add: emit_def)

lemma sv_machine:
  "snd (snd (sv_reap child pg as)) = sv_outcome (sv_pc child At_waitpid as)"
  "snd (snd (sv_wait child pg as)) = sv_outcome (sv_pc child At_sigwait as)"
  "snd (snd (sv_kill child pg sig as)) = sv_outcome (sv_pc child (At_kill sig) as)"
  by (induction child pg as and child pg as and child pg sig as rule: sv_reap_sv_wait_sv_kill.induct)
    auto

section \<open>The kernel\<close>

record kern =
  alive :: "int set"
  zombies :: "(int \<times> int) list"
  pending :: "int set"
  exited :: "(int \<times> int) list"

text \<open>
  The answers the manual pages allow. \<open>waitpid\<close> with \<open>WNOHANG\<close> reports some exited child,
  0 when children exist but none has exited, and an error when there is no child; it is
  not interrupted. \<open>sigwaitinfo\<close> takes a pending signal of its set or is interrupted.
  \<open>kill\<close> on the child or its group succeeds or finds no process.
\<close>

inductive answers_call :: "kern \<Rightarrow> call \<Rightarrow> answer \<Rightarrow> kern \<Rightarrow> bool" where
  reaped: "(ret a, wstatus a) \<in> set (zombies k) \<Longrightarrow>
    answers_call k (Waitpid (- 1) [WNOHANG]) a (k\<lparr>zombies := remove1 (ret a, wstatus a) (zombies k)\<rparr>)"
| none: "zombies k = [] \<Longrightarrow> alive k \<noteq> {} \<Longrightarrow> ret a = 0 \<Longrightarrow> answers_call k (Waitpid (- 1) [WNOHANG]) a k"
| no_child: "zombies k = [] \<Longrightarrow> alive k = {} \<Longrightarrow> ret a < 0 \<Longrightarrow> err a \<noteq> EINTR \<Longrightarrow>
    answers_call k (Waitpid (- 1) [WNOHANG]) a k"
| signal: "ret a \<in> pending k \<Longrightarrow> ret a \<in> set sigs \<Longrightarrow>
    answers_call k (Sigwaitinfo sigs) a (k\<lparr>pending := pending k - {ret a}\<rparr>)"
| interrupted: "ret a < 0 \<Longrightarrow> err a = EINTR \<Longrightarrow> answers_call k (Sigwaitinfo sigs) a k"
| killed: "0 \<le> ret a \<or> err a = ESRCH \<Longrightarrow> answers_call k (Kill p sig) a k"

text \<open>
  A step: the supervisor's next call returns, a child exits, a signal arrives, or an orphan
  is handed to this process.
\<close>

datatype sv_event = Called call answer | Exits int int | Arrives int | Adopted int

inductive sup_step :: "int \<Rightarrow> bool \<Rightarrow> kern \<times> svpc \<Rightarrow> sv_event \<Rightarrow> kern \<times> svpc \<Rightarrow> bool"
  for child :: int and pg :: bool where
  code: "sv_call child pg pc = Some c \<Longrightarrow> answers_call k c a k' \<Longrightarrow>
    sup_step child pg (k, pc) (Called c a) (k', sv_next child pc a)"
| exits: "p \<in> alive k \<Longrightarrow>
    sup_step child pg (k, pc) (Exits p st)
      (k\<lparr>alive := alive k - {p}, zombies := zombies k @ [(p, st)], pending := insert SIGCHLD (pending k),
         exited := exited k @ [(p, st)]\<rparr>, pc)"
| arrives: "s \<in> set forwarded_signals \<Longrightarrow>
    sup_step child pg (k, pc) (Arrives s) (k\<lparr>pending := insert s (pending k)\<rparr>, pc)"
| adopted: "0 < p \<Longrightarrow> p \<notin> alive k \<union> fst ` set (zombies k) \<union> fst ` set (exited k) \<Longrightarrow> p \<noteq> child \<Longrightarrow>
    sup_step child pg (k, pc) (Adopted p) (k\<lparr>alive := insert p (alive k)\<rparr>, pc)"

definition sup_init :: "int \<Rightarrow> kern \<times> svpc \<Rightarrow> bool" where
  "sup_init child s \<longleftrightarrow> snd s = At_waitpid \<and> 0 < child \<and>
     fst s = \<lparr>alive = {child}, zombies = [], pending = {}, exited = []\<rparr>"

text \<open>The answers the supervisor has got in an execution; with them, the program \<open>supervise\<close> ends as
  the machine stands.\<close>

fun answer_of :: "sv_event \<Rightarrow> answer list" where
  "answer_of (Called c a) = [a]"
| "answer_of _ = []"

definition sv_answers :: "sv_event list \<Rightarrow> answer list" where
  "sv_answers es = concat (map answer_of es)"

lemma sv_answers_simps [simp]: "sv_answers [] = []" "sv_answers (es @ fs) = sv_answers es @ sv_answers fs"
  "sv_answers (e # es) = answer_of e @ sv_answers es"
  by (simp_all add: sv_answers_def)

lemma sv_pc_append: "sv_pc child pc (as @ bs) = sv_pc child (sv_pc child pc as) bs"
  by (induction as arbitrary: pc) auto

lemma sup_runs_pc: "runs (sup_step child pg) s es s' \<Longrightarrow> sv_pc child (snd s) (sv_answers es) = snd s'"
proof (induction rule: runs.induct)
  case (more s es s' e s'')
  from more.hyps(2) more.IH show ?case by (cases rule: sup_step.cases) (auto simp: sv_pc_append)
qed simp

lemma supervise_follows:
  "runs (sup_step child pg) s es (k, pc) \<Longrightarrow> sup_init child s \<Longrightarrow>
   snd (snd (supervise child pg (sv_answers es))) = sv_outcome pc"
  using sup_runs_pc [of child pg s es "(k, pc)"] by (simp add: supervise_def sv_machine sup_init_def)

section \<open>Invariants\<close>

text \<open>
  The child is alive, waits to be reaped, or has been reported; an exited child is never
  overlooked by a supervisor that is about to sleep, since \<open>SIGCHLD\<close> is then pending.
\<close>

definition sup_inv :: "int \<Rightarrow> sv_event list \<Rightarrow> kern \<times> svpc \<Rightarrow> bool" where
  "sup_inv child es s \<longleftrightarrow> (case s of (k, pc) \<Rightarrow>
     (\<forall>p\<in>alive k. 0 < p) \<and> (\<forall>(p, st)\<in>set (zombies k). 0 < p) \<and> set (zombies k) \<subseteq> set (exited k) \<and>
     pc \<noteq> Died \<and>
     (zombies k \<noteq> [] \<and> pc = At_sigwait \<longrightarrow> SIGCHLD \<in> pending k) \<and>
     (case pc of
        Finished code \<Rightarrow> \<exists>st. (child, st) \<in> set (exited k) \<and> code = exit_status st
      | _ \<Rightarrow> child \<in> alive k \<or> child \<in> fst ` set (zombies k)))"

lemma SIGCHLD_not_forwarded: "SIGCHLD \<notin> set forwarded_signals"
  by (simp add: forwarded_signals_def)

lemma wait_signals_pos: "s \<in> set wait_signals \<Longrightarrow> 0 < s"
  by (auto simp: wait_signals_def forwarded_signals_def)

lemma sup_inv_init: "sup_init child s \<Longrightarrow> sup_inv child [] s"
  by (cases s) (auto simp: sup_init_def sup_inv_def)

lemma in_remove1_fst:
  assumes "x \<in> fst ` set zs" and "x \<noteq> p"
  shows "x \<in> fst ` set (remove1 (p, st) zs)"
proof -
  obtain y where "(x, y) \<in> set zs" using assms(1) by auto
  then have "(x, y) \<in> set (remove1 (p, st) zs)" using assms(2) by (simp add: in_set_remove1)
  then show ?thesis by force
qed

lemma sup_inv_code:
  assumes inv: "sup_inv child es (k, pc)" and c: "sv_call child pg pc = Some c" "answers_call k c a k'"
  shows "sup_inv child (es @ [e]) (k', sv_next child pc a)"
  using c(2)
proof (cases rule: answers_call.cases)
  case reaped
  then have pc: "pc = At_waitpid" using c(1) by (cases pc) auto
  have pos: "0 < ret a" using inv reaped by (auto simp: sup_inv_def)
  show ?thesis
  proof (cases "ret a = child")
    case True
    then show ?thesis
      using inv reaped pc pos by (auto simp: sup_inv_def dest: notin_set_remove1 [rotated])
  next
    case False
    then have "child \<in> alive k' \<or> child \<in> fst ` set (zombies k')"
      using inv reaped pc in_remove1_fst [of child "zombies k" "ret a" "wstatus a"] by (auto simp: sup_inv_def)
    then show ?thesis
      using inv reaped pc pos False set_remove1_subset [of "(ret a, wstatus a)" "zombies k"]
      by (auto simp: sup_inv_def)
  qed
next
  case none
  then have "pc = At_waitpid" using c(1) by (cases pc) auto
  then show ?thesis using inv none by (auto simp: sup_inv_def)
next
  case no_child
  then have "pc = At_waitpid" using c(1) by (cases pc) auto
  then show ?thesis using inv no_child by (auto simp: sup_inv_def)
next
  case (signal sigs)
  then have "pc = At_sigwait" "sigs = wait_signals" using c(1) by (cases pc; auto)+
  then show ?thesis using inv signal wait_signals_pos [of "ret a"] by (auto simp: sup_inv_def)
next
  case (interrupted sigs)
  then have "pc = At_sigwait" using c(1) by (cases pc) auto
  then show ?thesis using inv interrupted by (auto simp: sup_inv_def)
next
  case (killed p sig)
  then obtain s where "pc = At_kill s" using c(1) by (cases pc) auto
  then show ?thesis using inv killed by (auto simp: sup_inv_def)
qed

lemma sup_inv_step:
  assumes "sup_inv child es s" and "sup_step child pg s e s'"
  shows "sup_inv child (es @ [e]) s'"
  using assms(2)
proof (cases rule: sup_step.cases)
  case (code pc c k a k')
  then show ?thesis using sup_inv_code assms(1) by simp
next
  case (exits p k pc st)
  then show ?thesis using assms(1) by (auto simp: sup_inv_def split: svpc.splits)
next
  case (arrives x k pc)
  then show ?thesis using assms(1) by (auto simp: sup_inv_def split: svpc.splits)
next
  case (adopted p k pc)
  then show ?thesis using assms(1) by (auto simp: sup_inv_def split: svpc.splits)
qed

interpretation sup: traced_system "sup_init child" "sup_step child pg" "sup_inv child" for child pg
  by unfold_locales (auto intro: sup_inv_init sup_inv_step)

section \<open>Termination once the child has exited\<close>

text \<open>
  A measure of the supervisor's remaining work when nothing new happens: every call
  that is not an interrupted wait makes it smaller, and while the child waits to be reaped a
  call can return.
\<close>

fun sv_rank :: "svpc \<Rightarrow> nat" where
  "sv_rank At_waitpid = 1"
| "sv_rank At_sigwait = 0"
| "sv_rank (At_kill s) = 2"
| "sv_rank _ = 0"

definition sv_work :: "kern \<times> svpc \<Rightarrow> nat" where
  "sv_work s = 2 * length (zombies (fst s)) + 3 * card (pending (fst s)) + sv_rank (snd s)"

definition sv_intr :: "sv_event \<Rightarrow> bool" where
  "sv_intr e \<longleftrightarrow> (\<exists>sigs a. e = Called (Sigwaitinfo sigs) a \<and> ret a < 0)"

lemma code_enabled:
  "answers_call k c a k' \<Longrightarrow> sv_call child pg pc = Some c \<Longrightarrow> \<not> sv_intr (Called c a) \<Longrightarrow>
   \<exists>c a k'. sup_step child pg (k, pc) (Called c a) (k', sv_next child pc a) \<and> \<not> sv_intr (Called c a)"
  by (blast intro: sup_step.code)

lemma sv_progress:
  assumes inv: "sup_inv child es (k, pc)" and z: "child \<in> fst ` set (zombies k)" and pc: "\<And>c. pc \<noteq> Finished c"
  shows "\<exists>c a k'. sup_step child pg (k, pc) (Called c a) (k', sv_next child pc a) \<and> \<not> sv_intr (Called c a)"
proof (cases pc)
  case At_waitpid
  obtain st where st: "(child, st) \<in> set (zombies k)" using z by auto
  let ?a = "\<lparr>ret = child, err = EINTR, wstatus = st, st_dev = 0, st_ino = 0, data = [], fd0 = 0, fd1 = 0\<rparr>"
  have "answers_call k (Waitpid (- 1) [WNOHANG]) ?a (k\<lparr>zombies := remove1 (child, st) (zombies k)\<rparr>)"
    using answers_call.reaped [of ?a k] st by simp
  then show ?thesis by (rule code_enabled) (simp_all add: At_waitpid sv_intr_def)
next
  case At_sigwait
  let ?a = "\<lparr>ret = SIGCHLD, err = EINTR, wstatus = 0, st_dev = 0, st_ino = 0, data = [], fd0 = 0, fd1 = 0\<rparr>"
  have "SIGCHLD \<in> pending k" using inv z At_sigwait by (auto simp: sup_inv_def)
  then have "answers_call k (Sigwaitinfo wait_signals) ?a (k\<lparr>pending := pending k - {SIGCHLD}\<rparr>)"
    using answers_call.signal [of ?a k wait_signals] by (simp add: wait_signals_def)
  then show ?thesis by (rule code_enabled) (simp_all add: At_sigwait sv_intr_def)
next
  case (At_kill sig)
  let ?a = "\<lparr>ret = 0, err = EINTR, wstatus = 0, st_dev = 0, st_ino = 0, data = [], fd0 = 0, fd1 = 0\<rparr>"
  have "answers_call k (Kill (if pg then - child else child) sig) ?a k"
    using answers_call.killed by simp
  then show ?thesis by (rule code_enabled) (simp_all add: At_kill sv_intr_def)
qed (use inv pc in \<open>auto simp: sup_inv_def\<close>)

lemma sv_decreases:
  assumes inv: "sup_inv child es (k, pc)" and fin: "finite (pending k)"
    and st: "sup_step child pg (k, pc) (Called c a) s'" and "\<not> sv_intr (Called c a)"
  shows "sv_work s' < sv_work (k, pc)"
  using st
proof (cases rule: sup_step.cases)
  case (code k')
  show ?thesis
    using code(3)
  proof (cases rule: answers_call.cases)
    case reaped
    then have pc: "pc = At_waitpid" using code(2) by (cases pc) auto
    have "0 < length (zombies k)" "0 < ret a" using inv reaped by (auto simp: sup_inv_def)
    then show ?thesis using reaped pc code(1) by (auto simp: sv_work_def length_remove1)
  next
    case none
    then have "pc = At_waitpid" using code(2) by (cases pc) auto
    then show ?thesis using none code(1) by (simp add: sv_work_def)
  next
    case no_child
    then have "pc = At_waitpid" using code(2) by (cases pc) auto
    then show ?thesis using no_child inv by (auto simp: sup_inv_def)
  next
    case (signal sigs)
    then have pc: "pc = At_sigwait" "sigs = wait_signals" using code(2) by (cases pc; auto)+
    then have "0 < ret a" using signal wait_signals_pos by simp
    moreover have "0 < card (pending k)" using signal fin by (auto simp: card_gt_0_iff)
    ultimately show ?thesis using signal fin pc code(1) by (auto simp: sv_work_def card_Diff_singleton)
  next
    case (interrupted sigs)
    then show ?thesis using assms(4) by (simp add: sv_intr_def)
  next
    case (killed p sig)
    then obtain s where "pc = At_kill s" using code(2) by (cases pc) auto
    then show ?thesis using killed code(1) by (auto simp: sv_work_def)
  qed
qed

lemma code_keeps_zombie:
  assumes inv: "sup_inv child es (k, pc)" and st: "sup_step child pg (k, pc) (Called c a) (k', pc')"
    and fin: "\<And>code. pc' \<noteq> Finished code" and z: "child \<in> fst ` set (zombies k)" "finite (pending k)"
  shows "child \<in> fst ` set (zombies k') \<and> finite (pending k')"
  using st
proof (cases rule: sup_step.cases)
  case code
  show ?thesis
    using code(3)
  proof (cases rule: answers_call.cases)
    case reaped
    then have "pc = At_waitpid" using code(2) by (cases pc) auto
    moreover have "0 < ret a" using inv reaped by (auto simp: sup_inv_def)
    ultimately have "ret a \<noteq> child" using fin [of "exit_status (wstatus a)"] code(1) by auto
    then show ?thesis using reaped z(2) in_remove1_fst [OF z(1), of "ret a" "wstatus a"] by auto
  qed (use z in auto)
qed

lemma sv_returns:
  assumes "sup_inv child es (k, pc)" and "child \<in> fst ` set (zombies k)" and "finite (pending k)"
    and "\<And>c. pc \<noteq> Finished c"
  shows "\<exists>fs k' code. runs (sup_step child pg) (k, pc) fs (k', Finished code) \<and> length fs \<le> sv_work (k, pc)"
  using assms
proof (induction "sv_work (k, pc)" arbitrary: es k pc rule: less_induct)
  case less
  obtain c a k1 where st: "sup_step child pg (k, pc) (Called c a) (k1, sv_next child pc a)" "\<not> sv_intr (Called c a)"
    using sv_progress [OF less.prems(1,2,4)] by blast
  let ?pc = "sv_next child pc a"
  have lt: "sv_work (k1, ?pc) < sv_work (k, pc)" by (rule sv_decreases [OF less.prems(1,3) st])
  show ?case
  proof (cases "\<exists>code. ?pc = Finished code")
    case True
    then obtain code where "?pc = Finished code" by blast
    then show ?thesis using runs_one [of "sup_step child pg", OF st(1)] lt by (intro exI [of _ "[Called c a]"]) auto
  next
    case False
    then have z: "child \<in> fst ` set (zombies k1)" "finite (pending k1)"
      using code_keeps_zombie [OF less.prems(1) st(1) _ less.prems(2,3)] by auto
    have "sup_inv child (es @ [Called c a]) (k1, ?pc)" by (rule sup_inv_step [OF less.prems(1) st(1)])
    from less.hyps [OF lt this z] False obtain fs k' code where
      "runs (sup_step child pg) (k1, ?pc) fs (k', Finished code)" "length fs \<le> sv_work (k1, ?pc)"
      by blast
    then show ?thesis using runs_Cons [of "sup_step child pg", OF st(1)] lt by (intro exI [of _ "Called c a # fs"]) fastforce
  qed
qed

lemma sup_pending_finite:
  assumes "runs (sup_step child pg) s es s'" and "sup_init child s"
  shows "finite (pending (fst s'))"
  using assms
proof (induction rule: runs.induct)
  case (more s es s' e s'')
  from more.hyps(2) more.IH [OF more.prems] show ?case
    by (cases rule: sup_step.cases) (auto elim: answers_call.cases)
qed (simp add: sup_init_def)

end
