(* ===== verification/Runtime_Theorems.thy ===== *)
theory Runtime_Theorems
  imports Runtime_Launch Runtime_Supervisor
begin

text \<open>
  The properties of the container launcher. The witnesses run its programs on lists of
  answers of a kernel on which everything succeeds and the command exits with status 3.
\<close>

definition ok :: "int \<Rightarrow> answer" where
  "ok r = \<lparr>ret = r, err = EINVAL, wstatus = 768, st_dev = 1, st_ino = 2, data = ''1'', fd0 = 5, fd1 = 6\<rparr>"

definition demo_container :: container where
  "demo_container = \<lparr>root_fd = 3, root_path = ''/r'', parent_fd = 4, ready0 = 5, ready1 = 6, command = [''/c'']\<rparr>"

text \<open>The setup of the container, a fork that returns 7, and the report that process 7 exited with 3.\<close>

definition demo_setup_answers :: "answer list" where
  "demo_setup_answers = map ok [0, 0, 0, 0, 1, 0, 1, 0, 9, 0, 0, 0, 0, 0, 0, 0, 0, 0, 0, 0, 1, 0, - 1, 0, 0]"

definition demo_container_answers :: "answer list" where
  "demo_container_answers = demo_setup_answers @ map ok [7, 0, 7]"

lemma demo_container_run:
  "snd (run_container demo_container demo_container_answers) = ([], Done 3)"
  "Fork \<in> set (calls (fst (run_container demo_container demo_container_answers)))"
  by code_simp+

section \<open>The container\<close>

text \<open>C2. A command is only ever started in a confined process: if PID 1 of the container forks,
  execs or clones, its run begins with the complete setup, every call of it successful and in order (the launcher's
  signal, private mounts, the verified rootfs bound, a fresh \<^verbatim>\<open>/proc\<close>, the old root detached, descriptors
  closed, capabilities dropped); and if it starts nothing, it still waits or exits with 125.\<close>

theorem command_only_confined:
  assumes "run_container c as = (t, as', r)"
  shows "if \<exists>x\<in>set (calls t). starts_process x
    then \<exists>s e u. t = s @ e # u \<and> confined c s \<and> call_of e = [Fork]
    else r = Waiting \<or> r = Exited 125"
proof -
  have "\<exists>e v. u = e # v \<and> call_of e = [Fork]" if "command_phase c u r" for u
    using that by (auto simp: command_phase_def)
  moreover have "\<exists>x\<in>set (calls (s @ e # u)). starts_process x" if "call_of e = [Fork]" for s e u
    using that by (simp add: starts_process_def)
  ultimately show ?thesis
    using all_runsD [OF run_container_run assms] by (metis (no_types, lifting))
qed

theorem command_only_confined_witness:
  "\<exists>s e u. fst (run_container demo_container demo_container_answers) = s @ e # u \<and> confined demo_container s \<and> call_of e = [Fork]"
proof -
  obtain t as' r where r: "run_container demo_container demo_container_answers = (t, as', r)" by (metis prod.exhaust)
  moreover have "\<exists>x\<in>set (calls t). starts_process x"
    using demo_container_run(2) r by (auto simp: starts_process_def)
  ultimately show ?thesis using command_only_confined [OF r] by simp
qed

text \<open>C28. The command child: it makes its calls in the order process group, default handling of each forwarded
  signal and of \<open>SIGPIPE\<close>, unblocked signals, \<open>execv\<close>. It goes on only while every call succeeds. The
  command replaces it with exactly the given path and arguments when all have; otherwise the first call that fails is the last one made
  and its error is printed, and the exit code is 127 when \<open>execv\<close> does not find the command, 126 when it fails otherwise, and 125 for any
  call before.\<close>

theorem command_child_codes:
  assumes "command_child c as = (t, as', r)"
  defines "child \<equiv> [Setpgid 0 0, Sigaction SIGINT SIG_DFL, Sigaction SIGTERM SIG_DFL, Sigaction SIGHUP SIG_DFL,
      Sigaction SIGQUIT SIG_DFL, Sigaction SIGPIPE SIG_DFL, Sig_unblock wait_signals,
      Execv (hd (command c)) (command c)]"
  shows "calls t = take (length (calls t)) child \<and>
    (case r of
       Replaced path argv \<Rightarrow> calls t = child \<and> list_all succeeded t \<and> path = hd (command c) \<and> argv = command c
     | Exited code \<Rightarrow> \<exists>s x a op. t = s @ [Call x a, Message op (Some (err a))] \<and> list_all succeeded s \<and> ret a < 0 \<and>
         code = (if x = Execv (hd (command c)) (command c) then if err a = ENOENT then 127 else 126 else 125)
     | Waiting \<Rightarrow> \<exists>s x. t = s @ [Pending x] \<and> list_all succeeded s
     | Done x \<Rightarrow> False)"
proof -
  have child: "child_calls c = child" by (simp add: child_calls_def child_def forwarded_signals_def)
  note * = all_runsD [OF command_child_run assms(1), unfolded child_result_def child]
  show ?thesis
  proof (cases r)
    case (Exited code)
    then obtain x a op where x: "drop (length t - 2) t = [Call x a, Message op (Some (err a))]" "ret a < 0"
      "list_all succeeded (take (length t - 2) t)"
      "code = (if x \<noteq> Execv (hd (command c)) (command c) then 125 else if err a = ENOENT then 127 else 126)"
      using * by auto
    then have "t = take (length t - 2) t @ [Call x a, Message op (Some (err a))]"
      using append_take_drop_id [of "length t - 2" t] by simp
    then have "\<exists>s x a op. t = s @ [Call x a, Message op (Some (err a))] \<and> list_all succeeded s \<and> ret a < 0 \<and>
        code = (if x = Execv (hd (command c)) (command c) then if err a = ENOENT then 127 else 126 else 125)"
      using x(2-4) by (intro exI [of _ "take (length t - 2) t"] exI [of _ x] exI [of _ a] exI [of _ op]) auto
    then show ?thesis using * Exited by simp
  next
    case Waiting
    then obtain x where x: "drop (length t - 1) t = [Pending x]" "list_all succeeded (butlast t)" using * by auto
    then have "t = butlast t @ [Pending x]"
      using append_take_drop_id [of "length t - 1" t] by (simp add: butlast_conv_take)
    then show ?thesis using * Waiting x(2) by auto
  qed (use * in auto)
qed

theorem command_child_codes_witness:
  "\<exists>s x a op. fst (command_child demo_container (map ok [0, 0, 0, 0, 0, 0, 0, - 1]) :: entry list \<times> answer list \<times> int outcome) =
      s @ [Call x a, Message op (Some (err a))] \<and> list_all succeeded s \<and> ret a < 0 \<and>
    126 = (if x = Execv ''/c'' [''/c''] then if err a = ENOENT then 127 else 126 else (125 :: int))"
proof -
  let ?x = "command_child demo_container (map ok [0, 0, 0, 0, 0, 0, 0, - 1]) :: entry list \<times> answer list \<times> int outcome"
  have "snd (snd ?x) = Exited 126" by code_simp
  then have r: "?x = (fst ?x, fst (snd ?x), Exited 126)" by (metis prod.collapse)
  show ?thesis using command_child_codes [OF r] by (simp add: demo_container_def)
qed

text \<open>C23. The capability bounding set: when the setup of the container is complete and the kernel knows
  the capabilities below \<open>ncaps\<close> (it answers the read of every other one with an error), each of them has been dropped
  with success, and then all process capabilities and the right to gain new ones.\<close>

theorem bounding_set_emptied:
  assumes "run_container c as = (t, as', r)" and "Fork \<in> set (calls t)"
    and "\<And>i a. Call (Capbset_read i) a \<in> set t \<Longrightarrow> ret a < 0 \<longleftrightarrow> ncaps \<le> i" and "0 \<le> i" and "i < ncaps"
  shows "\<exists>s b v. t = s @ v \<and> Fork \<notin> set (calls s) \<and> Call (Capbset_drop i) b \<in> set s \<and> 0 \<le> ret b \<and>
    (\<exists>s'. calls s = s' @ [Capset_empty, No_new_privs])"
proof -
  have "starts_process Fork" by (simp add: starts_process_def)
  then obtain s u where t: "t = s @ u" "confined c s" "\<forall>x\<in>set (calls s). \<not> starts_process x"
    using all_runsD [OF run_container_run assms(1)] assms(2) by blast
  obtain p v w where s: "s = p @ v @ w" "bounding_done 0 v" "calls w = [Capset_empty, No_new_privs]"
    using t(2) unfolding confined_def by (metis append_assoc)
  obtain n a where n: "\<forall>i<n. \<exists>a b. Call (Capbset_read (int i)) a \<in> set v \<and> 0 \<le> ret a \<and>
      Call (Capbset_drop (int i)) b \<in> set v \<and> 0 \<le> ret b" "Call (Capbset_read (int n)) a \<in> set v" "ret a < 0"
    using s(2) by (auto simp: bounding_done_def)
  have "ncaps \<le> int n" using assms(3) [of "int n" a] n(2,3) t(1) s(1) by auto
  then obtain b where "Call (Capbset_drop i) b \<in> set v" "0 \<le> ret b"
    using n(1) assms(4,5) by (metis nat_0_le nat_less_iff order.strict_trans2)
  moreover have "Fork \<notin> set (calls s)" using t(3) by (auto simp: starts_process_def)
  ultimately show ?thesis using t(1) s by (intro exI [of _ s] exI [of _ b] exI [of _ u]) auto
qed

fun caps_known :: "int \<Rightarrow> entry \<Rightarrow> bool" where
  "caps_known n (Call (Capbset_read i) a) \<longleftrightarrow> (ret a < 0 \<longleftrightarrow> n \<le> i)"
| "caps_known n _ \<longleftrightarrow> True"

theorem bounding_set_emptied_witness:
  "\<exists>s b v. fst (run_container demo_container demo_container_answers) = s @ v \<and> Fork \<notin> set (calls s) \<and>
    Call (Capbset_drop 0) b \<in> set s \<and> 0 \<le> ret b \<and> (\<exists>s'. calls s = s' @ [Capset_empty, No_new_privs])"
proof -
  let ?t = "fst (run_container demo_container demo_container_answers)"
  have "list_all (caps_known 1) ?t" by code_simp
  then have "ret a < 0 \<longleftrightarrow> 1 \<le> i" if "Call (Capbset_read i) a \<in> set ?t" for i a
    using that unfolding list_all_iff by fastforce
  then show ?thesis
    by (intro bounding_set_emptied [of demo_container demo_container_answers ?t "[]" "Done 3" 1 0])
      (use demo_container_run prod.collapse [of "run_container demo_container demo_container_answers"] in auto)
qed

section \<open>The supervisor\<close>

text \<open>C18. Signals are forwarded: every signal the supervisor receives other than SIGCHLD is sent on, in
  order and nothing else is sent, to the child itself or, for PID 1, to the command's process group.\<close>

theorem supervise_forwards:
  assumes "supervise child process_group as = (t, as', r)"
  shows "killed t = map (Pair (if process_group then - child else child)) (received t)"
  using sv_forwards(1) assms by (simp add: supervise_def)

theorem supervise_forwards_witness:
  "killed (fst (supervise 7 True (map ok [0, 15, 0, 4, 0, 17, 7]))) = [(- 7, 15)]"
proof -
  have "received (fst (supervise 7 True (map ok [0, 15, 0, 4, 0, 17, 7]))) = [15]" by code_simp
  then show ?thesis
    using supervise_forwards [of 7 True "map ok [0, 15, 0, 4, 0, 17, 7]" "fst (supervise 7 True (map ok [0, 15, 0, 4, 0, 17, 7]))"]
    by (metis (no_types, lifting) list.map(1) list.map(2) prod.collapse)
qed

text \<open>C29. The result of the supervisor is the exit status of its child at the first report of it. It
  fails, with 125 and a message, exactly at the first call that is answered with an error it does not tolerate (\<open>waitpid\<close> and
  \<open>sigwaitinfo\<close> other than \<open>EINTR\<close>, \<open>kill\<close> other than \<open>ESRCH\<close>), and with that error in the message; until one of the
  two happens it waits.\<close>

theorem supervise_result:
  assumes "supervise child process_group as = (t, as', r)" and "0 < child"
  shows "case r of
      Done code \<Rightarrow> \<exists>t' a. t = t' @ [Call (Waitpid (- 1) [WNOHANG]) a] \<and> ret a = child \<and>
        code = exit_status (wstatus a) \<and> (\<forall>e\<in>set t'. \<not> reaps child e \<and> \<not> sv_fatal e)
    | Exited code \<Rightarrow> code = 125 \<and> (\<forall>e\<in>set t. \<not> reaps child e) \<and>
        (\<exists>t' x a op. t = t' @ [Call x a, Message op (Some (err a))] \<and> sv_fatal (Call x a) \<and> (\<forall>e\<in>set t'. \<not> sv_fatal e))
    | Replaced path argv \<Rightarrow> False
    | Waiting \<Rightarrow> (\<forall>e\<in>set t. \<not> reaps child e \<and> \<not> sv_fatal e) \<and> (\<exists>t' c. t = t' @ [Pending c])"
  using sv_results(1) [of child process_group as t as' r] assms by (simp add: supervise_def sv_result_def)

theorem supervise_result_witness:
  "(\<exists>t' a. fst (supervise 7 True (map ok [4, 7])) = t' @ [Call (Waitpid (- 1) [WNOHANG]) a] \<and> ret a = 7 \<and>
     3 = exit_status (wstatus a) \<and> (\<forall>e\<in>set t'. \<not> reaps 7 e \<and> \<not> sv_fatal e)) \<and>
   (\<exists>t' x a op. fst (supervise 7 True (map ok [0, - 1])) = t' @ [Call x a, Message op (Some (err a))] \<and> sv_fatal (Call x a))"
proof -
  have "snd (supervise 7 True (map ok [4, 7])) = ([], Done 3)" "snd (supervise 7 True (map ok [0, - 1])) = ([], Exited 125)"
    by code_simp+
  then have a: "supervise 7 True (map ok [4, 7]) = (fst (supervise 7 True (map ok [4, 7])), [], Done 3)"
    and b: "supervise 7 True (map ok [0, - 1]) = (fst (supervise 7 True (map ok [0, - 1])), [], Exited 125)"
    by (metis prod.collapse)+
  show ?thesis using supervise_result [OF a] supervise_result [OF b] by simp blast
qed

text \<open>C4. No exit is missed: in every interleaving with exiting children, arriving signals and adopted
  orphans, the program ends as the machine of its system calls stands; when the supervisor is in \<open>sigwaitinfo\<close> with no signal pending, then no exited child waits to be reaped, and its own
  child is still alive; it never fails; and when it has returned, the value is the exit status the kernel recorded for its
  child.\<close>

theorem no_lost_wakeup:
  assumes "runs (sup_step child pg) s es (k, pc)" and "sup_init child s"
  shows "snd (snd (supervise child pg (sv_answers es))) = sv_outcome pc \<and>
    pc \<noteq> Died \<and> (pc = At_sigwait \<and> pending k = {} \<longrightarrow> zombies k = [] \<and> child \<in> alive k) \<and>
    (\<forall>code. pc = Finished code \<longrightarrow> (\<exists>st. (child, st) \<in> set (exited k) \<and> code = exit_status st))"
  using sup.inv_runs [OF assms] supervise_follows [OF assms] by (auto simp: sup_inv_def)

definition demo_kernel :: kern where
  "demo_kernel = \<lparr>alive = {7}, zombies = [], pending = {}, exited = []\<rparr>"

lemma demo_sup_init: "sup_init 7 (demo_kernel, At_waitpid)"
  by (simp add: sup_init_def demo_kernel_def)

lemma demo_sup_sleeps: "runs (sup_step 7 True) (demo_kernel, At_waitpid) [Called (Waitpid (- 1) [WNOHANG]) (ok 0)] (demo_kernel, At_sigwait)"
proof -
  have "answers_call demo_kernel (Waitpid (- 1) [WNOHANG]) (ok 0) demo_kernel"
    by (rule answers_call.none) (simp_all add: demo_kernel_def ok_def)
  from sup_step.code [of 7 True At_waitpid, OF _ this] show ?thesis
    by (intro runs_one) (simp add: ok_def)
qed

theorem no_lost_wakeup_witness: "zombies demo_kernel = [] \<and> 7 \<in> alive demo_kernel"
  using no_lost_wakeup [OF demo_sup_sleeps demo_sup_init] by (simp add: demo_kernel_def)





section \<open>The launcher\<close>

text \<open>C9. The exit status survives both supervisors: if the launcher's supervisor is told that PID 1 exited
  with what PID 1 returned, then the launcher's result is the command's exit code, or 128 plus the number of the
  signal that killed it, with or without a core dump.\<close>

theorem status_end_to_end:
  assumes "run_container c as = (t, as', Done code)" and "supervise pid1 False bs = (u, bs', Done result)" and "0 < pid1"
    and "\<And>a. Call (Waitpid (- 1) [WNOHANG]) a \<in> set u \<Longrightarrow> ret a = pid1 \<Longrightarrow> wstatus a = W_EXITCODE code 0"
  shows "\<exists>f a. Call Fork f \<in> set t \<and> Call (Waitpid (- 1) [WNOHANG]) a \<in> set t \<and> ret a = ret f \<and>
    (\<forall>n. wstatus a = W_EXITCODE n 0 \<and> 0 \<le> n \<and> n \<le> 255 \<longrightarrow> result = n) \<and>
    (\<forall>sig core. wstatus a = W_EXITCODE 0 (sig + (if core then 128 else 0)) \<and> 0 < sig \<and> sig < 128 \<longrightarrow> result = 128 + sig)"
proof -
  obtain s v where t: "t = s @ v" "command_phase c v (Done code)"
    using all_runsD [OF run_container_run assms(1)] by auto
  then obtain f b w where v: "v = Call Fork f # Call (Setpgid (ret f) (ret f)) b # w" "sv_result (ret f) w (Done code)"
    by (auto simp: command_phase_def child_result_def)
  then obtain a where a: "Call (Waitpid (- 1) [WNOHANG]) a \<in> set w" "ret a = ret f" "code = exit_status (wstatus a)"
    using sv_result_Done by blast
  have "sv_result pid1 u (Done result)" using sv_results(1) [of pid1 False bs u bs' "Done result"] assms(2,3) by (simp add: supervise_def)
  then have "result = exit_status (W_EXITCODE code 0)" using assms(4) by (auto simp: sv_result_def)
  then have "result = exit_status (wstatus a)" using a(3) exit_status_relayed by simp
  then show ?thesis
    using t(1) v(1) a(1,2) exit_status_exited exit_status_killed
    by (intro exI [where x = f] exI [where x = a] conjI allI impI) auto
qed

theorem status_end_to_end_witness:
  "\<exists>f a. Call Fork f \<in> set (fst (run_container demo_container demo_container_answers)) \<and>
    Call (Waitpid (- 1) [WNOHANG]) a \<in> set (fst (run_container demo_container demo_container_answers)) \<and> ret a = ret f \<and>
    (\<forall>n. wstatus a = W_EXITCODE n 0 \<and> 0 \<le> n \<and> n \<le> 255 \<longrightarrow> (3::int) = n) \<and>
    (\<forall>sig core. wstatus a = W_EXITCODE 0 (sig + (if core then 128 else 0)) \<and> 0 < sig \<and> sig < 128 \<longrightarrow> 3 = 128 + sig)"
proof (rule status_end_to_end)
  show "run_container demo_container demo_container_answers =
      (fst (run_container demo_container demo_container_answers), [], Done 3)"
    using demo_container_run(1) by (metis prod.collapse)
  show "supervise 9 False [ok 9] = ([Call (Waitpid (- 1) [WNOHANG]) (ok 9)], [], Done 3)" by code_simp
  show "wstatus a = W_EXITCODE 3 0" if "Call (Waitpid (- 1) [WNOHANG]) a \<in> set [Call (Waitpid (- 1) [WNOHANG]) (ok 9)]" for a
    using that by (simp add: ok_def W_EXITCODE_def)
qed simp

definition demo_launch_answers :: "answer list" where
  "demo_launch_answers = map ok [0, 0, 0, 5, 5, 8, 4, 0, 8, 6, 0, 8, 6, 0, 1, 0, 9]"

lemma demo_launch_run:
  "snd (launch demo_container 9 demo_launch_answers) = ([], Done 3)"
  "Write 6 ''1'' \<in> set (calls (fst (launch demo_container 9 demo_launch_answers)))"
  by code_simp+



text \<open>C39. The paths and maps the launcher formats fit their buffers of 64 bytes, for every process id and
  every user or group id.\<close>

theorem maps_not_truncated:
  assumes "0 < child" and "child < 2 ^ 31" and "i < 2 ^ 64"
  shows "map_path child ''setgroups'' = ''/proc/'' @ show_dec (nat child) @ ''/setgroups'' \<and>
    map_path child ''uid_map'' = ''/proc/'' @ show_dec (nat child) @ ''/uid_map'' \<and>
    map_path child ''gid_map'' = ''/proc/'' @ show_dec (nat child) @ ''/gid_map'' \<and>
    id_map i = ''0 '' @ show_dec i @ '' 1'' @ [LF]"
  using map_path_eq [OF assms(1,2)] id_map_eq [OF assms(3)] by simp

theorem maps_not_truncated_witness: "id_map 1000 = ''0 '' @ show_dec 1000 @ '' 1'' @ [LF]"
  using maps_not_truncated [of 1 1000] by simp

text \<open>C30. The launcher creates a process only after all its checks: an absolute command, an unprivileged
  user without set-user-id or set-group-id, open standard descriptors, a rootfs other than the host's root with a
  real \<^verbatim>\<open>proc\<close> directory, the supervisor's signals blocked, \<open>SIGCHLD\<close> reset and \<open>SIGPIPE\<close> ignored; and when it creates
  none, it waits or ends with 125, or with 0 for help.\<close>

theorem launcher_checks_first:
  assumes "runtime_main argv as = (t, as', r)"
  shows "if \<exists>x\<in>set (calls t). starts_process x
    then \<exists>s e u c. t = s @ e # u \<and> prepared argv c s \<and> (\<forall>x\<in>set (calls s). \<not> starts_process x) \<and>
      call_of e = [Clone [CLONE_NEWUSER, CLONE_NEWNS, CLONE_NEWPID, CLONE_SIGCHLD]]
    else r = Waiting \<or> r = Exited 125 \<or> r = Done 125 \<or> r = Done 0 \<and> argv ! 1 = ''--help''"
proof -
  have "\<exists>x\<in>set (calls (s @ e # u)). starts_process x"
    if "call_of e = [Clone [CLONE_NEWUSER, CLONE_NEWNS, CLONE_NEWPID, CLONE_SIGCHLD]]" for s e u
    using that by (simp add: starts_process_def)
  then show ?thesis
    using all_runsD [OF runtime_main_run assms] unfolding main_result_def by (metis (no_types, lifting))
qed

definition demo_main_answers :: "answer list" where
  "demo_main_answers = map ok [5, 5, 5, 5, 5, 0, 0, 0, 1, 3, 0] @ [(ok 0)\<lparr>st_ino := 9\<rparr>] @
     map ok [4, 0, 0, 0, 0, 0, 0, 0, 0, 2, 4, 0, 1, 9] @ demo_launch_answers"

theorem launcher_checks_first_witness:
  "\<exists>s e u c. fst (runtime_main [''runtime'', ''/r'', ''/c''] demo_main_answers) = s @ e # u \<and> prepared [''runtime'', ''/r'', ''/c''] c s \<and>
    (\<forall>x\<in>set (calls s). \<not> starts_process x) \<and> call_of e = [Clone [CLONE_NEWUSER, CLONE_NEWNS, CLONE_NEWPID, CLONE_SIGCHLD]]"
proof -
  let ?x = "runtime_main [''runtime'', ''/r'', ''/c''] demo_main_answers"
  have "Clone [CLONE_NEWUSER, CLONE_NEWNS, CLONE_NEWPID, CLONE_SIGCHLD] \<in> set (calls (fst ?x))" by code_simp
  then have "\<exists>x\<in>set (calls (fst ?x)). starts_process x" by (auto simp: starts_process_def)
  moreover have "?x = (fst ?x, fst (snd ?x), snd (snd ?x))" by simp
  ultimately show ?thesis using launcher_checks_first [of "[''runtime'', ''/r'', ''/c'']" demo_main_answers "fst ?x"] by metis
qed

end
