(* ===== verification/Runtime_System_Theorems.thy ===== *)
theory Runtime_System_Theorems
  imports Runtime_System Runtime_Theorems
begin

text \<open>
  Properties of the launcher and PID 1 running together, in every interleaving. The witnesses run two
  schedules: one in which the launcher maps the user and PID 1 starts, and one in which the launcher is killed at once.
\<close>

definition demo_start :: "(who \<times> answer option) list" where
  "demo_start = (Pid1, Some (ok 0)) # map (\<lambda>a. (Launcher, Some a)) (take 15 demo_launch_answers) @
     map (\<lambda>a. (Pid1, Some (ok a))) [0, 0, 0, 1, 0, 1]"

definition demo_orphan :: "(who \<times> answer option) list" where
  "demo_orphan = [(Pid1, Some (ok 0)), (Launcher, None), (Pid1, Some (ok 0)), (Pid1, Some (ok 1))]"

lemma demo_start_run:
  "\<exists>es s. run_schedule demo_container 9 demo_start pair_init = Some (es, s) \<and> Did Pid1 Setsid (ok 1) \<in> set es"
proof -
  have "map_option (\<lambda>(es, s). Did Pid1 Setsid (ok 1) \<in> set es) (run_schedule demo_container 9 demo_start pair_init) = Some True"
    by code_simp
  then show ?thesis by auto
qed

lemma demo_orphan_run:
  "\<exists>es s. run_schedule demo_container 9 demo_orphan pair_init = Some (es, s) \<and> \<not> l_alive s \<and> p_alive s \<and>
    length (did Pid1 es) = 3"
proof -
  have "map_option (\<lambda>(es, s). \<not> l_alive s \<and> p_alive s \<and> length (did Pid1 es) = 3)
      (run_schedule demo_container 9 demo_orphan pair_init) = Some True"
    by code_simp
  then show ?thesis by auto
qed

text \<open>C16. The start-up handshake: in every interleaving of the launcher and PID 1, whatever PID 1 does
  beyond its start-up calls (a session, mounts, the command) happens after the launcher has written
  \<^verbatim>\<open>setgroups\<close> and the maps of the launcher's own user and group to the new user namespace, each in full and in this order.\<close>

theorem startup_handshake:
  assumes "runs (pair_step c child) pair_init es s" and "0 < child"
    and "Did Pid1 x a \<in> set es" and "x \<notin> set (await_calls c)"
  shows "\<exists>es1 es2 l m1 m2 m3 k u g. es = es1 @ es2 \<and>
    (\<forall>y b. Did Pid1 y b \<in> set es1 \<longrightarrow> y \<in> set (await_calls c)) \<and>
    did Launcher es1 = l @ m1 @ m2 @ m3 @ k \<and> (Getuid, u) \<in> set l \<and> (Getgid, g) \<in> set l \<and>
    map_done child ''setgroups'' ''deny'' m1 \<and> map_done child ''uid_map'' (id_map (nat (ret u))) m2 \<and>
    map_done child ''gid_map'' (id_map (nat (ret g))) m3"
proof -
  obtain es1 es2 v where es: "es = es1 @ es2" "runs (pair_step c child) pair_init es1 v" "pipe_bytes v \<noteq> []"
    "\<And>y b. Did Pid1 y b \<in> set es1 \<Longrightarrow> y \<in> set (await_calls c)"
    using handshake [OF assms] by metis
  from launcher_maps [OF pair.inv_runs [OF es(2) refl] assms(2) es(3)] es(1,4) show ?thesis by metis
qed

theorem startup_handshake_witness:
  "\<exists>es s es1 es2 l m1 m2 m3 k u. run_schedule demo_container 9 demo_start pair_init = Some (es, s) \<and> es = es1 @ es2 \<and>
    did Launcher es1 = l @ m1 @ m2 @ m3 @ k \<and> map_done 9 ''setgroups'' ''deny'' m1 \<and>
    map_done 9 ''uid_map'' (id_map (nat (ret (u :: answer)))) m2"
proof -
  obtain es s where es: "run_schedule demo_container 9 demo_start pair_init = Some (es, s)" "Did Pid1 Setsid (ok 1) \<in> set es"
    using demo_start_run by blast
  have new: "Setsid \<notin> set (await_calls demo_container)" by (simp add: await_calls_def)
  have pos: "0 < (9 :: int)" by simp
  show ?thesis
    using startup_handshake [OF run_schedule_runs [OF es(1)] pos es(2) new] es(1) by (elim exE conjE) (intro exI conjI, assumption)
qed

text \<open>C17. No orphan: in every interleaving, once the launcher is dead (killed at any point, or finished), PID 1
  is dead too, or it still is in its first three calls, has started nothing, and exits with 125 at the third: a launcher
  that died before PID 1 asked for the parent-death signal is noticed by the poll on the pidfd.\<close>

theorem no_orphan_container:
  assumes "runs (pair_step c child) pair_init es s" and "\<not> l_alive s" and "p_alive s"
  shows "set (calls (fst (run_container c (p_answers s)))) \<subseteq> {Close (ready1 c), Prctl_pdeathsig SIGKILL, Poll (parent_fd c)} \<and>
    length (did Pid1 es) \<le> 3 \<and>
    snd (snd (run_container c (p_answers s))) \<in> (if length (did Pid1 es) = 3 then {Exited 125} else {Waiting, Exited 125})"
proof -
  have "answered (fst (run_container c (p_answers s))) = did Pid1 es"
    using pair.inv_runs [OF assms(1) refl] by (simp add: pair_inv_def done_calls_def)
  then show ?thesis using orphan_stays [OF assms] by (auto simp: startup_only_def)
qed

theorem no_orphan_container_witness:
  "\<exists>es s. run_schedule demo_container 9 demo_orphan pair_init = Some (es, s) \<and>
    snd (snd (run_container demo_container (p_answers s))) = Exited 125"
proof -
  obtain es s where es: "run_schedule demo_container 9 demo_orphan pair_init = Some (es, s)"
    "\<not> l_alive s" "p_alive s" "length (did Pid1 es) = 3"
    using demo_orphan_run by blast
  from no_orphan_container [OF run_schedule_runs [OF es(1)] es(2,3)] es(1,4) show ?thesis by auto
qed

end
