(* ===== verification/Cache_Wire.thy ===== *)
theory Cache_Wire
  imports Cache_Session
begin

text \<open>
  The commands as a client writes them: \<open>print_cmd\<close> is the line of a command, and
  \<open>decode_line_print\<close> shows that the syntax accepted by the C code reads it back, with or without a carriage
  return. \<open>exchange\<close> follows one command through \<open>handle_client\<close>, however the network cuts it and
  however much of the reply the kernel takes.
\<close>

fun print_cmd :: "(string, string) cmd \<Rightarrow> string" where
  "print_cmd (Get k) = ''GET '' @ k"
| "print_cmd (Delete k) = ''DELETE '' @ k"
| "print_cmd (Set k ttl v) = ''SET '' @ k @ '' '' @ show_int ttl @ '' '' @ v"

section \<open>Round trip of the syntax\<close>

lemma split_space_append: "CHR '' '' \<notin> set a \<Longrightarrow> split_space (a @ CHR '' '' # b) = Some (a, b)"
  by (simp add: split_space_def find_index_append_first)

lemma key_ok_no_space: "key_ok k \<Longrightarrow> CHR '' '' \<notin> set k \<and> LF \<notin> set k \<and> CR \<notin> set k \<and> NUL \<notin> set k"
  by (auto simp: key_ok_def isspace_def)

lemma ttl_of_show: "ttl_ok ttl \<Longrightarrow> ttl_of (show_int ttl) = Some ttl"
  using show_dec_digits [of "nat ttl"] length_show_dec [of "nat ttl" 5]
  by (auto simp: ttl_of_def ttl_ok_def TTL_MAX_def show_int_def list_all_iff)

lemma show_ttl_chars: "ttl_ok ttl \<Longrightarrow> \<forall>c\<in>set (show_int ttl). isdigit c"
  using show_dec_digits [of "nat ttl"] by (auto simp: ttl_ok_def show_int_def)

lemma show_ttl_no_space: "ttl_ok ttl \<Longrightarrow> CHR '' '' \<notin> set (show_int ttl) \<and> LF \<notin> set (show_int ttl) \<and> NUL \<notin> set (show_int ttl)"
  using show_ttl_chars [of ttl] isdigit_not_sign isdigit_not_isspace by (fastforce simp: isspace_def)

lemma decode_print:
  assumes "cmd_ok key_ok ttl_ok value_ok c"
  shows "decode (print_cmd c) = Some c"
proof (cases c)
  case (Set k ttl v)
  then have k: "key_ok k" and t: "ttl_ok ttl" and v: "value_ok v" using assms by auto
  have "decode_set (k @ CHR '' '' # show_int ttl @ CHR '' '' # v) = Some c"
    using key_ok_no_space [OF k] show_ttl_no_space [OF t] ttl_of_show [OF t] k v
    by (simp add: decode_set_def split_space_append Set)
  then show ?thesis by (simp add: decode_def is_prefix_def Set)
qed (use assms in \<open>simp_all add: decode_def is_prefix_def\<close>)

lemma print_cmd_chars:
  assumes "cmd_ok key_ok ttl_ok value_ok c"
  shows "NUL \<notin> set (print_cmd c)" and "LF \<notin> set (print_cmd c)"
  using assms key_ok_no_space show_ttl_no_space by (cases c; auto simp: value_ok_def)+

text \<open>The syntax is read back with or without a carriage return, unless the value itself ends in one.\<close>

lemma decode_line_print:
  assumes "cmd_ok key_ok ttl_ok value_ok c"
  shows "decode_line (print_cmd c @ [CR]) = Some c"
    and "last (print_cmd c) \<noteq> CR \<Longrightarrow> decode_line (print_cmd c) = Some c"
  using assms decode_print print_cmd_chars(1) by (simp_all add: decode_line_def strip_cr_def)

lemma length_show_ttl: "ttl_ok ttl \<Longrightarrow> length (show_int ttl) \<le> 5"
  using length_show_dec [of "nat ttl" 5] by (auto simp: ttl_ok_def TTL_MAX_def show_int_def)

lemma length_print_cmd:
  assumes "cmd_ok key_ok ttl_ok value_ok c"
  shows "length (print_cmd c) \<le> KEY_MAX + VALUE_MAX + 12"
proof -
  show ?thesis using assms length_show_ttl by (cases c) (force simp: key_ok_def value_ok_def)+
qed

section \<open>One command on a connection\<close>

text \<open>Bytes without a newline change nothing.\<close>

lemma no_exchange:
  assumes "\<forall>c\<in>set cs. c \<noteq> [] \<and> length c \<le> RECV_BUF" and "LF \<notin> set (concat cs)"
    and "length (concat cs) + RECV_BUF \<le> LINE_MAX" and "store_inv st" and "clocks_ok w"
  shows "handle_client (map Received cs) w st = Some (w, st, Blocked)"
proof -
  have "lines_of (concat cs) = ([], concat cs)" by (rule lines_of_no_LF [OF assms(2)])
  then show ?thesis
    using client_spec_chunks [OF assms(1), of "[]"] handle_client_eq [OF assms(4,5)] assms(3)
    by (simp add: short_lines_def finish_def)
qed

lemma exchange:
  assumes cs: "\<forall>b\<in>set cs. b \<noteq> [] \<and> length b \<le> RECV_BUF" "concat cs = print_cmd c @ [LF]"
    and c: "cmd_ok key_ok ttl_ok value_ok c" "last (print_cmd c) \<noteq> CR"
    and st: "cstore.refines (ms_of ts) st m" and clk: "clk w = [ts]" "clock_ok ts"
  obtains w' st' r n where "handle_client (map Received cs) w st = Some (w', st', r)"
    and "out w' = out w @ take n (encode_reply (snd (spec_step STORE_CAP (ms_of ts) c m)))"
    and "cstore.refines (ms_of ts) st' (fst (spec_step STORE_CAP (ms_of ts) c m))"
    and "can_send w (length (encode_reply (snd (spec_step STORE_CAP (ms_of ts) c m)))) \<Longrightarrow>
      n = length (encode_reply (snd (spec_step STORE_CAP (ms_of ts) c m)))"
proof -
  let ?t = "ms_of ts" and ?l = "print_cmd c"
  let ?msg = "encode_reply (snd (spec_step STORE_CAP ?t c m))"
  have now: "now_ms ts = Some ?t" "time_ok ?t" using now_ms_of [OF clk(2)] by auto
  have inv: "store_inv st" "clocks_ok w" using st clk by (auto simp: cstore.refines_def clocks_ok_def)
  have lines: "lines_of (concat cs) = ([?l], [])"
    using lines_of_LF [of ?l "[]"] print_cmd_chars(2) [OF c(1)] by (simp add: cs(2) lines_of_no_LF)
  have "short_lines (concat cs)"
    using length_print_cmd [OF c(1)] by (simp add: short_lines_def lines KEY_MAX_def VALUE_MAX_def RECV_BUF_def LINE_MAX_def)
  then have hc: "handle_client (map Received cs) w st = finish (run_lines w st [?l])"
    using client_spec_chunks [OF cs(1), of "[]"] handle_client_eq [OF inv] lines by simp
  obtain st' where st': "exec_cmd store_get store_del store_set ?t c st = Some (st', snd (spec_step STORE_CAP ?t c m))"
    "cstore.refines ?t st' (fst (spec_step STORE_CAP ?t c m))"
    using cstore.step_refines [OF st c(1) now(2)] by blast
  have len: "length ?msg < VALUE_MAX + 32" using exec_cmd_ok [OF inv(1) now(2) c(1)] st'(1) by auto
  let ?w = "w\<lparr>clk := []\<rparr>"
  have run: "run_cmd w st (decode_line ?l) = reply ?w st' ?msg"
    using decode_line_print(2) [OF c] clk now(1) st'(1) by (simp add: run_cmd_def at_now_def)
  show thesis
  proof (cases "can_send w (length ?msg)")
    case True
    then have "can_send ?w (length ?msg + 0)" by (simp add: can_send_def)
    then obtain as where "reply ?w st' ?msg = Some (?w\<lparr>tx := as, out := out ?w @ ?msg\<rparr>, st', Returned 0)"
      by (rule reply_sends [OF _ len])
    then show thesis using that [of _ st' _ "length ?msg"] st'(2) run by (simp add: hc finish_def)
  next
    case False
    obtain as n x where rep: "reply ?w st' ?msg = Some (?w\<lparr>tx := as, out := out ?w @ take n ?msg\<rparr>, st', x)"
      using reply_Some [OF len, of ?w st'] by blast
    then have "\<exists>r. finish (run_lines w st [?l]) = Some (?w\<lparr>tx := as, out := out ?w @ take n ?msg\<rparr>, st', r)"
      using run by (cases x) (simp_all add: finish_def)
    then show thesis using that [of _ st' _ n] st'(2) False by (auto simp: hc)
  qed
qed

end
