(* ===== verification/Http_Cache.thy ===== *)
theory Http_Cache
  imports Cache_Wire
begin

text \<open>
  The HTTP server's use of the cache: \<open>CacheClient\<close> of \<^verbatim>\<open>http-server/cache_client.py\<close>, the
  application of \<^verbatim>\<open>http-server/application.py\<close> and \<open>respond_with_cache\<close> of \<^verbatim>\<open>http-server/server.py\<close>.

  A Python string is the list of its code points, a bytes object a list of characters; the type checks of the
  source are the types of the model. A \<open>CacheError\<close> is an \<open>Inl\<close>. The cache server is reached through \<open>net\<close>:
  it takes the state of the outside world and the bytes of a command, and returns the new state and
  all bytes received on that connection, or \<open>None\<close> for an \<open>OSError\<close> (connection refused, reset, or timeout).
\<close>

section \<open>The cache client\<close>

definition CLIENT_KEY_MAX :: nat where "CLIENT_KEY_MAX = 256"
definition CLIENT_VALUE_MAX :: nat where "CLIENT_VALUE_MAX = 4096"
definition CLIENT_TTL_MAX :: int where "CLIENT_TTL_MAX = 86400"
definition MAX_REPLY_SIZE :: nat where "MAX_REPLY_SIZE = CLIENT_VALUE_MAX + length ''VALUE '' + 1"

datatype cache_error =
    Key_not_ascii | Invalid_key | Invalid_value | Invalid_ttl
  | Request_failed | Malformed_reply | Unexpected_get_reply | Unexpected_set_reply

type_synonym pystr = "nat list"
type_synonym 's net = "'s \<Rightarrow> bytes \<Rightarrow> 's \<times> bytes option"

definition encode_ascii :: "pystr \<Rightarrow> bytes option" where
  "encode_ascii s = (if list_all (\<lambda>c. c < 128) s then Some (map char_of s) else None)"

definition encode_key :: "pystr \<Rightarrow> cache_error + bytes" where
  "encode_key key =
     (case encode_ascii key of
        None \<Rightarrow> Inl Key_not_ascii
      | Some encoded \<Rightarrow>
          if \<not> (0 < length encoded \<and> length encoded \<le> CLIENT_KEY_MAX) \<or>
             list_ex (\<lambda>b. (of_char b :: nat) \<le> 32) encoded
          then Inl Invalid_key else Inr encoded)"

definition encode_value :: "bytes \<Rightarrow> cache_error + bytes" where
  "encode_value v =
     (if \<not> (0 < length v \<and> length v \<le> CLIENT_VALUE_MAX) then Inl Invalid_value
      else if CR \<in> set v \<or> LF \<in> set v \<or> NUL \<in> set v then Inl Invalid_value
      else Inr v)"

text \<open>\<open>readline(limit)\<close> on the bytes of the connection: up to the first newline, at most \<open>limit\<close> bytes.\<close>

definition readline :: "nat \<Rightarrow> bytes \<Rightarrow> bytes" where
  "readline limit s =
     (case find_index (\<lambda>c. c = LF) s of None \<Rightarrow> take limit s | Some i \<Rightarrow> take limit (take (Suc i) s))"

definition client_command :: "'s net \<Rightarrow> 's \<Rightarrow> bytes \<Rightarrow> 's \<times> (cache_error + bytes)" where
  "client_command net s command =
     (case net s command of
        (s', None) \<Rightarrow> (s', Inl Request_failed)
      | (s', Some stream) \<Rightarrow>
          (let line = readline (MAX_REPLY_SIZE + 1) stream in
           (s', if length line > MAX_REPLY_SIZE \<or> \<not> (line \<noteq> [] \<and> last line = LF)
                then Inl Malformed_reply else Inr line)))"

definition client_get :: "'s net \<Rightarrow> 's \<Rightarrow> pystr \<Rightarrow> 's \<times> (cache_error + bytes option)" where
  "client_get net s key =
     (case encode_key key of
        Inl e \<Rightarrow> (s, Inl e)
      | Inr key \<Rightarrow>
          (case client_command net s (''GET '' @ key @ [LF]) of
             (s', Inl e) \<Rightarrow> (s', Inl e)
           | (s', Inr line) \<Rightarrow>
               (s', if line = NOT_FOUND_reply then Inr None
                    else if is_prefix ''VALUE '' line \<and> count_list line LF = 1
                    then (case encode_value (butlast (drop (length ''VALUE '') line)) of
                            Inl e \<Rightarrow> Inl e | Inr v \<Rightarrow> Inr (Some v))
                    else Inl Unexpected_get_reply)))"

definition client_set :: "'s net \<Rightarrow> 's \<Rightarrow> pystr \<Rightarrow> bytes \<Rightarrow> int \<Rightarrow> 's \<times> (cache_error + unit)" where
  "client_set net s key v ttl =
     (case encode_key key of
        Inl e \<Rightarrow> (s, Inl e)
      | Inr key \<Rightarrow>
          (case encode_value v of
             Inl e \<Rightarrow> (s, Inl e)
           | Inr v \<Rightarrow>
               if \<not> (0 \<le> ttl \<and> ttl \<le> CLIENT_TTL_MAX) then (s, Inl Invalid_ttl)
               else (case client_command net s (''SET '' @ key @ '' '' @ show_int ttl @ '' '' @ v @ [LF]) of
                       (s', Inl e) \<Rightarrow> (s', Inl e)
                     | (s', Inr line) \<Rightarrow> (s', if line \<noteq> OK_reply then Inl Unexpected_set_reply else Inr ()))))"

section \<open>The application\<close>

record http_request =
  req_method :: string
  req_target :: string

record http_response =
  resp_status :: string
  resp_body :: bytes
  resp_headers :: "(string \<times> string) list"

definition ROUTES :: "(string \<times> string \<times> bytes) list" where
  "ROUTES = [(''/'', ''200 OK'', ''HELLO WORLD!'' @ [LF]),
             (''/health'', ''200 OK'', ''OK'' @ [LF]),
             (''/hello'', ''200 OK'', ''HELLO WORLD!'' @ [LF])]"

definition respond :: "http_request \<Rightarrow> http_response" where
  "respond rq =
     (if req_method rq \<noteq> ''GET'' then
        \<lparr>resp_status = ''405 Method Not Allowed'', resp_body = ''Method Not Allowed'' @ [LF],
         resp_headers = [(''Allow'', ''GET'')]\<rparr>
      else (case map_of ROUTES (req_target rq) of
              None \<Rightarrow> \<lparr>resp_status = ''404 Not Found'', resp_body = ''Not Found'' @ [LF], resp_headers = []\<rparr>
            | Some (status, body) \<Rightarrow> \<lparr>resp_status = status, resp_body = body, resp_headers = []\<rparr>))"

definition CACHE_KEY :: pystr where "CACHE_KEY = map of_char ''http:/hello''"
definition CACHE_TTL :: int where "CACHE_TTL = 60"

text \<open>\<open>net = None\<close> is a server started without a cache.\<close>

definition respond_with_cache :: "'s net option \<Rightarrow> 's \<Rightarrow> http_request \<Rightarrow> 's \<times> http_response" where
  "respond_with_cache cache s rq =
     (case cache of
        None \<Rightarrow> (s, respond rq)
      | Some net \<Rightarrow>
          if req_method rq \<noteq> ''GET'' \<or> req_target rq \<noteq> ''/hello'' then (s, respond rq)
          else (case client_get net s CACHE_KEY of
            (s1, Inl e) \<Rightarrow> (s1, respond rq)
          | (s1, Inr (Some cached_body)) \<Rightarrow>
              (s1, \<lparr>resp_status = ''200 OK'', resp_body = cached_body @ [LF], resp_headers = []\<rparr>)
          | (s1, Inr None) \<Rightarrow>
              (let application_response = respond rq;
                   body = resp_body application_response;
                   cache_value = (if body \<noteq> [] \<and> last body = LF then butlast body else body);
                   (s2, r) = client_set net s1 CACHE_KEY cache_value CACHE_TTL
               in (s2, application_response))))"

section \<open>Replies a client can receive\<close>

text \<open>A reply, or the part of it that arrived: the client accepts the whole or reports an error.\<close>

lemma readline_prefix:
  assumes "LF \<notin> set b" and "length b \<le> limit"
  shows "readline (Suc limit) (take n (b @ [LF])) = take n (b @ [LF])"
proof (cases "length b < n")
  case True
  then show ?thesis using assms find_index_append_first [of LF b "[]"] by (simp add: readline_def)
next
  case False
  then have "find_index (\<lambda>c. c = LF) (take n b) = None"
    using assms(1) by (auto simp: find_index_eq_None dest: in_set_takeD)
  then show ?thesis using False assms(2) by (simp add: readline_def)
qed

lemma client_command_prefix:
  assumes "net s command = (s', Some (take n (b @ [LF])))" and "LF \<notin> set b" and "length b < MAX_REPLY_SIZE"
  shows "client_command net s command = (s', if length b < n then Inr (b @ [LF]) else Inl Malformed_reply)"
proof -
  have "take n b = [] \<or> last (take n b) \<noteq> LF" using assms(2) by (metis in_set_takeD last_in_set)
  then show ?thesis
    using assms readline_prefix [of b MAX_REPLY_SIZE n] by (auto simp: client_command_def)
qed

lemma client_command_error: "net s command = (s', None) \<Longrightarrow> client_command net s command = (s', Inl Request_failed)"
  by (simp add: client_command_def)

lemma fst_client_command: "fst (client_command net s command) = fst (net s command)"
  by (simp add: client_command_def Let_def split_beta split: option.split)

text \<open>A SET with valid arguments is one command to the server, accepted if its reply is \<open>OK\<close>.\<close>

lemma client_set_valid:
  assumes "encode_key key = Inr k" and "encode_value v = Inr v" and "0 \<le> ttl" and "ttl \<le> CLIENT_TTL_MAX"
  shows "fst (client_set net s key v ttl) = fst (net s (print_cmd (Set k ttl v) @ [LF]))"
    and "snd (client_command net s (print_cmd (Set k ttl v) @ [LF])) = Inr OK_reply \<Longrightarrow> snd (client_set net s key v ttl) = Inr ()"
  using assms by (simp_all add: client_set_def split_beta fst_client_command [symmetric] split: sum.split)

lemma client_get_valid:
  assumes "encode_key key = Inr k"
  shows "fst (client_get net s key) = fst (net s (print_cmd (Get k) @ [LF]))"
  using assms by (simp add: client_get_def split_beta fst_client_command [symmetric] split: sum.split)

text \<open>The keys and values the client sends are valid for the server.\<close>

lemma encode_key_ok: "encode_key key = Inr k \<Longrightarrow> key_ok k"
proof -
  assume k: "encode_key key = Inr k"
  then have "k \<noteq> []" "length k \<le> KEY_MAX" "\<not> list_ex (\<lambda>b. (of_char b :: nat) \<le> 32) k"
    by (auto simp: encode_key_def CLIENT_KEY_MAX_def KEY_MAX_def split: option.splits if_splits)
  moreover have "(of_char NUL :: nat) \<le> 32" "isspace c \<Longrightarrow> (of_char c :: nat) \<le> 32" for c
    by (auto simp: isspace_def)
  ultimately show "key_ok k" by (fastforce simp: key_ok_def list_ex_iff)
qed

lemma encode_value_ok: "encode_value v = Inr x \<Longrightarrow> x = v \<and> value_ok v \<and> CR \<notin> set v"
  by (auto simp: encode_value_def value_ok_def CLIENT_VALUE_MAX_def VALUE_MAX_def split: if_splits)

lemma encode_CACHE_KEY: "encode_key CACHE_KEY = Inr ''http:/hello''"
  by code_simp

lemma show_60: "show_int 60 = ''60''"
  by code_simp

end
