(* ===== verification/Http_Server.thy ===== *)
theory Http_Server
  imports Http_Cache
begin

text \<open>
  One connection of the HTTP server: \<open>handle_connection\<close> of \<^verbatim>\<open>http-server/server.py\<close> with the functions it calls,
  \<open>read_request\<close>, \<open>parse_request\<close>, \<open>parse_request_line\<close>, \<open>parse_headers\<close> and \<open>build_response\<close>. A raised
  \<open>ValueError\<close> or \<open>OSError\<close> is an \<open>Inl\<close>. Bytes are lists of characters, decoded text is a list of code
  points. The connection is the list of answers \<open>recv\<close> will give, and a connection whose list is used up is
  still waiting. The result is what \<open>handle_connection\<close> passes to \<open>sendall\<close>.
\<close>

section \<open>Python's strings\<close>

abbreviation CRLF :: bytes where "CRLF \<equiv> [CR, LF]"

definition decode_ascii :: "bytes \<Rightarrow> pystr option" where
  "decode_ascii b = (if list_all (\<lambda>c. (of_char c :: nat) < 128) b then Some (map of_char b) else None)"

definition decode_latin1 :: "bytes \<Rightarrow> pystr" where
  "decode_latin1 b = map of_char b"

text \<open>\<open>split\<close> at every occurrence of a character, and of CRLF from the left.\<close>

fun split_on :: "'a \<Rightarrow> 'a list \<Rightarrow> 'a list list" where
  "split_on sep [] = [[]]"
| "split_on sep (x # xs) =
     (if x = sep then [] # split_on sep xs
      else (case split_on sep xs of [] \<Rightarrow> [[x]] | y # ys \<Rightarrow> (x # y) # ys))"

fun split_crlf :: "bytes \<Rightarrow> bytes list" where
  "split_crlf [] = [[]]"
| "split_crlf [x] = [[x]]"
| "split_crlf (x # y # s) =
     (if x = CR \<and> y = LF then [] # split_crlf s
      else (case split_crlf (y # s) of [] \<Rightarrow> [[x]] | z # zs \<Rightarrow> (x # z) # zs))"

fun join_crlf :: "bytes list \<Rightarrow> bytes" where
  "join_crlf [] = []"
| "join_crlf [l] = l"
| "join_crlf (l # ls) = l @ CRLF @ join_crlf ls"

text \<open>\<open>find\<close>: the first position of \<open>p\<close>.\<close>

fun find_sub :: "'a list \<Rightarrow> 'a list \<Rightarrow> nat option" where
  "find_sub p [] = (if p = [] then Some 0 else None)"
| "find_sub p (x # xs) = (if take (length p) (x # xs) = p then Some 0 else map_option Suc (find_sub p xs))"

text \<open>\<open>casefold\<close> on the code points a Latin-1 byte can decode to.\<close>

definition casefold_char :: "nat \<Rightarrow> pystr" where
  "casefold_char c =
     (if 65 \<le> c \<and> c \<le> 90 then [c + 32]
      else if c = 181 then [956]
      else if 192 \<le> c \<and> c \<le> 222 \<and> c \<noteq> 215 then [c + 32]
      else if c = 223 then [115, 115]
      else [c])"

definition casefold :: "pystr \<Rightarrow> pystr" where
  "casefold s = concat (map casefold_char s)"

definition strip_blank :: "pystr \<Rightarrow> pystr" where
  "strip_blank s = rev (dropWhile (\<lambda>c. c = 32 \<or> c = 9) (rev (dropWhile (\<lambda>c. c = 32 \<or> c = 9) s)))"

section \<open>Requests\<close>

definition MAX_REQUEST_SIZE :: nat where "MAX_REQUEST_SIZE = 64 * 1024"
definition BUFFER_SIZE :: nat where "BUFFER_SIZE = 4096"

definition SUPPORTED_VERSIONS :: "pystr list" where
  "SUPPORTED_VERSIONS = [map of_char ''HTTP/1.0'', map of_char ''HTTP/1.1'']"

definition TOKEN_SYMBOLS :: pystr where
  "TOKEN_SYMBOLS = map of_char ''!#$%&'' @ [39] @ map of_char ''*+-.^_'' @ [96] @ map of_char ''|~''"

datatype http_error =
    Malformed_request_line | Malformed_header | Malformed_header_name | Malformed_header_value
  | Incomplete_headers | Missing_request_line | Headers_too_large | Bodies_not_supported | Not_ascii | Os_error

definition is_token :: "pystr \<Rightarrow> bool" where
  "is_token v \<longleftrightarrow> v \<noteq> [] \<and> list_all (\<lambda>c. c < 128) v \<and>
     list_all (\<lambda>c. 48 \<le> c \<and> c \<le> 57 \<or> 65 \<le> c \<and> c \<le> 90 \<or> 97 \<le> c \<and> c \<le> 122 \<or> c \<in> set TOKEN_SYMBOLS) v"

definition parse_request_line :: "bytes \<Rightarrow> http_error + pystr \<times> pystr \<times> pystr" where
  "parse_request_line line =
     (case decode_ascii line of
        None \<Rightarrow> Inl Malformed_request_line
      | Some l \<Rightarrow>
          (case split_on 32 l of
             [method, target, version] \<Rightarrow>
               if \<not> is_token method \<or> \<not> (target \<noteq> [] \<and> hd target = 47) \<or>
                  list_ex (\<lambda>c. c < 32 \<or> c = 127) target \<or> version \<notin> set SUPPORTED_VERSIONS
               then Inl Malformed_request_line else Inr (method, target, version)
           | _ \<Rightarrow> Inl Malformed_request_line))"

fun parse_header_lines :: "bytes list \<Rightarrow> (pystr \<times> pystr) list \<Rightarrow> http_error + (pystr \<times> pystr) list" where
  "parse_header_lines [] headers = Inr headers"
| "parse_header_lines (line # ls) headers =
     (let l = decode_latin1 line in
      case find_index (\<lambda>c. c = 58) l of
        None \<Rightarrow> Inl Malformed_header
      | Some i \<Rightarrow>
          (let name = casefold (take i l); val = drop (Suc i) l in
           if \<not> is_token name \<or> name \<in> fst ` set headers then Inl Malformed_header_name
           else if list_ex (\<lambda>c. c < 32 \<and> c \<noteq> 9 \<or> c = 127) val then Inl Malformed_header_value
           else parse_header_lines ls (headers @ [(name, strip_blank val)])))"

definition parse_headers :: "bytes \<Rightarrow> http_error + (pystr \<times> pystr) list" where
  "parse_headers block = (if block = [] then Inr [] else parse_header_lines (split_crlf block) [])"

definition parse_request :: "bytes \<Rightarrow> http_error + (pystr \<times> pystr \<times> pystr) \<times> (pystr \<times> pystr) list" where
  "parse_request request =
     (case find_sub (CRLF @ CRLF) request of
        None \<Rightarrow> Inl Incomplete_headers
      | Some i \<Rightarrow>
          (let ls = split_crlf (take i request) in
           if hd ls = [] then Inl Missing_request_line
           else (case parse_request_line (hd ls) of
                   Inl e \<Rightarrow> Inl e
                 | Inr r \<Rightarrow>
                     (case parse_headers (join_crlf (tl ls)) of Inl e \<Rightarrow> Inl e | Inr hs \<Rightarrow> Inr (r, hs)))))"

text \<open>\<open>read_request\<close>; Python repeats an interrupted \<open>recv\<close> itself.\<close>

definition request_end :: "bytes \<Rightarrow> nat \<Rightarrow> http_error + bytes" where
  "request_end request i =
     (if i + 4 > MAX_REQUEST_SIZE then Inl Headers_too_large else Inr (take (i + 4) request))"

fun read_request :: "recv_answer list \<Rightarrow> bytes \<Rightarrow> (http_error + bytes) run" where
  "read_request [] request =
     (case find_sub (CRLF @ CRLF) request of Some i \<Rightarrow> Returned (request_end request i) | None \<Rightarrow> Blocked)"
| "read_request (a # as) request =
     (case find_sub (CRLF @ CRLF) request of
        Some i \<Rightarrow> Returned (request_end request i)
      | None \<Rightarrow>
          (case a of
             Recv_error e \<Rightarrow> if e = EINTR then read_request as request else Returned (Inl Os_error)
           | Received bs \<Rightarrow>
               (let chunk = take BUFFER_SIZE bs in
                if chunk = [] then Returned (Inl Incomplete_headers)
                else if length (request @ chunk) > MAX_REQUEST_SIZE then Returned (Inl Headers_too_large)
                else read_request as (request @ chunk))))"

section \<open>Responses\<close>

definition build_response :: "string \<Rightarrow> bytes \<Rightarrow> (string \<times> string) list \<Rightarrow> http_error + bytes" where
  "build_response status body headers =
     (let head = join_crlf ([''HTTP/1.1 '' @ status] @ map (\<lambda>(n, v). n @ '': '' @ v) headers @
            [''Content-Length: '' @ show_dec (length body), ''Connection: close'', [], []])
      in if list_all (\<lambda>c. (of_char c :: nat) < 128) head then Inr (head @ body) else Inl Not_ascii)"

definition bad_request :: bytes where
  "bad_request =
     (case build_response ''400 Bad Request'' (''Bad Request'' @ [LF]) [] of Inr b \<Rightarrow> b | Inl e \<Rightarrow> [])"

definition forbidden_headers :: "pystr list" where
  "forbidden_headers = [map of_char ''content-length'', map of_char ''transfer-encoding'']"

definition answer_request :: "'s net option \<Rightarrow> 's \<Rightarrow> bytes \<Rightarrow> 's \<times> bytes" where
  "answer_request cache s request =
     (case parse_request request of
        Inl e \<Rightarrow> (s, bad_request)
      | Inr ((method, target, version), headers) \<Rightarrow>
          if list_ex (\<lambda>h. h \<in> fst ` set headers) forbidden_headers then (s, bad_request)
          else (let (s', r) = respond_with_cache cache s \<lparr>req_method = map char_of method, req_target = map char_of target\<rparr>
                in (s', case build_response (resp_status r) (resp_body r) (resp_headers r) of
                          Inl e \<Rightarrow> bad_request | Inr b \<Rightarrow> b)))"

definition handle_connection :: "'s net option \<Rightarrow> 's \<Rightarrow> recv_answer list \<Rightarrow> 's \<times> bytes run" where
  "handle_connection cache s rx =
     (case read_request rx [] of
        Blocked \<Rightarrow> (s, Blocked)
      | Returned (Inl e) \<Rightarrow> (s, Returned bad_request)
      | Returned (Inr request) \<Rightarrow> (let (s', b) = answer_request cache s request in (s', Returned b)))"

text \<open>Connections one after the other.\<close>

fun serve_all :: "'s net option \<Rightarrow> 's \<Rightarrow> recv_answer list list \<Rightarrow> 's \<times> bytes run list" where
  "serve_all cache s [] = (s, [])"
| "serve_all cache s (rx # rxs) =
     (let (s1, b) = handle_connection cache s rx; (s2, bs) = serve_all cache s1 rxs in (s2, b # bs))"

end
