(* ===== verification/Http_Server_Facts.thy ===== *)
theory Http_Server_Facts
  imports Http_Server
begin

text \<open>
  Facts about the request parser of the HTTP server: splitting undoes joining, the end of a header block is found
  where it is in whatever chunks it arrives, and a printed request is read back.
\<close>

section \<open>Splitting and searching\<close>

lemma split_on_none: "sep \<notin> set s \<Longrightarrow> split_on sep s = [s]"
  by (induction s) auto

lemma split_on_first: "sep \<notin> set s \<Longrightarrow> split_on sep (s @ sep # r) = s # split_on sep r"
  by (induction s) auto

lemma split_crlf_none: "CR \<notin> set s \<Longrightarrow> split_crlf s = [s]"
  by (induction s rule: split_crlf.induct) auto

lemma split_crlf_first: "CR \<notin> set l \<Longrightarrow> split_crlf (l @ CR # LF # s) = l # split_crlf s"
proof (induction l)
  case (Cons x l)
  then show ?case by (cases l) auto
qed simp

lemma split_join_crlf: "ls \<noteq> [] \<Longrightarrow> \<forall>l\<in>set ls. CR \<notin> set l \<Longrightarrow> split_crlf (join_crlf ls) = ls"
  by (induction ls rule: join_crlf.induct) (auto simp: split_crlf_none split_crlf_first)

lemma find_sub_short: "length s < length p \<Longrightarrow> find_sub p s = None"
  by (induction s) auto

lemma find_sub_Some: "find_sub p s = Some i \<Longrightarrow> i + length p \<le> length s \<and> take (length p) (drop i s) = p"
proof (induction s arbitrary: i)
  case (Cons x s)
  then show ?case
    by (cases "take (length p) (x # s) = p") (auto, metis length_Cons length_take min.cobounded1)
qed (auto split: if_splits)

text \<open>What part of the stream has arrived decides whether the separator is found, not where.\<close>

lemma find_sub_take:
  assumes "find_sub p s = Some i"
  shows "find_sub p (take n s) = (if i + length p \<le> n then Some i else None)"
  using assms
proof (induction s arbitrary: i n)
  case (Cons x s)
  show ?case
  proof (cases "take (length p) (x # s) = p")
    case True
    then have "i = 0" using Cons.prems by simp
    moreover have "n < length p \<Longrightarrow> find_sub p (take n (x # s)) = None" by (intro find_sub_short) auto
    moreover have "length p \<le> n \<Longrightarrow> take (length p) (take n (x # s)) = p" using True by (simp add: min_absorb1)
    ultimately show ?thesis by (cases n) (auto simp: not_le)
  next
    case False
    then obtain k where k: "find_sub p s = Some k" "i = Suc k" using Cons.prems by auto
    have p: "p \<noteq> []" using False by auto
    show ?thesis
    proof (cases n)
      case (Suc m)
      have "take (length p) (take n (x # s)) \<noteq> p"
      proof
        assume eq: "take (length p) (take n (x # s)) = p"
        then have "length (take (length p) (take n (x # s))) = length p" by simp
        then have "length p \<le> n" by simp
        then show False using eq False by (simp add: min_absorb1)
      qed
      then show ?thesis using Cons.IH [OF k(1), of m] k(2) Suc by simp
    qed (use p in simp)
  qed
qed (auto split: if_splits)

abbreviation BLANK :: bytes where "BLANK \<equiv> [CR, LF, CR, LF]"

lemma find_blank_line: "CR \<notin> set l \<Longrightarrow> find_sub BLANK (l @ s) = map_option (\<lambda>n. length l + n) (find_sub BLANK s)"
  by (cases "find_sub BLANK s"; induction l) auto

lemma find_blank:
  "ls \<noteq> [] \<Longrightarrow> \<forall>l\<in>set ls. l \<noteq> [] \<and> CR \<notin> set l \<Longrightarrow>
   find_sub BLANK (join_crlf ls @ BLANK @ r) = Some (length (join_crlf ls))"
proof (induction ls rule: join_crlf.induct)
  case (3 l l2 ls)
  obtain x s where x: "join_crlf (l2 # ls) = x # s" "x \<noteq> CR"
    using 3 by (cases l2; cases ls) auto
  then have "find_sub BLANK (x # s @ BLANK @ r) = Some (length (x # s))" using 3 by auto
  then show ?case using 3 x by (simp add: find_blank_line)
qed (auto simp: find_blank_line)

section \<open>Receiving\<close>

text \<open>What \<open>recv\<close> may answer before the peer closes: some bytes, or an interruption.\<close>

definition arriving :: "recv_answer \<Rightarrow> bool" where
  "arriving a \<longleftrightarrow> (case a of Received bs \<Rightarrow> bs \<noteq> [] \<and> length bs \<le> BUFFER_SIZE | Recv_error e \<Rightarrow> e = EINTR)"

fun received :: "recv_answer list \<Rightarrow> bytes" where
  "received [] = []"
| "received (Received bs # as) = bs @ received as"
| "received (Recv_error e # as) = received as"

lemma read_request_stream:
  assumes "list_all arriving rx" and "request @ received rx = w" and "find_sub BLANK w = Some i"
    and "length w \<le> MAX_REQUEST_SIZE"
  shows "read_request rx request = Returned (Inr (take (i + 4) w))"
  using assms(1,2)
proof (induction rx arbitrary: request)
  case Nil
  then show ?case using assms(3,4) find_sub_Some [OF assms(3)] by (simp add: request_end_def)
next
  case (Cons a rx)
  have r: "request = take (length request) w" using Cons.prems(2) by (metis append_eq_conv_conj)
  show ?case
  proof (cases "i + 4 \<le> length request")
    case True
    then have "find_sub BLANK request = Some i" using find_sub_take [OF assms(3), of "length request"] r by simp
    moreover have "take (i + 4) request = take (i + 4) w" using True r by (metis min_absorb1 take_take)
    ultimately show ?thesis using find_sub_Some [OF assms(3)] assms(4) by (simp add: request_end_def)
  next
    case False
    then have none: "find_sub BLANK request = None" using find_sub_take [OF assms(3), of "length request"] r by simp
    show ?thesis
    proof (cases a)
      case (Received bs)
      then have "length (request @ bs) \<le> length w" "bs \<noteq> []" "length bs \<le> BUFFER_SIZE" "(request @ bs) @ received rx = w"
        using Cons.prems by (auto simp: arriving_def)
      then show ?thesis using Cons.IH [of "request @ bs"] Cons.prems(1) Received none assms(4) by (simp add: Let_def)
    next
      case (Recv_error e)
      then show ?thesis using Cons.IH [of request] Cons.prems none by (simp add: arriving_def)
    qed
  qed
qed

section \<open>Well-formed requests\<close>

abbreviation codes :: "bytes \<Rightarrow> pystr" where "codes b \<equiv> map of_char b"

text \<open>The syntax of a request a client may send, and its bytes.\<close>

definition target_ok :: "bytes \<Rightarrow> bool" where
  "target_ok t \<longleftrightarrow> t \<noteq> [] \<and> hd (codes t) = 47 \<and> list_all (\<lambda>c. 32 < c \<and> c < 127) (codes t)"

definition header_ok :: "bytes \<times> bytes \<Rightarrow> bool" where
  "header_ok h \<longleftrightarrow> is_token (codes (fst h)) \<and> list_all (\<lambda>c. (32 \<le> c \<or> c = 9) \<and> c \<noteq> 127) (codes (snd h))"

definition header_line :: "bytes \<times> bytes \<Rightarrow> bytes" where
  "header_line h = fst h @ '':'' @ snd h"

definition request_line :: "bytes \<Rightarrow> bytes \<Rightarrow> bytes" where
  "request_line method target = method @ '' '' @ target @ '' HTTP/1.1''"

definition print_request :: "bytes \<Rightarrow> bytes \<Rightarrow> (bytes \<times> bytes) list \<Rightarrow> bytes" where
  "print_request method target hs = join_crlf (request_line method target # map header_line hs) @ BLANK"

definition parsed_header :: "bytes \<times> bytes \<Rightarrow> pystr \<times> pystr" where
  "parsed_header h = (casefold (codes (fst h)), strip_blank (codes (snd h)))"

definition request_ok :: "bytes \<Rightarrow> bytes \<Rightarrow> (bytes \<times> bytes) list \<Rightarrow> bool" where
  "request_ok method target hs \<longleftrightarrow> is_token (codes method) \<and> target_ok target \<and> list_all header_ok hs \<and>
     distinct (map (\<lambda>h. casefold (codes (fst h))) hs)"

lemma of_char_CR_LF: "(of_char CR :: nat) = 13" "(of_char LF :: nat) = 10"
  by simp_all

lemma token_char: "is_token v \<Longrightarrow> c \<in> set v \<Longrightarrow> 32 < c \<and> c < 127 \<and> c \<noteq> 58"
  by (auto simp: is_token_def TOKEN_SYMBOLS_def list_all_iff)

lemma token_no_CR: "is_token (codes b) \<Longrightarrow> CR \<notin> set b"
  using token_char [of "codes b" "of_char CR"] by force

lemma is_token_casefold:
  assumes "is_token v"
  shows "is_token (casefold v)"
proof -
  have c: "casefold_char c = [if 65 \<le> c \<and> c \<le> 90 then c + 32 else c]" if "c \<in> set v" for c
    using token_char [OF assms that] by (simp add: casefold_char_def)
  then have "casefold v = map (\<lambda>c. if 65 \<le> c \<and> c \<le> 90 then c + 32 else c) v"
    unfolding casefold_def by (induction v) auto
  then show ?thesis using assms by (auto simp: is_token_def list_all_iff)
qed

lemma header_line_ok:
  assumes "header_ok h"
  shows "header_line h \<noteq> []" and "CR \<notin> set (header_line h)"
  using assms token_no_CR [of "fst h"] by (auto simp: header_ok_def header_line_def list_all_iff)

lemma parse_header_line:
  assumes "header_ok h"
  shows "find_index (\<lambda>c. c = 58) (codes (header_line h)) = Some (length (fst h))"
    and "take (length (fst h)) (codes (header_line h)) = codes (fst h)"
    and "drop (Suc (length (fst h))) (codes (header_line h)) = codes (snd h)"
proof -
  have "58 \<notin> set (codes (fst h))" using assms token_char by (auto simp: header_ok_def)
  then show "find_index (\<lambda>c. c = 58) (codes (header_line h)) = Some (length (fst h))"
    using find_index_append_first [of 58 "codes (fst h)" "codes (snd h)"] by (simp add: header_line_def)
qed (simp_all add: header_line_def)

lemma parse_header_lines_printed:
  assumes "list_all header_ok hs" and "distinct (map (\<lambda>h. casefold (codes (fst h))) hs)"
    and "\<forall>h\<in>set hs. casefold (codes (fst h)) \<notin> fst ` set acc"
  shows "parse_header_lines (map header_line hs) acc = Inr (acc @ map parsed_header hs)"
  using assms
proof (induction hs arbitrary: acc)
  case (Cons h hs)
  then have h: "header_ok h" "is_token (casefold (codes (fst h)))"
    by (simp_all add: header_ok_def is_token_casefold)
  have "\<not> list_ex (\<lambda>c. c < 32 \<and> c \<noteq> 9 \<or> c = 127) (codes (snd h))"
    using h(1) by (force simp: header_ok_def list_all_iff list_ex_iff)
  moreover have "\<forall>k\<in>set hs. casefold (codes (fst k)) \<noteq> casefold (codes (fst h))"
    using Cons.prems(2) by (simp add: image_iff) metis
  then have "\<forall>k\<in>set hs. casefold (codes (fst k)) \<notin> fst ` set (acc @ [parsed_header h])"
    using Cons.prems(3) by (simp add: parsed_header_def)
  ultimately show ?case
    using Cons.IH [of "acc @ [parsed_header h]"] Cons.prems h parse_header_line [OF h(1)]
    by (simp add: decode_latin1_def Let_def parsed_header_def)
qed simp

lemma parse_request_line_printed:
  assumes "is_token (codes m)" and "target_ok t"
  shows "parse_request_line (request_line m t) = Inr (codes m, codes t, codes ''HTTP/1.1'')"
proof -
  have ascii: "list_all (\<lambda>c. (of_char c :: nat) < 128) (request_line m t)"
    using assms token_char [OF assms(1)] by (force simp: request_line_def target_ok_def list_all_iff)
  have "32 \<notin> set (codes m)" "32 \<notin> set (codes t)"
    using assms token_char [OF assms(1)] by (force simp: target_ok_def list_all_iff)+
  then have "split_on 32 (codes m @ 32 # codes t @ 32 # codes ''HTTP/1.1'') = [codes m, codes t, codes ''HTTP/1.1'']"
    by (simp add: split_on_first)
  moreover have "codes (request_line m t) = codes m @ 32 # codes t @ 32 # codes ''HTTP/1.1''"
    by (simp add: request_line_def)
  moreover have "\<not> list_ex (\<lambda>c. c < 32 \<or> c = 127) (codes t)"
    using assms(2) by (force simp: target_ok_def list_all_iff list_ex_iff)
  ultimately show ?thesis
    using ascii assms by (simp add: parse_request_line_def decode_ascii_def target_ok_def SUPPORTED_VERSIONS_def)
qed

lemma printed_lines_ok:
  assumes "request_ok m t hs"
  shows "\<forall>l\<in>set (request_line m t # map header_line hs). l \<noteq> [] \<and> CR \<notin> set l"
proof -
  have "CR \<notin> set m" using assms token_no_CR by (simp add: request_ok_def)
  moreover have "CR \<notin> set t" using assms by (force simp: request_ok_def target_ok_def list_all_iff)
  ultimately have "CR \<notin> set (request_line m t)" "request_line m t \<noteq> []" by (simp_all add: request_line_def)
  then show ?thesis using assms header_line_ok by (auto simp: request_ok_def list_all_iff)
qed

lemma find_blank_printed:
  assumes "request_ok m t hs"
  shows "find_sub BLANK (print_request m t hs @ r) = Some (length (print_request m t hs) - 4)"
  using find_blank [OF _ printed_lines_ok [OF assms], of r] by (simp add: print_request_def)

lemma parse_request_printed:
  assumes "request_ok m t hs"
  shows "parse_request (print_request m t hs) = Inr ((codes m, codes t, codes ''HTTP/1.1''), map parsed_header hs)"
proof -
  let ?ls = "request_line m t # map header_line hs"
  note ok = printed_lines_ok [OF assms]
  have split: "split_crlf (join_crlf ?ls) = ?ls" using ok by (intro split_join_crlf) auto
  have hs: "parse_headers (join_crlf (map header_line hs)) = Inr (map parsed_header hs)"
  proof (cases hs)
    case (Cons h hs')
    then have "join_crlf (map header_line hs) \<noteq> []" using ok by (cases hs') auto
    moreover have "split_crlf (join_crlf (map header_line hs)) = map header_line hs"
      using ok Cons by (intro split_join_crlf) auto
    ultimately show ?thesis
      using assms parse_header_lines_printed [of hs "[]"] by (simp add: parse_headers_def request_ok_def)
  qed (simp add: parse_headers_def)
  have "parse_request_line (request_line m t) = Inr (codes m, codes t, codes ''HTTP/1.1'')"
    using assms parse_request_line_printed by (simp add: request_ok_def)
  moreover have "find_sub BLANK (print_request m t hs) = Some (length (join_crlf ?ls))"
    using find_blank [OF _ ok, of "[]"] by (simp add: print_request_def)
  moreover have "take (length (join_crlf ?ls)) (print_request m t hs) = join_crlf ?ls" by (simp add: print_request_def)
  ultimately show ?thesis using split hs ok by (simp add: parse_request_def)
qed

lemma read_request_printed:
  assumes "request_ok m t hs" and "list_all arriving rx" and "received rx = print_request m t hs @ r"
    and "length (received rx) \<le> MAX_REQUEST_SIZE"
  shows "read_request rx [] = Returned (Inr (print_request m t hs))"
proof -
  have "4 \<le> length (print_request m t hs)" by (simp add: print_request_def)
  then show ?thesis
    using read_request_stream [OF assms(2) _ find_blank_printed [OF assms(1), of r]] assms(3,4) by simp
qed

section \<open>Responses\<close>

lemma set_join_crlf: "set (join_crlf ls) \<subseteq> {CR, LF} \<union> \<Union> (set ` set ls)"
  by (induction ls rule: join_crlf.induct) auto

lemma show_dec_ascii: "c \<in> set (show_dec n) \<Longrightarrow> (of_char c :: nat) < 128"
proof -
  assume "c \<in> set (show_dec n)"
  then have "(of_char c :: int) < 128" using show_dec_digits [of n] by (fastforce simp: isdigit_def)
  then show ?thesis by (metis of_nat_less_iff of_nat_numeral of_nat_of_char)
qed

abbreviation ascii :: "string \<Rightarrow> bool" where "ascii s \<equiv> list_all (\<lambda>c. (of_char c :: nat) < 128) s"

text \<open>What a response looks like on the wire: status line, headers, blank line and body, each line ended by CRLF.\<close>

definition response_bytes :: "http_response \<Rightarrow> bytes" where
  "response_bytes r =
     ''HTTP/1.1 '' @ resp_status r @ CRLF @
     concat (map (\<lambda>(n, v). n @ '': '' @ v @ CRLF) (resp_headers r)) @
     ''Content-Length: '' @ show_dec (length (resp_body r)) @ CRLF @
     ''Connection: close'' @ CRLF @ CRLF @ resp_body r"

lemma join_crlf_ended: "join_crlf (ls @ [[]]) = concat (map (\<lambda>l. l @ CRLF) ls)"
proof (induction ls)
  case (Cons l ls)
  then show ?case by (cases ls) auto
qed simp

lemma build_response_ascii:
  assumes "ascii (resp_status r)" and "list_all (\<lambda>(n, v). ascii n \<and> ascii v) (resp_headers r)"
  shows "build_response (resp_status r) (resp_body r) (resp_headers r) = Inr (response_bytes r)"
proof -
  let ?ls = "[''HTTP/1.1 '' @ resp_status r] @ map (\<lambda>(n, v). n @ '': '' @ v) (resp_headers r) @
            [''Content-Length: '' @ show_dec (length (resp_body r)), ''Connection: close'', []]"
  have "list_all ascii (?ls @ [[]])" using assms show_dec_ascii by (fastforce simp: list_all_iff)
  then have "ascii (join_crlf (?ls @ [[]]))" using set_join_crlf [of "?ls @ [[]]"] by (fastforce simp: list_all_iff)
  moreover have "join_crlf (?ls @ [[]]) @ resp_body r = response_bytes r"
    unfolding join_crlf_ended by (simp add: response_bytes_def case_prod_unfold comp_def)
  ultimately show ?thesis by (simp add: build_response_def Let_def del: join_crlf.simps)
qed

text \<open>Every response of the application can be sent, cached or not.\<close>

lemma respond_ascii: "ascii (resp_status (respond rq))" "list_all (\<lambda>(n, v). ascii n \<and> ascii v) (resp_headers (respond rq))"
  by (auto simp: respond_def ROUTES_def split: option.split)

lemma respond_with_cache_ascii:
  "ascii (resp_status (snd (respond_with_cache cache s rq))) \<and>
   list_all (\<lambda>(n, v). ascii n \<and> ascii v) (resp_headers (snd (respond_with_cache cache s rq)))"
  unfolding respond_with_cache_def
  by (auto simp: Let_def respond_ascii split_beta split: option.split sum.split)

lemma build_response_respond:
  "build_response (resp_status (snd (respond_with_cache cache s rq))) (resp_body (snd (respond_with_cache cache s rq)))
     (resp_headers (snd (respond_with_cache cache s rq))) = Inr (response_bytes (snd (respond_with_cache cache s rq)))"
  by (rule build_response_ascii [OF conjunct1 [OF respond_with_cache_ascii] conjunct2 [OF respond_with_cache_ascii]])

lemma bad_request_bytes:
  "bad_request = response_bytes \<lparr>resp_status = ''400 Bad Request'', resp_body = ''Bad Request'' @ [LF], resp_headers = []\<rparr>"
  using build_response_ascii [of "\<lparr>resp_status = ''400 Bad Request'', resp_body = ''Bad Request'' @ [LF], resp_headers = []\<rparr>"]
  by (simp add: bad_request_def)

section \<open>Connections\<close>

definition has_body :: "(bytes \<times> bytes) list \<Rightarrow> bool" where
  "has_body hs \<longleftrightarrow> (\<exists>h\<in>set hs. casefold (codes (fst h)) \<in> set forbidden_headers)"

lemma answer_request_printed:
  assumes "request_ok m t hs"
  shows "answer_request cache s (print_request m t hs) =
    (if has_body hs then (s, bad_request)
     else map_prod id response_bytes (respond_with_cache cache s \<lparr>req_method = m, req_target = t\<rparr>))"
proof -
  have "list_ex (\<lambda>h. h \<in> fst ` set (map parsed_header hs)) forbidden_headers \<longleftrightarrow> has_body hs"
    by (auto simp: has_body_def list_ex_iff parsed_header_def image_iff)
  moreover have "map char_of (codes m) = m" "map char_of (codes t) = t" by (simp_all add: comp_def)
  ultimately show ?thesis
    using build_response_respond [of cache s "\<lparr>req_method = m, req_target = t\<rparr>"]
    by (simp add: answer_request_def parse_request_printed [OF assms] split_beta map_prod_def)
qed

text \<open>A stream without a blank line: the server waits, and gives up at the end of the stream or of its buffer.\<close>

lemma find_sub_prefix_None: "find_sub p (s @ r) = None \<Longrightarrow> find_sub p s = None"
proof (rule ccontr)
  assume n: "find_sub p (s @ r) = None" and "find_sub p s \<noteq> None"
  then obtain i where i: "find_sub p s = Some i" by blast
  have "find_sub p (s @ r) = Some i" using i
  proof (induction s arbitrary: i)
    case Nil
    then show ?case by (cases r) (auto split: if_splits)
  next
    case (Cons x s)
    have "take (length p) (x # s @ r) = take (length p) (x # s)"
      using find_sub_Some [OF Cons.prems] take_append [of "length p" "x # s" r] by simp
    then show ?case using Cons by (cases "take (length p) (x # s) = p") auto
  qed
  then show False using n by simp
qed

lemma read_request_unfinished:
  assumes "list_all arriving rx" and "find_sub BLANK (request @ received rx) = None" and "length request \<le> MAX_REQUEST_SIZE"
  shows "read_request (rx @ ry) request =
    (if length (request @ received rx) \<le> MAX_REQUEST_SIZE then read_request ry (request @ received rx)
     else Returned (Inl Headers_too_large))"
  using assms
proof (induction rx arbitrary: request)
  case (Cons a rx)
  have none: "find_sub BLANK request = None" using find_sub_prefix_None [OF Cons.prems(2)] .
  show ?case
  proof (cases a)
    case (Received bs)
    then have bs: "bs \<noteq> []" "length bs \<le> BUFFER_SIZE" using Cons.prems(1) by (simp_all add: arriving_def)
    then show ?thesis
      using Cons.IH [of "request @ bs"] Cons.prems Received none by (auto simp: Let_def)
  next
    case (Recv_error e)
    then show ?thesis using Cons.IH [of request] Cons.prems none by (simp add: arriving_def)
  qed
qed simp

end
