(* ===== verification/Http_Cache_Server.thy ===== *)
theory Http_Cache_Server
  imports Http_Server_Facts
begin

text \<open>
  The HTTP server, its cache client and the C cache together. \<open>honest_cache\<close> is what the HTTP server
  relies on: the cache holds nothing under its key, or the value the HTTP server put there. The laws speak of
  what the client receives, which may be cut off or missing. They give that the cached server answers
  as the application does. \<open>c_net\<close> carries commands to \<open>handle_client\<close> of the C cache through a network that
  cuts, delays and loses; the interpretation shows that it obeys the laws.
\<close>

section \<open>Threads\<close>

text \<open>
  Every connection of the HTTP server has a thread, and each command of a thread is a cache connection of its own. So one
  thread sees the commands of the others before each of its commands: a list of GET and SET commands for the
  server's key, given by the schedule.
\<close>

definition hello_command :: "bool \<Rightarrow> bytes" where
  "hello_command b = (if b then ''SET http:/hello 60 HELLO WORLD!'' else ''GET http:/hello'') @ [LF]"

fun others :: "'s net \<Rightarrow> 's \<Rightarrow> bool list \<Rightarrow> 's" where
  "others net s [] = s"
| "others net s (b # bs) = others net (fst (net s (hello_command b))) bs"

definition busy :: "'s net \<Rightarrow> ('s \<times> bool list list) net" where
  "busy net s command =
     (let (s', r) = net (others net (fst s) (case snd s of [] \<Rightarrow> [] | bs # _ \<Rightarrow> bs)) command
      in ((s', tl (snd s)), r))"

lemma busy_step: "busy net s command = (s', r) \<Longrightarrow> \<exists>bs. net (others net (fst s) bs) command = (fst s', r)"
  by (auto simp: busy_def split_beta prod_eq_iff)

section \<open>What the HTTP server relies on\<close>

locale honest_cache =
  fixes net :: "'s net"
    and good :: "'s \<Rightarrow> bool"
  assumes get_law: "good s \<Longrightarrow> net s (''GET http:/hello'' @ [LF]) = (s', r) \<Longrightarrow> good s' \<and>
      (\<forall>stream. r = Some stream \<longrightarrow>
        (\<exists>n. stream = take n NOT_FOUND_reply \<or> stream = take n (VALUE_reply ''HELLO WORLD!'')))"
    and set_law: "good s \<Longrightarrow> net s (''SET http:/hello 60 HELLO WORLD!'' @ [LF]) = (s', r) \<Longrightarrow> good s'"
begin

lemma get_result:
  assumes "good s" and "client_get net s CACHE_KEY = (s1, r)"
  shows "good s1 \<and> (\<forall>v. r = Inr (Some v) \<longrightarrow> v = ''HELLO WORLD!'')"
proof -
  obtain s' x where net: "net s (''GET http:/hello'' @ [LF]) = (s', x)"
    by (cases "net s (''GET http:/hello'' @ [LF])")
  note law = get_law [OF assms(1) net]
  have key: "encode_key CACHE_KEY = Inr ''http:/hello''" by (rule encode_CACHE_KEY)
  show ?thesis
  proof (cases x)
    case None
    then show ?thesis
      using assms(2) law client_command_error [of net, OF net [unfolded None]] by (auto simp: client_get_def key)
  next
    case (Some stream)
    then obtain n where "stream = take n (''NOT_FOUND'' @ [LF]) \<or> stream = take n (''VALUE HELLO WORLD!'' @ [LF])"
      using law by (auto simp: VALUE_reply_def)
    then show ?thesis
    proof
      assume s: "stream = take n (''NOT_FOUND'' @ [LF])"
      show ?thesis
        using assms(2) law client_command_prefix [of net, OF net [unfolded Some s]]
        by (auto simp: client_get_def key MAX_REPLY_SIZE_def CLIENT_VALUE_MAX_def split: if_splits)
    next
      assume s: "stream = take n (''VALUE HELLO WORLD!'' @ [LF])"
      show ?thesis
        using assms(2) law client_command_prefix [of net, OF net [unfolded Some s]]
        by (auto simp: client_get_def key MAX_REPLY_SIZE_def CLIENT_VALUE_MAX_def encode_value_def is_prefix_def
            split: if_splits)
    qed
  qed
qed

lemma set_keeps:
  assumes "good s" and "client_set net s CACHE_KEY ''HELLO WORLD!'' CACHE_TTL = (s1, r)"
  shows "good s1"
proof -
  obtain s' x where net: "net s (''SET http:/hello 60 HELLO WORLD!'' @ [LF]) = (s', x)"
    by (cases "net s (''SET http:/hello 60 HELLO WORLD!'' @ [LF])")
  have "encode_value ''HELLO WORLD!'' = Inr ''HELLO WORLD!''" by (simp add: encode_value_def CLIENT_VALUE_MAX_def)
  then have "s1 = s'"
    using client_set_valid(1) [OF encode_CACHE_KEY, of "''HELLO WORLD!''" CACHE_TTL net s] assms(2) net
    by (simp add: CLIENT_TTL_MAX_def CACHE_TTL_def show_60)
  then show ?thesis using set_law [OF assms(1) net] by simp
qed

text \<open>The cache changes no answer, and stays usable.\<close>

lemma respond_transparent:
  assumes "good s"
  shows "snd (respond_with_cache (Some net) s rq) = respond rq \<and> good (fst (respond_with_cache (Some net) s rq))"
proof (cases "req_method rq \<noteq> ''GET'' \<or> req_target rq \<noteq> ''/hello''")
  case True
  then show ?thesis using assms by (auto simp: respond_with_cache_def)
next
  case False
  then have app: "respond rq = \<lparr>resp_status = ''200 OK'', resp_body = ''HELLO WORLD!'' @ [LF], resp_headers = []\<rparr>"
    by (simp add: respond_def ROUTES_def)
  obtain s1 r where get: "client_get net s CACHE_KEY = (s1, r)" by (cases "client_get net s CACHE_KEY")
  note res = get_result [OF assms get]
  obtain s2 x where set: "client_set net s1 CACHE_KEY ''HELLO WORLD!'' CACHE_TTL = (s2, x)"
    by (cases "client_set net s1 CACHE_KEY ''HELLO WORLD!'' CACHE_TTL")
  show ?thesis
    using False get res set set_keeps [OF _ set] app
    by (auto simp: respond_with_cache_def Let_def split: sum.splits option.splits)
qed

lemma handle_connection_transparent:
  assumes "good s"
  shows "snd (handle_connection (Some net) s rx) = snd (handle_connection None u rx) \<and>
    good (fst (handle_connection (Some net) s rx))"
proof -
  have "snd (answer_request (Some net) s w) = snd (answer_request None u w) \<and> good (fst (answer_request (Some net) s w))" for w
    using respond_transparent [OF assms] assms
    by (auto simp: answer_request_def respond_with_cache_def [of None] Let_def split_beta split: sum.split)
  then show ?thesis using assms by (auto simp: handle_connection_def split_beta split: run.split sum.split)
qed

lemma serve_all_transparent: "good s \<Longrightarrow> snd (serve_all (Some net) s rxs) = snd (serve_all None u rxs)"
proof (induction rxs arbitrary: s u)
  case (Cons rx rxs)
  note one = handle_connection_transparent [OF Cons.prems, of rx u]
  then show ?case
    using Cons.IH [of "fst (handle_connection (Some net) s rx)" "fst (handle_connection None u rx)"]
    by (simp add: Let_def split_beta)
qed simp

text \<open>The law also holds for the cache as one of many threads sees it.\<close>

lemma good_others: "good s \<Longrightarrow> good (others net s bs)"
proof (induction bs arbitrary: s)
  case (Cons b bs)
  have "good (fst (net s (hello_command b)))"
    using get_law [OF Cons.prems prod.collapse [symmetric]] set_law [OF Cons.prems prod.collapse [symmetric]]
    by (cases b) (simp_all add: hello_command_def)
  then show ?case using Cons.IH by simp
qed simp

lemma honest_busy: "honest_cache (busy net) (\<lambda>s. good (fst s))"
  by (unfold_locales; drule busy_step; elim exE; drule good_others) (rule get_law set_law; assumption)+

end

section \<open>The C cache behind a network\<close>

text \<open>
  What happens to one connection: into which chunks the server receives the command, how many of its
  bytes arrive at all, when the server looks at its clock, how the kernel takes the reply, and whether the reply is
  lost on the way. A client that has not received the whole command's answer when its timeout expires
  gets an error.
\<close>

record plan =
  cuts :: "nat list"
  arrives :: nat
  at_time :: timespec
  plan_tx :: "send_answer list"
  lost :: bool

function cut_into :: "nat list \<Rightarrow> bytes \<Rightarrow> bytes list" where
  "cut_into ns s =
     (if s = [] then []
      else (let n = (case ns of [] \<Rightarrow> RECV_BUF | k # _ \<Rightarrow> max 1 (min RECV_BUF k))
            in take n s # cut_into (tl ns) (drop n s)))"
  by pat_completeness auto
termination
  by (relation "measure (\<lambda>(ns, s). length s)") (auto simp: RECV_BUF_def split: list.splits)

declare cut_into.simps [simp del]

lemma concat_cut_into: "concat (cut_into ns s) = s"
  by (induction ns s rule: cut_into.induct) (subst cut_into.simps, simp add: Let_def)

lemma cut_into_chunks: "\<forall>c\<in>set (cut_into ns s). c \<noteq> [] \<and> length c \<le> RECV_BUF"
proof (induction ns s rule: cut_into.induct)
  case (1 ns s)
  have "0 < RECV_BUF" by (simp add: RECV_BUF_def)
  then show ?case
    using 1 by (subst cut_into.simps) (auto simp: Let_def split: list.split)
qed

definition plan_io :: "plan \<Rightarrow> io" where
  "plan_io p = \<lparr>tx = plan_tx p, clk = [at_time p], out = []\<rparr>"

definition c_net :: "(plan list \<times> store) net" where
  "c_net s command =
     (case s of
        ([], st) \<Rightarrow> (([], st), None)
      | (p # ps, st) \<Rightarrow>
          (case handle_client (map Received (cut_into (cuts p) (take (arrives p) command))) (plan_io p) st of
             None \<Rightarrow> ((ps, st), None)
           | Some (w, st', r) \<Rightarrow>
               ((ps, st'),
                if lost p \<or> arrives p < length command then None
                else if LF \<in> set (out w) \<or> r = Returned () then Some (out w)
                else None)))"

text \<open>The clock readings of the connections are valid and in order.\<close>

definition plans_ok :: "int \<Rightarrow> plan list \<Rightarrow> bool" where
  "plans_ok t ps \<longleftrightarrow> sorted (t # map (ms_of \<circ> at_time) ps) \<and> (\<forall>p\<in>set ps. clock_ok (at_time p))"

lemma c_net_step:
  assumes R: "cstore.refines t st m" and ok: "plans_ok t (p # ps)"
    and c: "cmd_ok key_ok ttl_ok value_ok c" "last (print_cmd c) \<noteq> CR"
    and net: "c_net (p # ps, st) (print_cmd c @ [LF]) = ((qs, st'), x)"
  defines "u \<equiv> ms_of (at_time p)"
  shows "qs = ps \<and> plans_ok u ps \<and>
    (cstore.refines u st' m \<and> x = None \<or>
     cstore.refines u st' (fst (spec_step STORE_CAP u c m)) \<and>
     (\<forall>stream. x = Some stream \<longrightarrow> (\<exists>n. stream = take n (encode_reply (snd (spec_step STORE_CAP u c m))))))"
proof -
  let ?cs = "cut_into (cuts p) (take (arrives p) (print_cmd c @ [LF]))"
  have u: "t \<le> u" "clock_ok (at_time p)" "plans_ok u ps" using ok by (auto simp: plans_ok_def u_def)
  have Ru: "cstore.refines u st m" using R u(1) cstore.refines_later by blast
  have io: "store_inv st" "clocks_ok (plan_io p)" using R u(2) by (auto simp: cstore.refines_def clocks_ok_def plan_io_def)
  show ?thesis
  proof (cases "arrives p < length (print_cmd c @ [LF])")
    case True
    then have cs: "concat ?cs = take (arrives p) (print_cmd c)" by (simp add: concat_cut_into)
    have "length (take (arrives p) (print_cmd c)) + RECV_BUF \<le> LINE_MAX"
      using length_print_cmd [OF c(1)] by (simp add: KEY_MAX_def VALUE_MAX_def RECV_BUF_def LINE_MAX_def)
    moreover have "LF \<notin> set (take (arrives p) (print_cmd c))"
      using print_cmd_chars(2) [OF c(1)] by (auto dest: in_set_takeD)
    ultimately have "handle_client (map Received ?cs) (plan_io p) st = Some (plan_io p, st, Blocked)"
      by (intro no_exchange [OF cut_into_chunks _ _ io]) (simp_all only: cs not_False_eq_True)
    then show ?thesis using net True Ru u(3) by (simp add: c_net_def)
  next
    case False
    then have "concat ?cs = print_cmd c @ [LF]" by (simp add: concat_cut_into)
    then obtain w st1 r n where "handle_client (map Received ?cs) (plan_io p) st = Some (w, st1, r)"
      "out w = out (plan_io p) @ take n (encode_reply (snd (spec_step STORE_CAP u c m)))"
      "cstore.refines u st1 (fst (spec_step STORE_CAP u c m))"
      using exchange [OF cut_into_chunks _ c, of "cuts p" "take (arrives p) (print_cmd c @ [LF])" "at_time p" st m "plan_io p"]
        Ru u(2) unfolding u_def by (metis (no_types) plan_io_def io.select_convs(2))
    then show ?thesis using net u(3) by (auto simp: c_net_def plan_io_def split: if_splits)
  qed
qed

text \<open>The store shows nothing else than the HTTP server's own value under its key.\<close>

definition c_good :: "plan list \<times> store \<Rightarrow> bool" where
  "c_good s \<longleftrightarrow> (\<exists>t m. cstore.refines t (snd s) m \<and> plans_ok t (fst s) \<and>
     (\<forall>u\<ge>t. live m u ''http:/hello'' = None \<or> live m u ''http:/hello'' = Some ''HELLO WORLD!''))"

lemma c_goodI:
  "cstore.refines t st m \<Longrightarrow> plans_ok t ps \<Longrightarrow>
   (\<And>u. t \<le> u \<Longrightarrow> live m u ''http:/hello'' = None \<or> live m u ''http:/hello'' = Some ''HELLO WORLD!'') \<Longrightarrow> c_good (ps, st)"
  unfolding c_good_def by auto

lemma c_good_initial: "plans_ok t ps \<Longrightarrow> c_good (ps, initial_store)"
  by (rule c_goodI [OF refines_initial]) (auto simp: live_def)

lemma c_good_step:
  assumes "c_good s" and c: "cmd_ok key_ok ttl_ok value_ok c" "last (print_cmd c) \<noteq> CR"
    and w: "writes c = None \<or> (\<exists>ttl. c = Set ''http:/hello'' ttl ''HELLO WORLD!'')"
    and net: "c_net s (print_cmd c @ [LF]) = (s', x)"
  shows "c_good s' \<and> (\<forall>stream. x = Some stream \<longrightarrow> (\<exists>n u m. stream = take n (encode_reply (snd (spec_step STORE_CAP u c m))) \<and>
    (live m u ''http:/hello'' = None \<or> live m u ''http:/hello'' = Some ''HELLO WORLD!'')))"
proof -
  obtain t m where R: "cstore.refines t (snd s) m" "plans_ok t (fst s)"
    and live: "\<And>u. t \<le> u \<Longrightarrow> live m u ''http:/hello'' = None \<or> live m u ''http:/hello'' = Some ''HELLO WORLD!''"
    using assms(1) unfolding c_good_def by blast
  show ?thesis
  proof (cases "fst s")
    case Nil
    then show ?thesis using net assms(1) by (cases s) (simp add: c_net_def)
  next
    case (Cons p ps)
    let ?u = "ms_of (at_time p)"
    have s: "s = (p # ps, snd s)" "s' = (fst s', snd s')" using Cons by (metis prod.collapse)+
    have u: "t \<le> ?u" using R(2) Cons by (simp add: plans_ok_def)
    have keep: "live (fst (spec_step STORE_CAP ?u c m)) v ''http:/hello'' = None \<or>
        live (fst (spec_step STORE_CAP ?u c m)) v ''http:/hello'' = Some ''HELLO WORLD!''" if "?u \<le> v" for v
    proof (cases c)
      case (Set k ttl x)
      then show ?thesis using w live [of v] u that by (auto simp: live_upd)
    qed (use w live [of v] u that in auto)
    note step = c_net_step [OF R(1) R(2) [unfolded Cons] c, of "fst s'" "snd s'" x]
    have n: "c_net (p # ps, snd s) (print_cmd c @ [LF]) = ((fst s', snd s'), x)" using net s by simp
    show ?thesis
    proof (rule disjE [OF conjunct2 [OF conjunct2 [OF step [OF n]]]])
      assume a: "cstore.refines ?u (snd s') m \<and> x = None"
      then have "c_good (fst s', snd s')"
        using step [OF n] by (intro c_goodI [of ?u _ m]) (use live u in \<open>auto intro: order_trans\<close>)
      then show ?thesis using a by simp
    next
      assume a: "cstore.refines ?u (snd s') (fst (spec_step STORE_CAP ?u c m)) \<and>
        (\<forall>stream. x = Some stream \<longrightarrow> (\<exists>n. stream = take n (encode_reply (snd (spec_step STORE_CAP ?u c m)))))"
      then have "c_good (fst s', snd s')"
        using step [OF n] keep by (intro c_goodI [of ?u _ "fst (spec_step STORE_CAP ?u c m)"]) auto
      then show ?thesis using a live [OF u] by (simp, blast)
    qed
  qed
qed

lemma hello_ok: "key_ok ''http:/hello''" "value_ok ''HELLO WORLD!''" "ttl_ok 60"
  by (simp_all add: key_ok_def value_ok_def ttl_ok_def KEY_MAX_def VALUE_MAX_def TTL_MAX_def isspace_def)

interpretation c_cache: honest_cache c_net c_good
proof
  fix s s' r
  assume "c_good s" and net: "c_net s (''GET http:/hello'' @ [LF]) = (s', r)"
  then have "c_good s' \<and> (\<forall>stream. r = Some stream \<longrightarrow> (\<exists>n u m.
      stream = take n (encode_reply (snd (spec_step STORE_CAP u (Get ''http:/hello'') m))) \<and>
      (live m u ''http:/hello'' = None \<or> live m u ''http:/hello'' = Some ''HELLO WORLD!'')))"
    using c_good_step [of s "Get ''http:/hello''" s' r] hello_ok(1) by simp
  then show "c_good s' \<and> (\<forall>stream. r = Some stream \<longrightarrow>
      (\<exists>n. stream = take n NOT_FOUND_reply \<or> stream = take n (VALUE_reply ''HELLO WORLD!'')))"
    by fastforce
next
  fix s s' r
  assume "c_good s" and "c_net s (''SET http:/hello 60 HELLO WORLD!'' @ [LF]) = (s', r)"
  then show "c_good s'"
    using c_good_step [of s "Set ''http:/hello'' 60 ''HELLO WORLD!''" s' r] hello_ok by (simp add: show_60)
qed

interpretation c_busy: honest_cache "busy c_net" "\<lambda>s. c_good (fst s)"
  by (rule c_cache.honest_busy)

section \<open>The round trip through both programs\<close>

text \<open>A connection on which everything arrives: the command, and the reply however it is cut and interrupted.\<close>

definition plan_works :: "plan \<Rightarrow> bool" where
  "plan_works p \<longleftrightarrow> \<not> lost p \<and> KEY_MAX + VALUE_MAX + 13 \<le> arrives p \<and> clock_ok (at_time p) \<and>
     can_send (plan_io p) (VALUE_MAX + 32)"

lemma encode_reply_LF: "LF \<in> set (encode_reply r)"
  by (cases r) (simp_all add: VALUE_reply_def)

lemma c_net_reply:
  assumes R: "cstore.refines (ms_of (at_time p)) st m" and p: "plan_works p"
    and c: "cmd_ok key_ok ttl_ok value_ok c" "last (print_cmd c) \<noteq> CR"
  defines "u \<equiv> ms_of (at_time p)"
  shows "\<exists>st'. c_net (p # ps, st) (print_cmd c @ [LF]) = ((ps, st'), Some (encode_reply (snd (spec_step STORE_CAP u c m)))) \<and>
    cstore.refines u st' (fst (spec_step STORE_CAP u c m))"
proof -
  let ?cs = "cut_into (cuts p) (take (arrives p) (print_cmd c @ [LF]))" and ?msg = "encode_reply (snd (spec_step STORE_CAP u c m))"
  have all: "\<not> arrives p < length (print_cmd c @ [LF])" using p length_print_cmd [OF c(1)] by (simp add: plan_works_def)
  then have cs: "concat ?cs = print_cmd c @ [LF]" by (simp add: concat_cut_into)
  have clk: "clk (plan_io p) = [at_time p]" "clock_ok (at_time p)" using p by (simp_all add: plan_io_def plan_works_def)
  have "time_ok u" "store_inv st" using now_ms_of [OF clk(2)] R by (simp_all add: u_def cstore.refines_def)
  then have "length ?msg < VALUE_MAX + 32"
    using exec_cmd_ok [OF _ _ c(1), of st u] cstore.step_refines [OF R c(1)] unfolding u_def by fastforce
  then have send: "can_send (plan_io p) (length ?msg)" using p by (auto simp: plan_works_def can_send_def)
  obtain w st1 r n where "handle_client (map Received ?cs) (plan_io p) st = Some (w, st1, r)"
    "out w = out (plan_io p) @ take n ?msg" "cstore.refines u st1 (fst (spec_step STORE_CAP u c m))"
    "can_send (plan_io p) (length ?msg) \<Longrightarrow> n = length ?msg"
    using exchange [OF cut_into_chunks cs c R clk] unfolding u_def by metis
  then show ?thesis using p send all encode_reply_LF by (auto simp: c_net_def plan_io_def plan_works_def)
qed

lemma client_command_c_net:
  assumes "c_net s command = (s', Some (encode_reply r))" and "\<And>v. r = Value v \<Longrightarrow> value_ok v"
  shows "client_command c_net s command = (s', Inr (encode_reply r))"
proof -
  obtain b where b: "encode_reply r = b @ [LF]" "LF \<notin> set b" "length b < MAX_REPLY_SIZE"
    using assms(2) by (cases r) (auto simp: VALUE_reply_def value_ok_def MAX_REPLY_SIZE_def CLIENT_VALUE_MAX_def VALUE_MAX_def)
  then show ?thesis using client_command_prefix [of c_net s command s' "Suc (length b)" b] assms(1) by simp
qed

lemma c_client_set:
  assumes R: "cstore.refines (ms_of (at_time p)) st m" and p: "plan_works p"
    and k: "encode_key key = Inr k" and v: "encode_value v = Inr v" and ttl: "0 \<le> ttl" "ttl \<le> CLIENT_TTL_MAX"
    and room: "card (dom (live m (ms_of (at_time p)))) < STORE_CAP"
  shows "\<exists>st'. client_set c_net (p # ps, st) key v ttl = ((ps, st'), Inr ()) \<and>
    cstore.refines (ms_of (at_time p)) st' (m(k \<mapsto> (v, expiry (ms_of (at_time p)) ttl)))"
proof -
  let ?c = "Set k ttl v"
  have "value_ok v" "v \<noteq> []" "last v \<noteq> CR"
    using encode_value_ok [OF v] last_in_set [of v] by (auto simp: value_ok_def simp del: last_in_set)
  then have c: "cmd_ok key_ok ttl_ok value_ok ?c" "last (print_cmd ?c) \<noteq> CR"
    using encode_key_ok [OF k] ttl by (auto simp: ttl_ok_def TTL_MAX_def CLIENT_TTL_MAX_def)
  have step: "spec_step STORE_CAP (ms_of (at_time p)) ?c m = (m(k \<mapsto> (v, expiry (ms_of (at_time p)) ttl)), Stored)"
    using room by simp
  obtain st' where st': "c_net (p # ps, st) (print_cmd ?c @ [LF]) = ((ps, st'), Some (encode_reply Stored))"
    "cstore.refines (ms_of (at_time p)) st' (m(k \<mapsto> (v, expiry (ms_of (at_time p)) ttl)))"
    using c_net_reply [OF R p c, of ps] unfolding step by auto
  have "snd (client_command c_net (p # ps, st) (print_cmd ?c @ [LF])) = Inr OK_reply"
    using client_command_c_net [OF st'(1)] by simp
  then have "client_set c_net (p # ps, st) key v ttl = ((ps, st'), Inr ())"
    using client_set_valid [OF k v ttl, of c_net "(p # ps, st)"] st'(1) by (simp add: prod_eq_iff)
  then show ?thesis using st'(2) by blast
qed

lemma c_client_get:
  assumes R: "cstore.refines (ms_of (at_time p)) st m" and p: "plan_works p" and k: "encode_key key = Inr k"
    and v: "\<And>v. live m (ms_of (at_time p)) k = Some v \<Longrightarrow> encode_value v = Inr v"
  shows "\<exists>st'. client_get c_net (p # ps, st) key = ((ps, st'), Inr (live m (ms_of (at_time p)) k))"
proof -
  let ?r = "case live m (ms_of (at_time p)) k of None \<Rightarrow> Not_Found | Some v \<Rightarrow> Value v"
  have "k \<noteq> []" "last k \<noteq> CR"
    using encode_key_ok [OF k] key_ok_no_space last_in_set [of k] by (auto simp: key_ok_def simp del: last_in_set)
  then have c: "cmd_ok key_ok ttl_ok value_ok (Get k)" "last (print_cmd (Get k)) \<noteq> CR"
    using encode_key_ok [OF k] by auto
  obtain st' where "c_net (p # ps, st) (print_cmd (Get k) @ [LF]) = ((ps, st'), Some (encode_reply ?r))"
    using c_net_reply [OF R p c, of ps] by auto
  then have cmd: "client_command c_net (p # ps, st) (''GET '' @ k @ [LF]) = ((ps, st'), Inr (encode_reply ?r))"
    using client_command_c_net encode_value_ok [OF v] by (fastforce split: option.splits)
  show ?thesis
  proof (cases "live m (ms_of (at_time p)) k")
    case None
    then show ?thesis using cmd k by (simp add: client_get_def)
  next
    case (Some v)
    then have "encode_value v = Inr v" "LF \<notin> set v" using assms(4) encode_value_ok by (auto simp: value_ok_def)
    then show ?thesis using cmd k Some by (simp add: client_get_def VALUE_reply_def is_prefix_def)
  qed
qed

end
