(* ===== verification/Http_Theorems.thy ===== *)
theory Http_Theorems
  imports Http_Cache_Server
begin

text \<open>
  Properties of the HTTP server with the C cache behind it. The witnesses use connections on which
  every byte arrives, half a second apart.
\<close>

definition demo_plan :: "int \<Rightarrow> plan" where
  "demo_plan s = \<lparr>cuts = [3], arrives = 5000, at_time = \<lparr>tv_sec = s, tv_nsec = 500000000\<rparr>,
     plan_tx = Send_error EINTR # replicate (VALUE_MAX + 32) (Sent 1), lost = False\<rparr>"

lemma demo_plan_works: "0 \<le> s \<Longrightarrow> s \<le> 9 * 10 ^ 15 \<Longrightarrow> plan_works (demo_plan s)"
  by (simp add: plan_works_def demo_plan_def KEY_MAX_def clock_ok_def can_send_def plan_io_def progress_def)
    (simp add: VALUE_MAX_def)

lemma demo_plans_ok: "plans_ok 0 [demo_plan 1, demo_plan 2, demo_plan 3]"
  by (simp add: plans_ok_def demo_plan_def clock_ok_def ms_of_def)

lemma demo_live: "live (Map.empty :: cache_map) = (\<lambda>u k. None)"
  by (rule ext, rule ext) (simp add: live_def)

definition demo_request :: bytes where
  "demo_request = print_request ''GET'' ''/hello'' [(''Host'', '' localhost:8088'')]"

text \<open>C13. The cache is transparent: as long as the C cache shows nothing else than the HTTP server's
  own value under its key (in particular, from an empty store), every sequence of connections gets exactly the
  bytes a server without a cache sends, whatever the clients send (malformed and unfinished requests included), whatever
  the network does to the connections between the HTTP server and the cache (chunks, partial sends, lost commands and
  replies), whatever commands the server's other threads give to the cache in between, and whatever expires.\<close>

theorem http_cache_transparent:
  assumes "cstore.refines t st m" and "plans_ok t ps"
    and "\<And>u. t \<le> u \<Longrightarrow> live m u ''http:/hello'' = None \<or> live m u ''http:/hello'' = Some ''HELLO WORLD!''"
  shows "snd (serve_all (Some (busy c_net)) ((ps, st), schedule) rxs) = snd (serve_all None () rxs)"
  by (rule c_busy.serve_all_transparent) (simp add: c_goodI [OF assms])

theorem http_cache_transparent_witness:
  "snd (serve_all (Some (busy c_net)) (([demo_plan 1, demo_plan 2, demo_plan 3], initial_store), [[], [False, True]])
      [[Received demo_request], [Received ''GET /'', Received []], [Received demo_request]]) =
   snd (serve_all None () [[Received demo_request], [Received ''GET /'', Received []], [Received demo_request]])"
  by (rule http_cache_transparent [OF refines_initial demo_plans_ok]) (simp add: demo_live)

text \<open>C14. A well-formed request is answered: the bytes of a request (a token as method, a target, headers with
  distinct names) are read and parsed back whatever chunks they arrive in, interruptions and further bytes included, up to
  64 KiB; the client gets the bytes of the application's response (status line, its headers, \<open>Content-Length\<close>,
  \<open>Connection: close\<close>, blank line and body), or those of a 400 when a header announces a body.\<close>

theorem http_request_roundtrip:
  assumes "request_ok method target hs" and "list_all arriving rx"
    and "received rx = print_request method target hs @ rest" and "length (received rx) \<le> MAX_REQUEST_SIZE"
  shows "read_request rx [] = Returned (Inr (print_request method target hs)) \<and>
    parse_request (print_request method target hs) =
      Inr ((codes method, codes target, codes ''HTTP/1.1''), map parsed_header hs) \<and>
    handle_connection None s rx = (s, Returned (response_bytes
      (if has_body hs then \<lparr>resp_status = ''400 Bad Request'', resp_body = ''Bad Request'' @ [LF], resp_headers = []\<rparr>
       else respond \<lparr>req_method = method, req_target = target\<rparr>)))"
  using read_request_printed [OF assms] parse_request_printed [OF assms(1)] answer_request_printed [OF assms(1), of None s]
  by (simp add: handle_connection_def respond_with_cache_def bad_request_bytes)

theorem http_request_roundtrip_witness:
  "handle_connection None () [Received (take 5 demo_request), Recv_error EINTR, Received (drop 5 demo_request)] =
    ((), Returned (''HTTP/1.1 200 OK'' @ CRLF @ ''Content-Length: 13'' @ CRLF @ ''Connection: close'' @ CRLF @ CRLF @
      ''HELLO WORLD!'' @ [LF]))"
proof -
  have "request_ok ''GET'' ''/hello'' [(''Host'', '' localhost:8088'')]" by code_simp
  moreover have "list_all arriving [Received (take 5 demo_request), Recv_error EINTR, Received (drop 5 demo_request)]" by code_simp
  moreover have "length demo_request \<le> MAX_REQUEST_SIZE" "\<not> has_body [(''Host'', '' localhost:8088'')]" by code_simp+
  moreover have "response_bytes (respond \<lparr>req_method = ''GET'', req_target = ''/hello''\<rparr>) =
      ''HTTP/1.1 200 OK'' @ CRLF @ ''Content-Length: 13'' @ CRLF @ ''Connection: close'' @ CRLF @ CRLF @ ''HELLO WORLD!'' @ [LF]"
    by code_simp
  ultimately show ?thesis
    using http_request_roundtrip [of "''GET''" "''/hello''" "[(''Host'', '' localhost:8088'')]"
        "[Received (take 5 demo_request), Recv_error EINTR, Received (drop 5 demo_request)]" "[]" "()"]
    by (simp add: demo_request_def)
qed

text \<open>C37. The request buffer is bounded: as long as no blank line has arrived, the server keeps waiting; it answers 400,
  without asking the cache, when the stream ends or the received bytes exceed 64 KiB.\<close>

theorem http_request_bounded:
  assumes "list_all arriving rx" and "find_sub BLANK (received rx) = None"
  shows "if length (received rx) \<le> MAX_REQUEST_SIZE
    then handle_connection cache s rx = (s, Blocked) \<and>
      handle_connection cache s (rx @ Received [] # ry) = (s, Returned bad_request)
    else handle_connection cache s (rx @ ry) = (s, Returned bad_request)"
  using read_request_unfinished [of rx "[]"] read_request_unfinished [of rx "[]" "[]"] assms
  by (simp add: handle_connection_def)

theorem http_request_bounded_witness:
  "handle_connection (Some c_net) ([], initial_store) ([Received ''GET /''] @ [Received []]) = (([], initial_store), Returned bad_request)"
proof -
  have "list_all arriving [Received ''GET /'']" "find_sub BLANK (received [Received ''GET /'']) = None"
    "length (received [Received ''GET /'']) \<le> MAX_REQUEST_SIZE" by code_simp+
  then show ?thesis
    using http_request_bounded [of "[Received ''GET /'']" "Some c_net" "([], initial_store)" "[]"] by simp
qed

text \<open>C15. Round trip through both programs: when the connections work and the cache has room, \<open>set\<close> of the
  Python client succeeds against the C server, and \<open>get\<close> returns the very bytes until the time-to-live has
  passed and \<open>None\<close> afterwards.\<close>

theorem cache_client_roundtrip:
  assumes "cstore.refines t st m" and "t \<le> ms_of (at_time p)" and "ms_of (at_time p) \<le> ms_of (at_time q)"
    and "plan_works p" and "plan_works q"
    and "encode_key key = Inr k" and "encode_value v = Inr v" and "0 \<le> ttl" and "ttl \<le> CLIENT_TTL_MAX"
    and "card (dom (live m (ms_of (at_time p)))) < STORE_CAP"
  shows "\<exists>st1 st2. client_set c_net (p # q # ps, st) key v ttl = ((q # ps, st1), Inr ()) \<and>
    client_get c_net (q # ps, st1) key = ((ps, st2),
      Inr (if ttl \<noteq> 0 \<and> ms_of (at_time p) + ttl * 1000 \<le> ms_of (at_time q) then None else Some v))"
proof -
  let ?m = "m(k \<mapsto> (v, expiry (ms_of (at_time p)) ttl))"
  obtain st1 where st1: "client_set c_net (p # q # ps, st) key v ttl = ((q # ps, st1), Inr ())"
    "cstore.refines (ms_of (at_time p)) st1 ?m"
    using c_client_set [OF cstore.refines_later [OF assms(1,2)] assms(4,6-10)] by blast
  have R: "cstore.refines (ms_of (at_time q)) st1 ?m" using cstore.refines_later [OF st1(2) assms(3)] .
  have live: "live ?m (ms_of (at_time q)) k =
      (if ttl \<noteq> 0 \<and> ms_of (at_time p) + ttl * 1000 \<le> ms_of (at_time q) then None else Some v)"
    by (simp add: live_upd)
  obtain st2 where "client_get c_net (q # ps, st1) key = ((ps, st2), Inr (live ?m (ms_of (at_time q)) k))"
    using c_client_get [OF R assms(5,6)] assms(7) live by (auto split: if_splits)
  then show ?thesis using st1(1) live by auto
qed

theorem cache_client_roundtrip_witness:
  "\<exists>st1 st2. client_set c_net ([demo_plan 1, demo_plan 2], initial_store) CACHE_KEY ''HELLO WORLD!'' 60 = (([demo_plan 2], st1), Inr ()) \<and>
    client_get c_net ([demo_plan 2], st1) CACHE_KEY = (([], st2), Inr (Some ''HELLO WORLD!''))"
proof -
  have "encode_value ''HELLO WORLD!'' = Inr ''HELLO WORLD!''" by (simp add: encode_value_def CLIENT_VALUE_MAX_def)
  then show ?thesis
    using cache_client_roundtrip [OF refines_initial _ _ demo_plan_works demo_plan_works encode_CACHE_KEY,
        of 0 1 2 "''HELLO WORLD!''" 60 "[]"]
    by (simp add: demo_plan_def ms_of_def CLIENT_TTL_MAX_def demo_live STORE_CAP_def dom_def)
qed

end
