(* ===== verification/Spec2Isabelle.thy ===== *)
theory Spec2Isabelle
  imports Cache_Theorems Cache_Line_Theorems Runtime_System_Theorems Http_Theorems
begin

text \<open>
  Verification of the C programs of \<^verbatim>\<open>infra-from-scratch\<close>: the in-memory cache
  (\<^verbatim>\<open>src/in-mem-cache/server.c\<close>) and the container launcher
  (\<^verbatim>\<open>src/container-runtime/runtime.c\<close>), and the connections of the Python HTTP server that
  uses the cache (\<^verbatim>\<open>src/http-server/cache_client.py\<close>, \<^verbatim>\<open>application.py\<close> and \<open>handle_connection\<close> of \<^verbatim>\<open>server.py\<close>).

  \<^bold>\<open>The programs.\<close> The cache is a TCP server with a text protocol (GET, SET with a time to
  live, DELETE) over a store of 1024 slots; every connection has a thread, the store is
  protected by a mutex, expired entries are removed lazily. The launcher creates user, mount
  and PID namespaces; the new PID 1 waits until the launcher has written the user maps,
  switches to the given rootfs, drops its privileges, starts the command and supervises
  it; the launcher supervises PID 1. The repository's stack runs the cache under the launcher; the two share
  no code and no state. The HTTP server keeps one response in the cache, through a client that opens a connection
  per command.

  \<^bold>\<open>Conventions.\<close> Undefined behaviour of C is \<open>None\<close> in the option monad (or the program counter
  \<open>T_undefined\<close>): every buffer access is checked against the array it goes to, signed 64-bit arithmetic
  against its range; \<open>active_clients\<close> is a \<open>64 word\<close>, the other sizes are bounded by their buffers and natural numbers. A buffer is the list of its initialised bytes. The kernel is not modelled
  as code: a blocking call takes the next element of a list of answers, and a program whose list is used up is still waiting
  (\<open>Blocked\<close>, \<open>Waiting\<close>). The theorems hold for all lists of answers, so for every finite prefix of every
  behaviour; no fuel is used. Where a theorem needs documented behaviour of the kernel (a monotonic clock, \<open>send\<close> taking at least one byte,
  a pipe delivering what was written, the answers of \<open>waitpid\<close> and \<open>sigwaitinfo\<close>), it is a hypothesis or a guard of the step relation.

  \<^bold>\<open>Theories of the cache.\<close>
  \<^item> \<open>Prelude\<close>, \<open>C_Lib\<close>: shared lemmas; the C library functions the programs use (\<open>memcpy\<close>,
    \<open>memchr\<close>, \<open>strcmp\<close>, \<open>strncmp\<close>, \<open>strchr\<close>, \<open>strtol\<close>, \<open>snprintf\<close>, decimal printing) with their bounds.
  \<^item> \<open>Cache_Interface\<close>: the abstract cache (a map with expiry times) and the locale \<open>ttl_cache\<close> of
    laws an implementation obeys; inside it, refinement of the abstract machine by any command sequence.
  \<^item> \<open>Cache_Net\<close>: \<open>send_all\<close>. \<open>Cache_Store\<close>: \<open>struct entry\<close>, \<open>now_ms\<close>, \<open>lookup\<close>, \<open>free_slot\<close>
    and the three critical sections of \<open>handle_line\<close>; the invariant \<open>store_inv\<close>, the view of a store at a time, and the interpretation of \<open>ttl_cache\<close>.
  \<^item> \<open>Cache_Protocol\<close>: \<open>send_reply\<close>, \<open>valid_key\<close>, \<open>parse_ttl\<close>, \<open>handle_line\<close>. What \<open>handle_line\<close> does before it takes the
    mutex is \<open>parse_line\<close>, what it does under it \<open>critical_section\<close>. \<open>decode\<close> specifies the syntax.
  \<^item> \<open>Cache_Client\<close>: \<open>handle_client\<close> with its buffer; \<open>Cache_Session\<close>: a whole connection against the abstract cache.
  \<^item> \<open>Transition\<close>: executions of labelled step relations and their invariants (locale \<open>traced_system\<close>).
  \<^item> \<open>Cache_Server\<close>: the threads and the accept loop as a step relation, \<open>reserve_client_slot\<close>, \<open>release_client_slot\<close>;
    \<open>Cache_Main\<close>: the command line and the listening socket.
  \<^item> \<open>Cache_Concurrency\<close>, \<open>Cache_Linear\<close>: mutual exclusion, client slots, linearizability and the replies of each connection;
    \<open>Cache_Example\<close>: executions, for the witnesses.
  \<^item> \<open>Cache_Theorems\<close>, \<open>Cache_Line_Theorems\<close>: the properties of the cache.

  \<^bold>\<open>Theories of the HTTP server.\<close>
  \<^item> \<open>Cache_Wire\<close>: the lines of commands are read back by the C parser; one command through \<open>handle_client\<close>.
  \<^item> \<open>Http_Cache\<close>: \<open>CacheClient\<close>, \<open>respond\<close> and \<open>respond_with_cache\<close>, over an abstract transport.
  \<^item> \<open>Http_Server\<close>: \<open>handle_connection\<close> with \<open>read_request\<close>, \<open>parse_request\<close> and \<open>build_response\<close> on the bytes of a
    connection; \<open>Http_Server_Facts\<close>: well-formed requests are read back, in whatever chunks they arrive.
  \<^item> \<open>Http_Cache_Server\<close>: the locale \<open>honest_cache\<close> of what the HTTP server relies on, the C cache behind a network that
    cuts and loses (\<open>c_net\<close>), alone and with the commands of the server's other threads in between (\<open>busy\<close>), and the
    interpretations of the locale on both.
  \<^item> \<open>Http_Theorems\<close>: the properties of the two programs together.

  \<^bold>\<open>Theories of the launcher.\<close>
  \<^item> \<open>Syscalls\<close>: programs as functions of the kernel's answers, and reasoning about all their runs.
  \<^item> \<open>Runtime\<close>: every function of \<^verbatim>\<open>runtime.c\<close>: \<open>exit_status\<close>, \<open>supervise\<close>, \<open>drop_capabilities\<close>, \<open>run_container\<close>
    (cut into \<open>await_parent\<close>, \<open>switch_root\<close>, \<open>start_command\<close>, \<open>command_child\<close>), \<open>write_map\<close> and \<open>main\<close> (cut into \<open>prepare\<close>, \<open>launch\<close>).
  \<^item> \<open>Runtime_Facts\<close>, \<open>Runtime_Setup\<close>, \<open>Runtime_Launch\<close>: facts about these programs;
    \<open>Runtime_Supervisor\<close>: the supervisor beside a kernel in which children exit and signals arrive at any time.
  \<^item> \<open>Runtime_Process\<close>: a program run one system call at a time; \<open>Runtime_System\<close>: the launcher and PID 1 side by side,
    with the pipe, the parent's process descriptor and the parent-death signal of the kernel between them (locale \<open>traced_system\<close>).
  \<^item> \<open>Runtime_Theorems\<close>, \<open>Runtime_System_Theorems\<close>: the properties of the launcher, and of the two processes together.

  \<^bold>\<open>What is shown.\<close> The cache: no undefined behaviour in any execution; the critical sections of all
  clients are a run of the abstract cache and every client gets the replies to its own lines in order; mutual exclusion
  and no deadlock on the store mutex; at most 32 clients, the next one is told so and closed; SET/GET round trip with expiry; the replies do not depend
  on how the network cuts the stream, and all are delivered when the socket makes progress; the command line and its messages. With the HTTP server in front:
  caching changes no byte of any answer, a well-formed request is parsed back and answered, an endless one is refused at 64 KiB, and a value set through
  the Python client comes back until it expires.
  The launcher: a command is started only after the complete setup and every failure before it ends in 125; the command's
  status reaches the caller through both supervisors; signals are forwarded; no child's exit is missed and the supervisor returns;
  in every interleaving of the launcher and PID 1 the user maps are written before the container goes on, and a container whose launcher dies
  is killed or ends before it starts anything; the checks of \<open>main\<close> come before the clone; nothing is cut by a fixed buffer.

  \<^bold>\<open>Modelling choices.\<close> The C code of a critical section is one step: every access to the store is under
  \<open>store_mutex\<close>, which the model takes and releases explicitly; the bodies under \<open>client_count_mutex\<close> are one step each. \<open>main\<close> of the
  cache loops forever, so its accept loop is part of the step relation. Failures of \<open>malloc\<close>, \<open>pthread_create\<close>, \<open>accept\<close> and \<open>send\<close> are steps.
  Releasing heap memory and the results of \<open>close\<close>, which the code ignores, have no effect in the model.

  \<^bold>\<open>Not modelled.\<close> The start-up and registration of the Python HTTP server (\<open>serve\<close>, \<open>renew_registration\<close>, \<open>main\<close>), which are
  calls of its libraries; the Python HTTP client, the Go reverse proxy, load balancer and DNS server, the C test probe
  \<^verbatim>\<open>container-runtime/tests/probe.c\<close>, tests, build files and documents: they are other programs that talk to these
  over sockets only. \<open>errno\<close> is kept where the code tests it or prints it.
\<close>

end
